(* ===== verification/RL_Prelude.thy ===== *)
theory RL_Prelude
  imports "HOL-Library.Word"
begin

text \<open>
  Shared vocabulary of the RouteLoom development: the fixed-width integers of
  \<^verbatim>\<open>include/routeloom/types.hpp\<close>, the \<^verbatim>\<open>Status\<close> result type of
  \<^verbatim>\<open>include/routeloom/status.hpp\<close>, the sequencing of fallible calls, the big-endian
  byte representation of machine words, and the lemmas on lists and words that several
  components need.

  A C++ function that returns \<^verbatim>\<open>Status\<close> and writes its results through references is
  a function into \<open>status + 'a\<close>: \<open>Inl\<close> carries the error, \<open>Inr\<close> the written results.
  What a failing call leaves in its out-parameters is not modelled except where a caller
  reads it afterwards.
\<close>

unbundle bit_operations_syntax

named_theorems codec \<open>execution of byte writers and readers on symbolic cursors\<close>

subsection \<open>Machine integers\<close>

type_synonym u8 = "8 word"
type_synonym u16 = "16 word"
type_synonym u32 = "32 word"
type_synonym u64 = "64 word"

type_synonym bytes = "u8 list"

type_synonym NodeId = u64
type_synonym NetworkId = u64
type_synonym MonotonicMs = u64

abbreviation kInvalidNodeId :: NodeId where
  "kInvalidNodeId \<equiv> 0"

abbreviation kBroadcastNodeId :: NodeId where
  "kBroadcastNodeId \<equiv> 0xFFFFFFFFFFFFFFFF"

subsection \<open>Status codes and fallible results\<close>

datatype (plugins only: code) StatusCode =
    Ok | InvalidArgument | InvalidState | NotFound | AlreadyExists | Unsupported
  | WouldBlock | NoCapacity | NoRoute | Expired | TimeUncertain | AuthenticationFailed
  | AuthorizationFailed | ReplayRejected | CounterExhausted | StorageFailure
  | RadioFailure | DriverResultUnknown | ProtocolError | IntegrityError | Conflict
  | Busy | InternalError | DiscoveryBudgetExhausted | AuthRequired | ApprovalRequired
  | BindingConflict | PeerCapacity | Congested | RemoteBusy | NoFeasibleAlternative
  | SurveyRequiresOutagePermission | LegacyParticipant | ClockUncertain
  | PlanNotCommitted | RecoveryRequired | AuthProfileUnavailable | NetworkRequired
  | TooLarge

text \<open>
  The error half of the C++ struct \<^verbatim>\<open>Status\<close> (a code and a static detail string); the
  success value is the \<open>Inr\<close> side of a result.
\<close>

datatype status = Error (status_code: StatusCode) (status_detail: string)

type_synonym 'a result = "status + 'a"

text \<open>The \<^verbatim>\<open>if (!status) return status;\<close> step between two fallible calls.\<close>

definition and_then :: "'e + 'a \<Rightarrow> ('a \<Rightarrow> 'e + 'b) \<Rightarrow> 'e + 'b" where
  "and_then r k = (case r of Inl e \<Rightarrow> Inl e | Inr x \<Rightarrow> k x)"

text \<open>An early return: \<open>fail_if b e\<close> is the error \<open>e\<close> when the condition \<open>b\<close> holds.\<close>

definition fail_if :: "bool \<Rightarrow> 'e \<Rightarrow> 'e + unit" where
  "fail_if b e = (if b then Inl e else Inr ())"

lemma and_then_simps [simp]:
  "and_then (Inl e) k = Inl e"
  "and_then (Inr x) k = k x"
  by (simp_all add: and_then_def)

lemma fail_if_simps [simp]:
  "fail_if True e = Inl e"
  "fail_if False e = Inr ()"
  by (simp_all add: fail_if_def)

lemma fail_if_Inr [simp]: "fail_if b e = Inr u \<longleftrightarrow> \<not> b"
  by (simp add: fail_if_def)

lemma fail_if_Inl [simp]: "fail_if b e = Inl f \<longleftrightarrow> b \<and> f = e"
  by (auto simp: fail_if_def)

lemma and_then_eq_Inr: "and_then r k = Inr y \<longleftrightarrow> (\<exists>x. r = Inr x \<and> k x = Inr y)"
  by (cases r) auto

lemma and_then_InrE [elim!]:
  assumes "and_then r k = Inr y"
  obtains x where "r = Inr x" "k x = Inr y"
  using assms by (auto simp: and_then_eq_Inr)

lemma and_then_eq_Inl:
  "and_then r k = Inl e \<longleftrightarrow> r = Inl e \<or> (\<exists>x. r = Inr x \<and> k x = Inl e)"
  by (cases r) auto

lemma and_then_assoc: "and_then (and_then r k) l = and_then r (\<lambda>x. and_then (k x) l)"
  by (cases r) auto

lemma and_then_cong [fundef_cong]:
  "r = r' \<Longrightarrow> (\<And>x. r' = Inr x \<Longrightarrow> k x = k' x) \<Longrightarrow> and_then r k = and_then r' k'"
  by (cases r') auto

text \<open>Case analysis of an early-return chain on success: one conjunct per guard.\<close>

lemma fail_if_chain [simp]:
  "and_then (fail_if b e) k = (if b then Inl e else k ())"
  by simp

definition is_ok :: "'e + 'a \<Rightarrow> bool" where
  "is_ok r = (case r of Inl _ \<Rightarrow> False | Inr _ \<Rightarrow> True)"

lemma is_ok_simps [simp]: "\<not> is_ok (Inl e)" "is_ok (Inr x)"
  by (simp_all add: is_ok_def)

subsection \<open>Lists\<close>

text \<open>
  Writing a block of bytes into a buffer at an offset: what a run of
  \<^verbatim>\<open>target[offset++] = byte\<close> assignments or a \<^verbatim>\<open>memcpy\<close> does.
\<close>

definition blit :: "nat \<Rightarrow> 'a list \<Rightarrow> 'a list \<Rightarrow> 'a list" where
  "blit off xs buf = take off buf @ xs @ drop (off + length xs) buf"

lemma length_blit [simp]:
  "off + length xs \<le> length buf \<Longrightarrow> length (blit off xs buf) = length buf"
  by (simp add: blit_def)

lemma blit_Nil [simp]: "off \<le> length buf \<Longrightarrow> blit off [] buf = buf"
  by (simp add: blit_def)

lemma blit_append:
  assumes "off + length xs + length ys \<le> length buf"
  shows "blit (off + length xs) ys (blit off xs buf) = blit off (xs @ ys) buf"
  using assms by (auto simp: blit_def ac_simps)

lemma take_blit:
  "off + length xs \<le> length buf \<Longrightarrow> take (off + length xs) (blit off xs buf) = take off buf @ xs"
  by (auto simp: blit_def)

lemma blit_single: "off < length buf \<Longrightarrow> blit off [x] buf = buf[off := x]"
  by (simp add: blit_def upd_conv_take_nth_drop)

subsection \<open>Casts between widths\<close>

lemma unat_ucast_up:
  assumes "LENGTH('a) \<le> LENGTH('b)"
  shows "unat (ucast (v :: 'a::len word) :: 'b::len word) = unat v"
proof -
  have "unat v < 2 ^ LENGTH('b)"
    using less_le_trans [OF unsigned_less power_increasing [OF assms, of 2], of v] by simp
  then show ?thesis
    by (simp add: unsigned_ucast_eq take_bit_nat_eq_self)
qed

lemma ucast_up_down:
  assumes "LENGTH('a) \<le> LENGTH('b)"
  shows "ucast (ucast (v :: 'a::len word) :: 'b::len word) = v"
  by (rule word_unat_eq_iff [THEN iffD2])
    (simp add: unsigned_ucast_eq take_bit_word_eq_self unsigned_take_bit_eq take_bit_nat_eq_self
      unsigned_less assms)

lemma ucast_down_up:
  assumes "LENGTH('b) \<le> LENGTH('a)" "unat v < 2 ^ LENGTH('b)"
  shows "ucast (ucast (v :: 'a::len word) :: 'b::len word) = v"
  by (rule word_unat_eq_iff [THEN iffD2])
    (simp add: unsigned_ucast_eq unsigned_take_bit_eq take_bit_nat_eq_self assms(2))

subsection \<open>Big-endian words\<close>

text \<open>
  \<open>put_be n v\<close> is the loop \<^verbatim>\<open>for (shift = 8*(n-1); shift >= 0; shift -= 8)\<close> that emits
  the low \<open>n\<close> bytes of \<open>v\<close>, most significant first; \<open>get_be\<close> is the reader's loop
  \<^verbatim>\<open>value = (value << 8) | byte\<close>.
\<close>

fun put_be :: "nat \<Rightarrow> 'a::len word \<Rightarrow> bytes" where
  "put_be 0 v = []"
| "put_be (Suc n) v = ucast (drop_bit (8 * n) v AND 0xFF) # put_be n v"

fun get_be :: "'a::len word \<Rightarrow> bytes \<Rightarrow> 'a word" where
  "get_be acc [] = acc"
| "get_be acc (b # bs) = get_be (push_bit 8 acc OR ucast b) bs"

lemma length_put_be [simp]: "length (put_be n v) = n"
  by (induction n) auto

lemma bit_255_iff: "bit (0xFF :: 'a::len word) n \<longleftrightarrow> n < LENGTH('a) \<and> n < 8"
proof -
  have "mask 8 = (0xFF :: 'a word)"
    by (simp add: mask_eq_exp_minus_1)
  then have "bit (0xFF :: 'a word) n = bit (mask 8 :: 'a word) n"
    by (simp only:)
  then show ?thesis
    by (simp only: bit_mask_iff) auto
qed

lemma get_be_put_be_acc:
  fixes v :: "'a::len word"
  shows "get_be acc (put_be n v) = push_bit (8 * n) acc OR take_bit (8 * n) v"
proof (induction n arbitrary: acc)
  case 0
  then show ?case by simp
next
  case (Suc n)
  have "push_bit (8 * n) (push_bit 8 acc OR ucast (ucast (drop_bit (8 * n) v AND 0xFF) :: u8))
          OR take_bit (8 * n) v = push_bit (8 * Suc n) acc OR take_bit (8 * Suc n) v"
  proof (rule bit_word_eqI)
    fix i
    assume "i < LENGTH('a)"
    then show "bit (push_bit (8 * n) (push_bit 8 acc OR
          ucast (ucast (drop_bit (8 * n) v AND 0xFF) :: u8)) OR take_bit (8 * n) v) i =
        bit (push_bit (8 * Suc n) acc OR take_bit (8 * Suc n) v) i"
      by (cases "i < 8 * n"; cases "i < 8 * n + 8")
        (auto simp only: bit_push_bit_iff bit_or_iff bit_and_iff bit_take_bit_iff
          bit_unsigned_iff bit_drop_bit_eq bit_255_iff o_def, auto simp: add.commute)
  qed
  then show ?case
    using Suc.IH by simp
qed

lemma get_be_put_be: "8 * n \<ge> LENGTH('a) \<Longrightarrow> get_be 0 (put_be n v) = (v :: 'a::len word)"
  by (simp add: get_be_put_be_acc take_bit_word_eq_self)

lemma get_be_put_be_bound:
  "v < 2 ^ (8 * n) \<Longrightarrow> 8 * n < LENGTH('a) \<Longrightarrow> get_be 0 (put_be n v) = (v :: 'a::len word)"
  by (simp add: get_be_put_be_acc less_mask_eq take_bit_eq_mask)

text \<open>
  The converse: emitting what was read reproduces the bytes, as long as they fit the word.
\<close>

lemma get_be_snoc: "get_be acc (bs @ [b]) = push_bit 8 (get_be acc bs) OR ucast b"
  by (induction bs arbitrary: acc) auto

lemma put_be_snoc: "put_be (Suc n) v = put_be n (drop_bit 8 v) @ [ucast (v AND 0xFF)]"
  by (induction n arbitrary: v) (simp_all add: drop_bit_drop_bit add.commute)

lemma ucast_and_255: "ucast ((v :: 'a::len word) AND 0xFF) = (ucast v :: u8)"
proof (rule bit_word_eqI)
  fix i
  assume "i < LENGTH(8)"
  then show "bit (ucast (v AND 0xFF) :: u8) i = bit (ucast v :: u8) i"
    by (auto simp only: bit_unsigned_iff bit_and_iff bit_255_iff) (auto dest: bit_imp_le_length)
qed

lemma put_be_low:
  "8 * n \<le> m \<Longrightarrow> put_be n (take_bit m v) = put_be n (v :: 'a::len word)"
proof (induction n)
  case (Suc n)
  have "ucast (drop_bit (8 * n) (take_bit m v)) = (ucast (drop_bit (8 * n) v) :: u8)"
    using Suc.prems
    by (intro bit_word_eqI) (auto simp: bit_unsigned_iff bit_drop_bit_eq bit_take_bit_iff)
  with Suc show ?case by (simp add: ucast_and_255)
qed simp

lemma put_be_get_be:
  "length bs = n \<Longrightarrow> 8 * n \<le> LENGTH('a) \<Longrightarrow> put_be n (get_be acc bs :: 'a::len word) = bs"
proof (induction bs arbitrary: n rule: rev_induct)
  case (snoc b bs)
  then obtain k where n: "n = Suc k" "length bs = k" "8 * k \<le> LENGTH('a) - 8" "8 \<le> LENGTH('a)"
    by (cases n) auto
  let ?v = "get_be acc bs :: 'a word"
  have "drop_bit 8 (push_bit 8 ?v OR ucast b) = take_bit (LENGTH('a) - 8) ?v"
    by (intro bit_word_eqI)
      (auto simp: bit_drop_bit_eq bit_or_iff bit_push_bit_iff bit_unsigned_iff bit_take_bit_iff
        dest: bit_imp_le_length)
  moreover have "ucast (push_bit 8 ?v OR ucast b) = b"
    using n(4)
    by (intro bit_word_eqI) (auto simp: bit_or_iff bit_push_bit_iff bit_unsigned_iff)
  ultimately show ?case
    using n snoc.IH [of k] by (simp add: put_be_snoc get_be_snoc ucast_and_255 put_be_low del: put_be.simps)
qed simp

lemma take_bit_self_less:
  assumes "take_bit k v = (v :: 'a::len word)" "k < LENGTH('a)"
  shows "v < 2 ^ k"
proof -
  have "unat (take_bit k v) < 2 ^ k"
    by (simp add: unsigned_take_bit_eq)
  moreover have "unat ((2 :: 'a word) ^ k) = 2 ^ k"
    using assms(2) unsigned_of_nat [where 'a = nat and 'b = 'a, of "2 ^ k"]
    by (simp add: take_bit_eq_mod power_strict_increasing)
  ultimately show ?thesis
    unfolding assms(1) word_less_nat_alt by simp
qed

lemma get_be_less:
  "8 * length bs < LENGTH('a) \<Longrightarrow> get_be 0 bs < (2 :: 'a::len word) ^ (8 * length bs)"
proof (induction bs rule: rev_induct)
  case (snoc b bs)
  then have "take_bit (8 * length bs) (get_be 0 bs) = (get_be 0 bs :: 'a word)"
    by (simp add: less_mask_eq take_bit_eq_mask)
  then have "bit (get_be 0 bs :: 'a word) i \<Longrightarrow> i < 8 * length bs" for i
    by (metis bit_take_bit_iff)
  then have "take_bit (8 * Suc (length bs)) (push_bit 8 (get_be 0 bs) OR ucast b)
      = (push_bit 8 (get_be 0 bs) OR ucast b :: 'a word)"
    by (intro bit_word_eqI)
      (fastforce simp: bit_take_bit_iff bit_or_iff bit_push_bit_iff bit_unsigned_iff
        dest: bit_imp_le_length)
  with snoc.prems show ?case
    by (intro take_bit_self_less) (simp_all add: get_be_snoc)
qed simp

text \<open>
  Fallible code that also changes a state (a security provider, a store): a failing step
  keeps the state it reached.
\<close>

type_synonym ('s, 'a) prog = "'s \<Rightarrow> 'a result \<times> 's"

definition ret :: "'a \<Rightarrow> ('s, 'a) prog" where
  "ret x s = (Inr x, s)"

definition stop :: "status \<Rightarrow> ('s, 'a) prog" where
  "stop e s = (Inl e, s)"

definition seq :: "('s, 'a) prog \<Rightarrow> ('a \<Rightarrow> ('s, 'b) prog) \<Rightarrow> ('s, 'b) prog" where
  "seq m k s = (case m s of (Inl e, s') \<Rightarrow> (Inl e, s') | (Inr x, s') \<Rightarrow> k x s')"

definition lift :: "'a result \<Rightarrow> ('s, 'a) prog" where
  "lift r s = (r, s)"

definition stop_if :: "bool \<Rightarrow> status \<Rightarrow> ('s, 'a) prog \<Rightarrow> ('s, 'a) prog" where
  "stop_if b e k = (if b then stop e else k)"

lemma prog_simps [simp]:
  "ret x s = (Inr x, s)"
  "stop e s = (Inl e, s)"
  "lift r s = (r, s)"
  "stop_if b e k s = (if b then (Inl e, s) else k s)"
  by (simp_all add: ret_def stop_def lift_def stop_if_def)

lemma seq_Inr: "seq m k s = (Inr y, s'') \<longleftrightarrow> (\<exists>x s'. m s = (Inr x, s') \<and> k x s' = (Inr y, s''))"
  by (auto simp: seq_def split: prod.splits sum.splits)

lemma seq_InrE [elim!]:
  assumes "seq m k s = (Inr y, s'')"
  obtains x s' where "m s = (Inr x, s')" "k x s' = (Inr y, s'')"
  using assms by (auto simp: seq_Inr)

lemma seq_step: "m s = (Inr x, s') \<Longrightarrow> seq m k s = k x s'"
  by (simp add: seq_def)

lemma seq_lift [simp]:
  "seq (lift (Inr x)) k s = k x s"
  "seq (lift (Inl e)) k s = (Inl e, s)"
  by (simp_all add: seq_def)

lemma stop_if_Inr: "stop_if b e k s = (Inr y, s') \<longleftrightarrow> \<not> b \<and> k s = (Inr y, s')"
  by simp

subsection \<open>Sequences of calls\<close>

text \<open>The outputs of a sequence of calls, and the simulation argument for two implementations.\<close>

fun run_ops :: "('op \<Rightarrow> 's \<Rightarrow> 'o \<times> 's) \<Rightarrow> 'op list \<Rightarrow> 's \<Rightarrow> 'o list" where
  "run_ops step [] s = []"
| "run_ops step (c # cs) s = (let (r, s') = step c s in r # run_ops step cs s')"

lemma run_ops_simulation:
  assumes "\<And>c s t. R s t \<Longrightarrow> fst (f c s) = fst (g c t) \<and> R (snd (f c s)) (snd (g c t))"
  shows "R s t \<Longrightarrow> run_ops f cs s = run_ops g cs t"
  by (induction cs arbitrary: s t) (use assms in \<open>auto simp: split_def Let_def\<close>)

end
