(* ===== verification/Fixed_Containers.thy ===== *)
theory Fixed_Containers
  imports RL_Prelude
begin

text \<open>
  The ring buffer \<^verbatim>\<open>FixedQueue\<close> of \<^verbatim>\<open>include/routeloom/fixed_containers.hpp\<close>: the state of the
  class and one definition per member function, the locale \<open>bounded_fifo\<close> that states what
  clients of a queue rely on, and its interpretation \<open>fq\<close> on the ring buffer. Inside the
  locale every sequence of calls is shown to behave like a bounded list.
\<close>

subsection \<open>FixedQueue: state and operations\<close>

record 'a FixedQueue =
  q_items :: "'a list"
  q_head :: nat
  q_tail :: nat
  q_size :: nat

definition FixedQueue_new :: "'a \<Rightarrow> nat \<Rightarrow> 'a FixedQueue" where
  "FixedQueue_new d capacity =
     \<lparr>q_items = replicate capacity d, q_head = 0, q_tail = 0, q_size = 0\<rparr>"

definition FixedQueue_capacity :: "'a FixedQueue \<Rightarrow> nat" where
  "FixedQueue_capacity q = length (q_items q)"

definition FixedQueue_push :: "'a \<Rightarrow> 'a FixedQueue \<Rightarrow> bool \<times> 'a FixedQueue" where
  "FixedQueue_push v q =
     (if q_size q = FixedQueue_capacity q then (False, q)
      else (True, q\<lparr>q_items := (q_items q)[q_tail q := v],
                     q_tail := (q_tail q + 1) mod FixedQueue_capacity q,
                     q_size := q_size q + 1\<rparr>))"

definition FixedQueue_drop :: "'a FixedQueue \<Rightarrow> bool \<times> 'a FixedQueue" where
  "FixedQueue_drop q =
     (if q_size q = 0 then (False, q)
      else (True, q\<lparr>q_head := (q_head q + 1) mod FixedQueue_capacity q,
                     q_size := q_size q - 1\<rparr>))"

definition FixedQueue_pop :: "'a FixedQueue \<Rightarrow> 'a option \<times> 'a FixedQueue" where
  "FixedQueue_pop q =
     (if q_size q = 0 then (None, q)
      else (Some (q_items q ! q_head q),
            q\<lparr>q_head := (q_head q + 1) mod FixedQueue_capacity q, q_size := q_size q - 1\<rparr>))"

definition FixedQueue_front :: "'a FixedQueue \<Rightarrow> 'a option" where
  "FixedQueue_front q = (if q_size q = 0 then None else Some (q_items q ! q_head q))"

definition FixedQueue_full :: "'a FixedQueue \<Rightarrow> bool" where
  "FixedQueue_full q = (q_size q = FixedQueue_capacity q)"

definition FixedQueue_clear :: "'a FixedQueue \<Rightarrow> 'a FixedQueue" where
  "FixedQueue_clear q = q\<lparr>q_head := 0, q_tail := 0, q_size := 0\<rparr>"

text \<open>The representation invariant and the queue's contents, oldest first.\<close>

definition queue_inv :: "'a FixedQueue \<Rightarrow> bool" where
  "queue_inv q \<longleftrightarrow> 0 < FixedQueue_capacity q \<and> q_head q < FixedQueue_capacity q \<and>
     q_size q \<le> FixedQueue_capacity q \<and> q_tail q = (q_head q + q_size q) mod FixedQueue_capacity q"

definition queue_list :: "'a FixedQueue \<Rightarrow> 'a list" where
  "queue_list q =
     map (\<lambda>i. q_items q ! ((q_head q + i) mod FixedQueue_capacity q)) [0..<q_size q]"

subsection \<open>The interface of a bounded first-in first-out queue\<close>

datatype 'a fifo_op = Fifo_push 'a | Fifo_pop

text \<open>One call on a queue given by its two operations, and the bounded list to compare with.\<close>

fun fifo_call ::
  "('a \<Rightarrow> 'q \<Rightarrow> bool \<times> 'q) \<Rightarrow> ('q \<Rightarrow> 'a option \<times> 'q) \<Rightarrow> 'a fifo_op \<Rightarrow> 'q \<Rightarrow> (bool + 'a option) \<times> 'q" where
  "fifo_call push pop (Fifo_push x) q = (let (ok, q') = push x q in (Inl ok, q'))"
| "fifo_call push pop Fifo_pop q = (let (r, q') = pop q in (Inr r, q'))"

definition list_push :: "nat \<Rightarrow> 'a \<Rightarrow> 'a list \<Rightarrow> bool \<times> 'a list" where
  "list_push n x xs = (if length xs = n then (False, xs) else (True, xs @ [x]))"

fun list_pop :: "'a list \<Rightarrow> 'a option \<times> 'a list" where
  "list_pop [] = (None, [])"
| "list_pop (x # xs) = (Some x, xs)"

locale bounded_fifo =
  fixes push :: "'a \<Rightarrow> 'q \<Rightarrow> bool \<times> 'q"
    and pop :: "'q \<Rightarrow> 'a option \<times> 'q"
    and cap :: "'q \<Rightarrow> nat"
    and contents :: "'q \<Rightarrow> 'a list"
    and inv :: "'q \<Rightarrow> bool"
  assumes push_full: "inv q \<Longrightarrow> length (contents q) = cap q \<Longrightarrow> push x q = (False, q)"
    and push_room: "inv q \<Longrightarrow> length (contents q) \<noteq> cap q \<Longrightarrow>
        fst (push x q) \<and> contents (snd (push x q)) = contents q @ [x]"
    and push_inv: "inv q \<Longrightarrow> inv (snd (push x q)) \<and> cap (snd (push x q)) = cap q"
    and pop_empty: "inv q \<Longrightarrow> contents q = [] \<Longrightarrow> pop q = (None, q)"
    and pop_head: "inv q \<Longrightarrow> contents q = x # xs \<Longrightarrow>
        fst (pop q) = Some x \<and> contents (snd (pop q)) = xs"
    and pop_inv: "inv q \<Longrightarrow> inv (snd (pop q)) \<and> cap (snd (pop q)) = cap q"
    and bounded: "inv q \<Longrightarrow> length (contents q) \<le> cap q"
begin

lemma fifo_simulates:
  assumes "inv q" "contents q = xs" "cap q = n"
  shows "run_ops (fifo_call push pop) ops q = run_ops (fifo_call (list_push n) list_pop) ops xs"
proof (rule run_ops_simulation [where R = "\<lambda>q xs. inv q \<and> contents q = xs \<and> cap q = n"])
  fix c q and xs :: "'a list"
  assume R: "inv q \<and> contents q = xs \<and> cap q = n"
  show "fst (fifo_call push pop c q) = fst (fifo_call (list_push n) list_pop c xs) \<and>
    inv (snd (fifo_call push pop c q)) \<and>
    contents (snd (fifo_call push pop c q)) = snd (fifo_call (list_push n) list_pop c xs) \<and>
    cap (snd (fifo_call push pop c q)) = n"
  proof (cases c)
    case (Fifo_push x)
    with R push_full [of q x] push_room [of q x] push_inv [of q x] show ?thesis
      by (cases "length (contents q) = cap q") (auto simp: list_push_def split_def)
  next
    case Fifo_pop
    show ?thesis
    proof (cases xs)
      case Nil
      with R Fifo_pop pop_empty [of q] show ?thesis by simp
    next
      case (Cons x ys)
      with R Fifo_pop pop_head [of q x ys] pop_inv [of q] show ?thesis by (simp add: split_def Let_def)
    qed
  qed
qed (use assms in auto)

end

lemma queue_list_Cons:
  assumes "queue_inv q" and "q_size q \<noteq> 0"
  shows "queue_list q = q_items q ! q_head q # queue_list (snd (FixedQueue_drop q))"
proof -
  obtain n where n: "q_size q = Suc n" using assms(2) by (cases "q_size q") auto
  let ?c = "FixedQueue_capacity q"
  have "queue_list q = q_items q ! ((q_head q + 0) mod ?c) #
      map (\<lambda>i. q_items q ! ((q_head q + i) mod ?c)) (map Suc [0..<n])"
    by (simp add: queue_list_def n map_Suc_upt upt_conv_Cons del: upt_Suc)
  moreover have "(q_head q + 0) mod ?c = q_head q"
    using assms(1) by (simp add: queue_inv_def)
  moreover have "(q_head q + Suc i) mod ?c = ((q_head q + 1) mod ?c + i) mod ?c" for i
    by (simp add: mod_simps)
  ultimately show ?thesis
    by (simp add: queue_list_def FixedQueue_drop_def n FixedQueue_capacity_def comp_def)
qed

lemma queue_list_push:
  assumes inv: "queue_inv q" and room: "q_size q < FixedQueue_capacity q"
  shows "queue_list (snd (FixedQueue_push v q)) = queue_list q @ [v]"
proof -
  let ?c = "FixedQueue_capacity q"
  have "(q_head q + q_size q) mod ?c \<noteq> (q_head q + i) mod ?c" if "i < q_size q" for i
    using that room by (auto simp: mod_eq_iff_dvd_symdiff_nat dest: dvd_imp_le)
  then show ?thesis
    using inv room
    by (auto simp: queue_list_def FixedQueue_push_def queue_inv_def FixedQueue_capacity_def
        nth_list_update)
qed

lemma queue_inv_push [intro]: "queue_inv q \<Longrightarrow> queue_inv (snd (FixedQueue_push v q))"
  by (auto simp: queue_inv_def FixedQueue_push_def FixedQueue_capacity_def mod_simps)

lemma queue_inv_drop [intro]: "queue_inv q \<Longrightarrow> queue_inv (snd (FixedQueue_drop q))"
  by (cases "q_size q")
    (auto simp: queue_inv_def FixedQueue_drop_def FixedQueue_capacity_def mod_simps)

lemma snd_pop_eq_drop: "snd (FixedQueue_pop q) = snd (FixedQueue_drop q)"
  by (simp add: FixedQueue_pop_def FixedQueue_drop_def)

lemma capacity_push [simp]:
  "FixedQueue_capacity (snd (FixedQueue_push v q)) = FixedQueue_capacity q"
  by (simp add: FixedQueue_push_def FixedQueue_capacity_def)

lemma capacity_drop [simp]:
  "FixedQueue_capacity (snd (FixedQueue_drop q)) = FixedQueue_capacity q"
  by (simp add: FixedQueue_drop_def FixedQueue_capacity_def)

lemma length_queue_list [simp]: "length (queue_list q) = q_size q"
  by (simp add: queue_list_def)

interpretation fq: bounded_fifo FixedQueue_push FixedQueue_pop FixedQueue_capacity queue_list queue_inv
proof (unfold_locales, goal_cases)
  case (1 q x)
  then show ?case by (simp add: FixedQueue_push_def)
next
  case (2 q x)
  then show ?case
    using queue_list_push [of q x] by (simp add: FixedQueue_push_def queue_inv_def)
next
  case (3 q x)
  then show ?case by auto
next
  case (4 q)
  then have "q_size q = 0" using length_queue_list [of q] by simp
  then show ?case by (simp add: FixedQueue_pop_def)
next
  case (5 q x xs)
  then have "q_size q \<noteq> 0" using length_queue_list [of q] by auto
  with 5 queue_list_Cons [of q] show ?case
    by (simp add: snd_pop_eq_drop) (simp add: FixedQueue_pop_def)
next
  case (6 q)
  then show ?case by (auto simp: snd_pop_eq_drop)
next
  case (7 q)
  then show ?case by (simp add: queue_inv_def)
qed

lemma queue_inv_new [simp]: "0 < n \<Longrightarrow> queue_inv (FixedQueue_new d n)"
  by (simp add: queue_inv_def FixedQueue_new_def FixedQueue_capacity_def)

lemma queue_list_new [simp]: "queue_list (FixedQueue_new d n) = []"
  by (simp add: queue_list_def FixedQueue_new_def)

subsection \<open>Properties\<close>

text \<open>C17: The ring buffer is a bounded FIFO. Every sequence of pushes and pops on a fresh queue of
  capacity n returns what the same calls return on a plain list bounded at n elements:
  a push is refused exactly when n elements are queued, and pops see push order.\<close>

theorem ring_buffer_is_fifo:
  assumes "0 < n"
  shows "run_ops (fifo_call FixedQueue_push FixedQueue_pop) ops (FixedQueue_new d n) =
    run_ops (fifo_call (list_push n) list_pop) ops []"
  using assms by (intro fq.fifo_simulates) (simp_all, simp add: FixedQueue_new_def FixedQueue_capacity_def)

theorem ring_buffer_is_fifo_witness:
  "run_ops (fifo_call FixedQueue_push FixedQueue_pop)
     [Fifo_push 5, Fifo_push 6, Fifo_push 7, Fifo_pop, Fifo_push 8, Fifo_pop, Fifo_pop, Fifo_pop]
     (FixedQueue_new (0 :: nat) 2) =
   [Inl True, Inl True, Inl False, Inr (Some 5), Inl True, Inr (Some 6), Inr (Some 8), Inr None]"
  using ring_buffer_is_fifo [of 2 "[Fifo_push 5, Fifo_push 6, Fifo_push 7, Fifo_pop, Fifo_push 8,
      Fifo_pop, Fifo_pop, Fifo_pop]" "0 :: nat"]
  by (simp add: list_push_def)

end
