(* ===== verification/Fixed_Pool.thy ===== *)
theory Fixed_Pool
  imports RL_Prelude
begin

text \<open>
  The slot pool \<^verbatim>\<open>FixedPool\<close> of \<^verbatim>\<open>include/routeloom/fixed_containers.hpp\<close>: two parallel
  arrays \<^verbatim>\<open>items_\<close> and \<^verbatim>\<open>used_\<close>, scanned by index. A pointer to a pool element is the index
  of its slot and \<^verbatim>\<open>nullptr\<close> is \<open>None\<close>; the value \<^verbatim>\<open>T()\<close> a slot is reset to is the
  argument \<open>d\<close> of the operations that reset slots.

  The locale \<open>slot_pool\<close> is the interface its clients (the route table, the busy links, the
  counter checkpoint cache) rely on; inside it, a pool whose elements carry a key is shown
  to behave as a bounded finite map. The interpretation \<open>fp\<close> discharges the interface for
  the concrete pool.
\<close>

subsection \<open>State and operations\<close>

record 'a FixedPool =
  p_items :: "'a list"
  p_used :: "bool list"

definition FixedPool_new :: "'a \<Rightarrow> nat \<Rightarrow> 'a FixedPool" where
  "FixedPool_new d capacity =
     \<lparr>p_items = replicate capacity d, p_used = replicate capacity False\<rparr>"

definition FixedPool_capacity :: "'a FixedPool \<Rightarrow> nat" where
  "FixedPool_capacity p = length (p_items p)"

definition FixedPool_find :: "('a \<Rightarrow> bool) \<Rightarrow> 'a FixedPool \<Rightarrow> nat option" where
  "FixedPool_find P p =
     List.find (\<lambda>i. p_used p ! i \<and> P (p_items p ! i)) [0..<FixedPool_capacity p]"

definition FixedPool_at :: "nat \<Rightarrow> 'a FixedPool \<Rightarrow> 'a option" where
  "FixedPool_at i p =
     (if FixedPool_capacity p \<le> i \<or> \<not> p_used p ! i then None else Some (p_items p ! i))"

definition FixedPool_reset :: "'a \<Rightarrow> nat \<Rightarrow> 'a FixedPool \<Rightarrow> 'a FixedPool" where
  "FixedPool_reset d i p = p\<lparr>p_items := (p_items p)[i := d]\<rparr>"

definition FixedPool_allocate :: "'a \<Rightarrow> 'a FixedPool \<Rightarrow> nat option \<times> 'a FixedPool" where
  "FixedPool_allocate d p =
     (case List.find (\<lambda>i. \<not> p_used p ! i) [0..<FixedPool_capacity p] of
        None \<Rightarrow> (None, p)
      | Some i \<Rightarrow> (Some i, (FixedPool_reset d i p)\<lparr>p_used := (p_used p)[i := True]\<rparr>))"

text \<open>Releasing slot \<open>i\<close>: \<^verbatim>\<open>used_[i] = false; reset(items_[i]);\<close>\<close>

definition FixedPool_free_slot :: "'a \<Rightarrow> nat \<Rightarrow> 'a FixedPool \<Rightarrow> 'a FixedPool" where
  "FixedPool_free_slot d i p = FixedPool_reset d i (p\<lparr>p_used := (p_used p)[i := False]\<rparr>)"

definition FixedPool_release :: "'a \<Rightarrow> nat option \<Rightarrow> 'a FixedPool \<Rightarrow> bool \<times> 'a FixedPool" where
  "FixedPool_release d item p =
     (case item of
        None \<Rightarrow> (False, p)
      | Some i \<Rightarrow>
          if FixedPool_capacity p \<le> i then (False, p)
          else if \<not> p_used p ! i then (False, p)
          else (True, FixedPool_free_slot d i p))"

definition FixedPool_erase_if :: "'a \<Rightarrow> ('a \<Rightarrow> bool) \<Rightarrow> 'a FixedPool \<Rightarrow> nat \<times> 'a FixedPool" where
  "FixedPool_erase_if d P p =
     fold (\<lambda>i (erased, q).
         if \<not> p_used q ! i \<or> \<not> P (p_items q ! i) then (erased, q)
         else (erased + 1, FixedPool_free_slot d i q))
       [0..<FixedPool_capacity p] (0, p)"

text \<open>
  \<^verbatim>\<open>for_each\<close> with a callback that updates the visited element and threads a state.
\<close>

definition FixedPool_for_each ::
  "('a \<Rightarrow> 's \<Rightarrow> 'a \<times> 's) \<Rightarrow> 'a FixedPool \<Rightarrow> 's \<Rightarrow> 'a FixedPool \<times> 's" where
  "FixedPool_for_each fn p s =
     fold (\<lambda>i (q, s).
         if p_used q ! i
         then (let (x, s') = fn (p_items q ! i) s
               in (q\<lparr>p_items := (p_items q)[i := x]\<rparr>, s'))
         else (q, s))
       [0..<FixedPool_capacity p] (p, s)"

definition FixedPool_size :: "'a FixedPool \<Rightarrow> nat" where
  "FixedPool_size p = fold (\<lambda>v count. count + (if v then 1 else 0)) (p_used p) 0"

definition FixedPool_clear :: "'a \<Rightarrow> 'a FixedPool \<Rightarrow> 'a FixedPool" where
  "FixedPool_clear d p =
     fold (\<lambda>i q. if p_used q ! i then FixedPool_free_slot d i q else q)
       [0..<FixedPool_capacity p] p"

text \<open>Assignment through a pointer to a live element.\<close>

definition FixedPool_store :: "nat \<Rightarrow> 'a \<Rightarrow> 'a FixedPool \<Rightarrow> 'a FixedPool" where
  "FixedPool_store i x p = p\<lparr>p_items := (p_items p)[i := x]\<rparr>"

definition pool_inv :: "'a FixedPool \<Rightarrow> bool" where
  "pool_inv p \<longleftrightarrow> length (p_used p) = length (p_items p)"

text \<open>The live elements in slot order: what a read-only \<^verbatim>\<open>for_each\<close> visits.\<close>

definition FixedPool_live :: "'a FixedPool \<Rightarrow> 'a list" where
  "FixedPool_live p = List.map_filter (\<lambda>i. FixedPool_at i p) [0..<FixedPool_capacity p]"

subsection \<open>The interface of a slot pool\<close>

definition keyed :: "('a \<Rightarrow> 'k) \<Rightarrow> (nat \<Rightarrow> 'a option) \<Rightarrow> bool" where
  "keyed key s \<longleftrightarrow> (\<forall>i j x y. s i = Some x \<longrightarrow> s j = Some y \<longrightarrow> key x = key y \<longrightarrow> i = j)"

lemma keyedD: "keyed key s \<Longrightarrow> s i = Some x \<Longrightarrow> s j = Some y \<Longrightarrow> key x = key y \<Longrightarrow> i = j"
  unfolding keyed_def by blast

lemma keyed_fresh:
  assumes "keyed key s" "s i = None" "\<And>j x. s j = Some x \<Longrightarrow> key x \<noteq> key y"
  shows "keyed key (s(i := Some y))"
  unfolding keyed_def
proof (intro allI impI)
  fix j k x z
  assume "(s(i := Some y)) j = Some x" "(s(i := Some y)) k = Some z" "key x = key z"
  then show "j = k"
    using assms(3) [of j x] assms(3) [of k z] keyedD [OF assms(1), of j x k z]
    by (auto split: if_splits)
qed

lemma keyed_same:
  assumes "keyed key s" "s i = Some w" "key y = key w"
  shows "keyed key (s(i := Some y))"
  unfolding keyed_def
proof (intro allI impI)
  have old: "\<exists>u. s l = Some u \<and> key u = key v" if "(s(i := Some y)) l = Some v" for l v
    using that assms(2,3) by (cases "l = i") auto
  fix j k x z
  assume "(s(i := Some y)) j = Some x" "(s(i := Some y)) k = Some z" "key x = key z"
  with old [of j x] old [of k z] obtain u v where "s j = Some u" "s k = Some v" "key u = key v"
    by metis
  then show "j = k" by (rule keyedD [OF assms(1)])
qed

lemma keyed_del:
  assumes "keyed key s"
  shows "keyed key (s(i := None))"
  unfolding keyed_def
proof (intro allI impI)
  fix j k x z
  assume "(s(i := None)) j = Some x" "(s(i := None)) k = Some z" "key x = key z"
  then show "j = k"
    using keyedD [OF assms, of j x k z] by (auto split: if_splits)
qed

lemma keyed_ran_eq:
  assumes "keyed key s" "x \<in> ran s" "z \<in> ran s" "key x = key z"
  shows "x = z"
proof -
  from assms(2,3) obtain i j where "s i = Some x" "s j = Some z" by (auto simp: ran_def)
  with keyedD [OF assms(1) this assms(4)] show ?thesis by simp
qed

lemma ran_del_keyed:
  assumes "keyed key s" "s i = Some w"
  shows "ran (s(i := None)) = ran s - {w}"
proof (rule set_eqI)
  fix x
  have "j = i" if "s j = Some w" for j
    using keyedD [OF assms(1) that assms(2)] by simp
  then have "(\<exists>j. j \<noteq> i \<and> s j = Some x) \<longleftrightarrow> (\<exists>j. s j = Some x) \<and> x \<noteq> w"
    using assms(2) by (metis option.inject)
  then show "x \<in> ran (s(i := None)) \<longleftrightarrow> x \<in> ran s - {w}"
    by (simp add: ran_def conj_commute cong: conj_cong)
qed

lemma ran_upd_keyed:
  assumes "keyed key s" "s i = Some w"
  shows "ran (s(i := Some y)) = insert y (ran s - {w})"
  using ran_del_keyed [OF assms] ran_map_upd [of "s(i := None)" i y] by simp

lemma option_eqI: "(\<And>x. a = Some x \<longleftrightarrow> b = Some x) \<Longrightarrow> a = b"
  by (metis option.exhaust)

locale slot_pool =
  fixes cap :: "'p \<Rightarrow> nat"
    and slot :: "'p \<Rightarrow> nat \<Rightarrow> 'a option"
    and find :: "('a \<Rightarrow> bool) \<Rightarrow> 'p \<Rightarrow> nat option"
    and alloc :: "'a \<Rightarrow> 'p \<Rightarrow> nat option \<times> 'p"
    and release :: "'a \<Rightarrow> nat option \<Rightarrow> 'p \<Rightarrow> bool \<times> 'p"
    and store :: "nat \<Rightarrow> 'a \<Rightarrow> 'p \<Rightarrow> 'p"
    and inv :: "'p \<Rightarrow> bool"
  assumes slot_range: "slot p i = Some x \<Longrightarrow> i < cap p"
    and find_Some: "find P p = Some i \<Longrightarrow> \<exists>x. slot p i = Some x \<and> P x"
    and find_None: "find P p = None \<Longrightarrow> slot p i = Some x \<Longrightarrow> \<not> P x"
    and alloc_Some: "inv p \<Longrightarrow> alloc d p = (Some i, p') \<Longrightarrow>
        slot p i = None \<and> slot p' = (slot p)(i := Some d) \<and> cap p' = cap p \<and> inv p'"
    and alloc_None: "alloc d p = (None, p') \<Longrightarrow>
        p' = p \<and> (\<forall>i < cap p. slot p i \<noteq> None)"
    and release_Some: "inv p \<Longrightarrow> slot p i = Some x \<Longrightarrow> release d (Some i) p = (b, p') \<Longrightarrow>
        b \<and> slot p' = (slot p)(i := None) \<and> cap p' = cap p \<and> inv p'"
    and release_None: "release d None p = (False, p)"
    and store_slot: "inv p \<Longrightarrow> slot p i = Some x \<Longrightarrow>
        slot (store i y p) = (slot p)(i := Some y) \<and> cap (store i y p) = cap p \<and> inv (store i y p)"
begin

text \<open>A keyed pool read as a finite map from keys to elements.\<close>

definition lookup :: "('a \<Rightarrow> 'k) \<Rightarrow> 'p \<Rightarrow> 'k \<Rightarrow> 'a option" where
  "lookup key p k = Option.bind (find (\<lambda>x. key x = k) p) (slot p)"

lemma lookup_Some_iff:
  assumes "keyed key (slot p)"
  shows "lookup key p k = Some x \<longleftrightarrow> key x = k \<and> x \<in> ran (slot p)"
proof (cases "find (\<lambda>x. key x = k) p")
  case None
  then show ?thesis using find_None [OF None] by (auto simp: lookup_def ran_def)
next
  case (Some i)
  then obtain y where y: "slot p i = Some y" "key y = k" using find_Some [OF Some] by auto
  with Some have "lookup key p k = Some y" by (simp add: lookup_def)
  then show ?thesis using y keyed_ran_eq [OF assms] by (auto simp: ranI)
qed

lemma lookup_None_iff: "lookup key p k = None \<longleftrightarrow> find (\<lambda>x. key x = k) p = None"
  using find_Some [of "\<lambda>x. key x = k" p]
  by (cases "find (\<lambda>x. key x = k) p") (auto simp: lookup_def)

lemma lookup_unique:
  assumes "keyed key (slot p)" "slot p i = Some x"
  shows "find (\<lambda>y. key y = key x) p = Some i"
proof (cases "find (\<lambda>y. key y = key x) p")
  case None
  then show ?thesis using find_None [OF None assms(2)] by simp
next
  case (Some j)
  then show ?thesis using find_Some [OF Some] keyedD [OF assms(1) _ assms(2)] by auto
qed

text \<open>Adding an element whose key is absent keeps keys unique and extends the map by it.\<close>

lemma keyed_add:
  assumes "inv p" "keyed key (slot p)" "find (\<lambda>x. key x = key y) p = None"
    and "alloc d p = (Some i, q)"
  shows "keyed key (slot (store i y q))"
proof -
  from alloc_Some [OF assms(1,4)] have i: "slot p i = None" "slot q = (slot p)(i := Some d)" "inv q"
    by auto
  then have s: "slot (store i y q) = (slot p)(i := Some y)"
    using store_slot [of q i d y] by simp
  show ?thesis
    unfolding s by (rule keyed_fresh [OF assms(2) i(1)]) (use find_None [OF assms(3)] in simp)
qed

lemma lookup_add:
  assumes "inv p" "keyed key (slot p)" "find (\<lambda>x. key x = key y) p = None"
    and "alloc d p = (Some i, q)"
  shows "lookup key (store i y q) = (lookup key p)(key y := Some y)"
proof (intro ext option_eqI)
  fix k x
  from alloc_Some [OF assms(1,4)] have i: "slot p i = None" "slot q = (slot p)(i := Some d)" "inv q"
    by auto
  then have "ran (slot (store i y q)) = insert y (ran (slot p))"
    using store_slot [of q i d y] by (simp add: ran_map_upd)
  moreover have "key z \<noteq> key y" if "z \<in> ran (slot p)" for z
    using that find_None [OF assms(3)] by (auto simp: ran_def)
  ultimately show "lookup key (store i y q) k = Some x \<longleftrightarrow>
      ((lookup key p)(key y := Some y)) k = Some x"
    by (auto simp: lookup_Some_iff [OF keyed_add [OF assms]] lookup_Some_iff [OF assms(2)])
qed

text \<open>Updating an element in place without changing its key.\<close>

lemma keyed_store:
  assumes "inv p" "keyed key (slot p)" "slot p i = Some x" "key y = key x"
  shows "keyed key (slot (store i y p))"
  using keyed_same [OF assms(2-4)] store_slot [OF assms(1,3)] by simp

lemma lookup_store:
  assumes "inv p" "keyed key (slot p)" "slot p i = Some x" "key y = key x"
  shows "lookup key (store i y p) = (lookup key p)(key x := Some y)"
proof (intro ext option_eqI)
  fix k z
  have "ran (slot (store i y p)) = insert y (ran (slot p) - {x})"
    using store_slot [OF assms(1,3)] ran_upd_keyed [OF assms(2,3)] by simp
  then show "lookup key (store i y p) k = Some z \<longleftrightarrow>
      ((lookup key p)(key x := Some y)) k = Some z"
    using assms(4) keyed_ran_eq [OF assms(2) ranI [of "slot p", OF assms(3)], of z]
    by (auto simp: lookup_Some_iff [OF keyed_store [OF assms]] lookup_Some_iff [OF assms(2)])
qed

text \<open>Releasing the slot an element occupies removes its key from the map.\<close>

lemma keyed_release:
  assumes "inv p" "keyed key (slot p)" "slot p i = Some x" "release d (Some i) p = (b, q)"
  shows "keyed key (slot q)"
  using keyed_del [OF assms(2)] release_Some [OF assms(1,3,4)] by simp

lemma lookup_release:
  assumes "inv p" "keyed key (slot p)" "slot p i = Some x" "release d (Some i) p = (b, q)"
  shows "lookup key q = (lookup key p)(key x := None)"
proof (intro ext option_eqI)
  fix k z
  have "ran (slot q) = ran (slot p) - {x}"
    using release_Some [OF assms(1,3,4)] ran_del_keyed [OF assms(2,3)] by simp
  moreover have "z = x" if "z \<in> ran (slot p)" "key z = key x"
    using keyed_ran_eq [OF assms(2) that(1) ranI [of "slot p", OF assms(3)] that(2)] .
  ultimately show "lookup key q k = Some z \<longleftrightarrow> ((lookup key p)(key x := None)) k = Some z"
    unfolding lookup_Some_iff [OF keyed_release [OF assms]] fun_upd_apply
    by (cases "k = key x") (auto simp: lookup_Some_iff [OF assms(2)])
qed

end

subsection \<open>FixedPool implements the interface\<close>

lemma FixedPool_at_Some [simp]:
  "FixedPool_at i p = Some x \<longleftrightarrow> i < FixedPool_capacity p \<and> p_used p ! i \<and> p_items p ! i = x"
  by (auto simp: FixedPool_at_def)

lemma FixedPool_at_None:
  "FixedPool_at i p = None \<longleftrightarrow> FixedPool_capacity p \<le> i \<or> \<not> p_used p ! i"
  by (simp add: FixedPool_at_def)

lemma FixedPool_at_beyond: "\<not> i < FixedPool_capacity p \<Longrightarrow> FixedPool_at i p = None"
  by (simp add: FixedPool_at_def)

lemma slot_free:
  "pool_inv p \<Longrightarrow> FixedPool_at j (FixedPool_free_slot d i p) = (if j = i then None else FixedPool_at j p)"
  by (auto simp: FixedPool_free_slot_def FixedPool_reset_def FixedPool_at_def FixedPool_capacity_def
      pool_inv_def nth_list_update)

lemma cap_free [simp]: "FixedPool_capacity (FixedPool_free_slot d i p) = FixedPool_capacity p"
  by (simp add: FixedPool_free_slot_def FixedPool_reset_def FixedPool_capacity_def)

lemma inv_free [intro]: "pool_inv p \<Longrightarrow> pool_inv (FixedPool_free_slot d i p)"
  by (simp add: FixedPool_free_slot_def FixedPool_reset_def pool_inv_def)

lemma find_upt_Some: "List.find P [0..<n] = Some i \<Longrightarrow> i < n \<and> P i"
  by (auto simp: find_Some_iff)

lemma find_upt_None: "List.find P [0..<n] = None \<Longrightarrow> i < n \<Longrightarrow> \<not> P i"
  by (auto simp: find_None_iff)

interpretation fp: slot_pool FixedPool_capacity "\<lambda>p i. FixedPool_at i p" FixedPool_find
  FixedPool_allocate FixedPool_release FixedPool_store pool_inv
proof (unfold_locales, goal_cases)
  case (1 p i x)
  then show ?case by simp
next
  case (2 P p i)
  then show ?case by (auto simp: FixedPool_find_def dest: find_upt_Some)
next
  case (3 P p i x)
  then show ?case by (auto simp: FixedPool_find_def dest!: find_upt_None)
next
  case (4 p d i p')
  then show ?case
    by (auto simp: FixedPool_allocate_def FixedPool_reset_def FixedPool_capacity_def pool_inv_def
        FixedPool_at_def nth_list_update fun_eq_iff split: option.splits if_splits
        dest!: find_upt_Some)
next
  case (5 d p p')
  then show ?case
    by (auto simp: FixedPool_allocate_def FixedPool_at_def split: option.splits dest: find_upt_None)
next
  case (6 p i x d b p')
  then show ?case
    by (auto simp: FixedPool_release_def slot_free fun_eq_iff split: if_splits)
next
  case (7 d p)
  then show ?case by (simp add: FixedPool_release_def)
next
  case (8 p i x y)
  then show ?case
    by (auto simp: FixedPool_store_def FixedPool_at_def FixedPool_capacity_def pool_inv_def
        nth_list_update fun_eq_iff)
qed

subsection \<open>The bulk operations, slot by slot\<close>

text \<open>
  A loop over all indices whose step at \<open>i\<close> changes only slot \<open>i\<close> transforms every slot.
\<close>

lemma fold_slots:
  assumes step: "\<And>i q. pool_inv q \<Longrightarrow> i < FixedPool_capacity q \<Longrightarrow>
      pool_inv (step i q) \<and> FixedPool_capacity (step i q) = FixedPool_capacity q \<and>
      (\<forall>j. FixedPool_at j (step i q) = (if j = i then g (FixedPool_at i q) else FixedPool_at j q))"
    and inv: "pool_inv p" and n: "n \<le> FixedPool_capacity p"
  shows "pool_inv (fold step [0..<n] p) \<and>
    FixedPool_capacity (fold step [0..<n] p) = FixedPool_capacity p \<and>
    (\<forall>j. FixedPool_at j (fold step [0..<n] p) =
       (if j < n then g (FixedPool_at j p) else FixedPool_at j p))"
  using n
proof (induction n)
  case 0
  with inv show ?case by simp
next
  case (Suc n)
  let ?q = "fold step [0..<n] p"
  from Suc have IH: "pool_inv ?q" "FixedPool_capacity ?q = FixedPool_capacity p"
    "\<And>j. FixedPool_at j ?q = (if j < n then g (FixedPool_at j p) else FixedPool_at j p)" by auto
  with Suc.prems step [of ?q n] show ?case by auto
qed

lemma snd_fold_pair:
  "snd (fold (\<lambda>i (a, q). if c i q then (a, q) else (f i a q, g i q)) xs (a, p)) =
   fold (\<lambda>i q. if c i q then q else g i q) xs p"
  by (induction xs arbitrary: a p) auto

lemma FixedPool_erase_if_slots:
  assumes "pool_inv p"
  shows "pool_inv (snd (FixedPool_erase_if d P p))"
    and "FixedPool_capacity (snd (FixedPool_erase_if d P p)) = FixedPool_capacity p"
    and "FixedPool_at j (snd (FixedPool_erase_if d P p)) =
      (case FixedPool_at j p of None \<Rightarrow> None | Some x \<Rightarrow> if P x then None else Some x)"
proof -
  let ?step = "\<lambda>i q. if \<not> p_used q ! i \<or> \<not> P (p_items q ! i) then q else FixedPool_free_slot d i q"
  let ?g = "\<lambda>s. case s of None \<Rightarrow> None | Some x \<Rightarrow> if P x then None else Some x"
  have eq: "snd (FixedPool_erase_if d P p) = fold ?step [0..<FixedPool_capacity p] p"
    unfolding FixedPool_erase_if_def by (rule snd_fold_pair)
  have "pool_inv (?step i q) \<and> FixedPool_capacity (?step i q) = FixedPool_capacity q \<and>
      (\<forall>j. FixedPool_at j (?step i q) = (if j = i then ?g (FixedPool_at i q) else FixedPool_at j q))"
    if "pool_inv q" "i < FixedPool_capacity q" for i q
    using that by (auto simp: slot_free) (auto simp: FixedPool_at_def)
  from fold_slots [where step = ?step and g = ?g, OF this assms order_refl]
  have "pool_inv (snd (FixedPool_erase_if d P p)) \<and>
      FixedPool_capacity (snd (FixedPool_erase_if d P p)) = FixedPool_capacity p \<and>
      (\<forall>j. FixedPool_at j (snd (FixedPool_erase_if d P p)) =
        (if j < FixedPool_capacity p then ?g (FixedPool_at j p) else FixedPool_at j p))"
    unfolding eq by blast
  then show "pool_inv (snd (FixedPool_erase_if d P p))"
    and "FixedPool_capacity (snd (FixedPool_erase_if d P p)) = FixedPool_capacity p"
    and "FixedPool_at j (snd (FixedPool_erase_if d P p)) = ?g (FixedPool_at j p)"
    by (auto split: if_splits) (simp add: FixedPool_at_def)
qed

lemma FixedPool_clear_slots:
  assumes "pool_inv p"
  shows "pool_inv (FixedPool_clear d p) \<and>
    FixedPool_capacity (FixedPool_clear d p) = FixedPool_capacity p \<and>
    (\<forall>j. FixedPool_at j (FixedPool_clear d p) = None)"
proof -
  let ?step = "\<lambda>i q. if p_used q ! i then FixedPool_free_slot d i q else q"
  have "pool_inv (?step i q) \<and> FixedPool_capacity (?step i q) = FixedPool_capacity q \<and>
      (\<forall>j. FixedPool_at j (?step i q) = (if j = i then None else FixedPool_at j q))"
    if "pool_inv q" "i < FixedPool_capacity q" for i q
    using that by (auto simp: slot_free) (auto simp: FixedPool_at_def)
  from fold_slots [where step = ?step and g = "\<lambda>_. None", OF this assms order_refl]
  show ?thesis
    unfolding FixedPool_clear_def by (auto simp: FixedPool_at_None)
qed

text \<open>
  A \<^verbatim>\<open>for_each\<close> whose callback changes an element independently of the threaded state maps
  every live element.
\<close>

lemma fst_fold_pair:
  assumes "\<And>x s. fst (fn x s) = f x"
  shows "fst (fold (\<lambda>i (q, s). if c i q then let (x, s') = fn (g i q) s in (h i x q, s') else (q, s))
      xs (p, s)) = fold (\<lambda>i q. if c i q then h i (f (g i q)) q else q) xs p"
proof (induction xs arbitrary: p s)
  case (Cons i xs)
  obtain x s' where "fn (g i p) s = (x, s')" by fastforce
  moreover from this assms [of "g i p" s] have "x = f (g i p)" by simp
  ultimately show ?case using Cons by simp
qed simp

lemma FixedPool_for_each_slots:
  assumes "pool_inv p" and fn: "\<And>x s. fst (fn x s) = f x"
  shows "pool_inv (fst (FixedPool_for_each fn p s)) \<and>
    FixedPool_capacity (fst (FixedPool_for_each fn p s)) = FixedPool_capacity p \<and>
    (\<forall>j. FixedPool_at j (fst (FixedPool_for_each fn p s)) = map_option f (FixedPool_at j p))"
proof -
  let ?step = "\<lambda>i q. if p_used q ! i then FixedPool_store i (f (p_items q ! i)) q else q"
  have eq: "fst (FixedPool_for_each fn p s) = fold ?step [0..<FixedPool_capacity p] p"
    unfolding FixedPool_for_each_def FixedPool_store_def by (rule fst_fold_pair) (rule fn)
  have "pool_inv (?step i q) \<and> FixedPool_capacity (?step i q) = FixedPool_capacity q \<and>
      (\<forall>j. FixedPool_at j (?step i q) =
        (if j = i then map_option f (FixedPool_at i q) else FixedPool_at j q))"
    if "pool_inv q" "i < FixedPool_capacity q" for i q
    using that
    by (auto simp: FixedPool_store_def FixedPool_at_def FixedPool_capacity_def pool_inv_def
        nth_list_update)
  from fold_slots [where step = ?step and g = "map_option f", OF this assms(1) order_refl]
  show ?thesis
    unfolding eq by (auto simp: FixedPool_at_beyond)
qed

text \<open>The state a \<^verbatim>\<open>for_each\<close> threads visits the live elements in slot order.\<close>

lemma FixedPool_live_set: "set (FixedPool_live p) = ran (\<lambda>i. FixedPool_at i p)"
  by (auto simp: FixedPool_live_def map_filter_def ran_def simp del: FixedPool_at_Some)
    (force simp: FixedPool_at_def split: if_splits)

lemma FixedPool_for_each_state:
  "snd (FixedPool_for_each fn p s) = fold (\<lambda>x s. snd (fn x s)) (FixedPool_live p) s"
proof -
  let ?step = "\<lambda>i (q, s). if p_used q ! i
         then (let (x, s') = fn (p_items q ! i) s in (q\<lparr>p_items := (p_items q)[i := x]\<rparr>, s')) else (q, s)"
  let ?seen = "\<lambda>n. List.map_filter (\<lambda>i. FixedPool_at i p) [0..<n]"
  have "p_used (fst (fold ?step [0..<n] (p, s))) = p_used p \<and>
      (\<forall>j \<ge> n. p_items (fst (fold ?step [0..<n] (p, s))) ! j = p_items p ! j) \<and>
      snd (fold ?step [0..<n] (p, s)) = fold (\<lambda>x s. snd (fn x s)) (?seen n) s"
    if "n \<le> FixedPool_capacity p" for n
    using that
  proof (induction n)
    case (Suc n)
    then show ?case
      by (auto simp: split_beta Let_def map_filter_def FixedPool_at_def)
  qed (simp add: map_filter_def)
  from this [of "FixedPool_capacity p"] show ?thesis
    by (simp add: FixedPool_for_each_def FixedPool_live_def)
qed

lemma pool_inv_new [simp]: "pool_inv (FixedPool_new d n)"
  and cap_new [simp]: "FixedPool_capacity (FixedPool_new d n) = n"
  and slot_new [simp]: "FixedPool_at i (FixedPool_new d n) = None"
  by (auto simp: FixedPool_new_def pool_inv_def FixedPool_capacity_def FixedPool_at_def)

lemma keyed_empty [simp]: "keyed key (\<lambda>i. None)"
  by (simp add: keyed_def)

text \<open>The operations a client may call, in any order.\<close>

datatype 'a pool_op = Pool_allocate | Pool_release "nat option" | Pool_erase_if "'a \<Rightarrow> bool" | Pool_store nat 'a | Pool_clear

primrec pool_step :: "'a \<Rightarrow> 'a pool_op \<Rightarrow> 'a FixedPool \<Rightarrow> 'a FixedPool" where
  "pool_step d Pool_allocate p = snd (FixedPool_allocate d p)"
| "pool_step d (Pool_release item) p = snd (FixedPool_release d item p)"
| "pool_step d (Pool_erase_if P) p = snd (FixedPool_erase_if d P p)"
| "pool_step d (Pool_store i x) p = (if FixedPool_at i p \<noteq> None then FixedPool_store i x p else p)"
| "pool_step d Pool_clear p = FixedPool_clear d p"

lemma FixedPool_size_live: "pool_inv p \<Longrightarrow> FixedPool_size p = card {i. FixedPool_at i p \<noteq> None}"
proof -
  assume "pool_inv p"
  have count: "fold (\<lambda>v n. n + (if v then 1 else 0)) xs k = k + length (filter (\<lambda>v. v) xs)" for xs and k :: nat
    by (induction xs arbitrary: k) auto
  have "{i. FixedPool_at i p \<noteq> None} = {i. i < length (p_used p) \<and> p_used p ! i}"
    using \<open>pool_inv p\<close> by (auto simp: FixedPool_capacity_def pool_inv_def)
  then show ?thesis by (simp add: FixedPool_size_def count length_filter_conv_card)
qed

lemma pool_step_inv:
  assumes "pool_inv p"
  shows "pool_inv (pool_step d oper p) \<and> FixedPool_capacity (pool_step d oper p) = FixedPool_capacity p"
proof (cases oper)
  case Pool_allocate
  obtain r q where al: "FixedPool_allocate d p = (r, q)" by fastforce
  show ?thesis
  proof (cases r)
    case None
    with al fp.alloc_None [of d p q] assms Pool_allocate show ?thesis by simp
  next
    case (Some i)
    with al have "FixedPool_allocate d p = (Some i, q)" by simp
    from fp.alloc_Some [OF assms this] al Pool_allocate show ?thesis by simp
  qed
next
  case (Pool_release item)
  with assms show ?thesis by (auto simp: FixedPool_release_def split: option.splits)
next
  case (Pool_erase_if P)
  with FixedPool_erase_if_slots [OF assms, where d = d and P = P] show ?thesis by simp
next
  case (Pool_store i x)
  with assms show ?thesis by (simp add: FixedPool_store_def pool_inv_def FixedPool_capacity_def)
next
  case Pool_clear
  with FixedPool_clear_slots [OF assms, of d] show ?thesis by simp
qed

subsection \<open>Properties\<close>

text \<open>C18: A pool whose elements carry distinct keys is a bounded finite map. Searching for a key
  absent from the pool, allocating a slot and storing an element there inserts it and keeps
  keys distinct; allocation fails only when every slot is live and then changes nothing.\<close>

theorem pool_insert:
  assumes "pool_inv p" "keyed key (\<lambda>i. FixedPool_at i p)" "FixedPool_find (\<lambda>x. key x = key y) p = None"
    and "FixedPool_allocate d p = (slot, q)"
  shows "case slot of
      None \<Rightarrow> q = p \<and> (\<forall>i < FixedPool_capacity p. FixedPool_at i p \<noteq> None)
    | Some i \<Rightarrow> keyed key (\<lambda>j. FixedPool_at j (FixedPool_store i y q)) \<and>
        fp.lookup key (FixedPool_store i y q) = (fp.lookup key p)(key y \<mapsto> y)"
proof (cases slot)
  case None
  with fp.alloc_None [of d p q] assms(4) show ?thesis by simp
next
  case (Some i)
  with assms(4) have "FixedPool_allocate d p = (Some i, q)" by simp
  from fp.keyed_add [OF assms(1-3) this] fp.lookup_add [OF assms(1-3) this] Some
  show ?thesis by simp
qed

theorem pool_insert_witness:
  "keyed fst (\<lambda>j. FixedPool_at j (FixedPool_store 0 (7 :: nat, True)
      \<lparr>p_items = [(0, False), (0, False)], p_used = [True, False]\<rparr>))"
proof -
  have alloc: "FixedPool_allocate (0, False) (FixedPool_new (0 :: nat, False) 2) =
      (Some 0, \<lparr>p_items = [(0, False), (0, False)], p_used = [True, False]\<rparr>)"
    by (simp add: FixedPool_allocate_def FixedPool_new_def FixedPool_capacity_def FixedPool_reset_def
        upt_rec numeral_2_eq_2)
  have "FixedPool_find (\<lambda>x. fst x = fst (7 :: nat, True)) (FixedPool_new (0, False) 2) = None"
    by (simp add: FixedPool_find_def FixedPool_new_def FixedPool_capacity_def find_None_iff)
  from pool_insert [OF pool_inv_new _ this alloc] show ?thesis by simp
qed


end
