(* ===== verification/Byte_IO.thy ===== *)
theory Byte_IO
  imports RL_Prelude
begin

text \<open>
  The cursor pair \<^verbatim>\<open>ByteWriter\<close> and \<^verbatim>\<open>ByteReader\<close> of \<^verbatim>\<open>src/byte_io.cpp\<close> over which every wire
  codec of the repository is written, and \<^verbatim>\<open>crc32_iso_hdlc\<close> of \<^verbatim>\<open>src/crc32.cpp\<close>.

  A view is either a null pointer with a size or a block of bytes; a cursor is a view and
  an offset. The locale \<open>byte_field\<close> is the contract of one fixed-width field (its writer,
  its reader and the bytes in between); it is interpreted for the five integer widths the
  repository uses, and the record codecs of the other theories are proved over those facts.
\<close>

subsection \<open>Views and cursors\<close>

datatype ByteView = NullView nat | View bytes

fun view_size :: "ByteView \<Rightarrow> nat" where
  "view_size (NullView n) = n"
| "view_size (View bs) = length bs"

fun view_bytes :: "ByteView \<Rightarrow> bytes" where
  "view_bytes (NullView n) = []"
| "view_bytes (View bs) = bs"

fun view_null :: "ByteView \<Rightarrow> bool" where
  "view_null (NullView n) = True"
| "view_null (View bs) = False"

record ByteWriter =
  bw_target :: ByteView
  bw_offset :: nat

definition ByteWriter_new :: "ByteView \<Rightarrow> ByteWriter" where
  "ByteWriter_new target = \<lparr>bw_target = target, bw_offset = 0\<rparr>"

definition ByteWriter_reserve :: "nat \<Rightarrow> ByteWriter \<Rightarrow> unit result" where
  "ByteWriter_reserve n w =
     fail_if (view_null (bw_target w) \<or> view_size (bw_target w) < bw_offset w \<or>
              view_size (bw_target w) - bw_offset w < n)
       (Error NoCapacity ''byte writer overflow'')"

text \<open>The assignments \<^verbatim>\<open>target_.data[offset_++] = b\<close>, one per byte of \<open>bs\<close>.\<close>

definition ByteWriter_put :: "bytes \<Rightarrow> ByteWriter \<Rightarrow> ByteWriter" where
  "ByteWriter_put bs w =
     \<lparr>bw_target = View (blit (bw_offset w) bs (view_bytes (bw_target w))),
      bw_offset = bw_offset w + length bs\<rparr>"

definition write_u8 :: "u8 \<Rightarrow> ByteWriter \<Rightarrow> ByteWriter result" where
  "write_u8 v w = and_then (ByteWriter_reserve 1 w) (\<lambda>_. Inr (ByteWriter_put [v] w))"

definition write_u16 :: "u16 \<Rightarrow> ByteWriter \<Rightarrow> ByteWriter result" where
  "write_u16 v w =
     and_then (ByteWriter_reserve 2 w)
       (\<lambda>_. Inr (ByteWriter_put [ucast (drop_bit 8 v AND 0xFF), ucast (v AND 0xFF)] w))"

definition write_u32 :: "u32 \<Rightarrow> ByteWriter \<Rightarrow> ByteWriter result" where
  "write_u32 v w = and_then (ByteWriter_reserve 4 w) (\<lambda>_. Inr (ByteWriter_put (put_be 4 v) w))"

definition write_u64 :: "u64 \<Rightarrow> ByteWriter \<Rightarrow> ByteWriter result" where
  "write_u64 v w = and_then (ByteWriter_reserve 8 w) (\<lambda>_. Inr (ByteWriter_put (put_be 8 v) w))"

definition write_u48 :: "u64 \<Rightarrow> ByteWriter \<Rightarrow> ByteWriter result" where
  "write_u48 v w =
     and_then (fail_if (0xFFFFFFFFFFFF < v) (Error InvalidArgument ''value exceeds 48 bits'')) (\<lambda>_.
     and_then (ByteWriter_reserve 6 w) (\<lambda>_. Inr (ByteWriter_put (put_be 6 v) w)))"

definition write_bytes :: "ByteView \<Rightarrow> ByteWriter \<Rightarrow> ByteWriter result" where
  "write_bytes v w =
     and_then (fail_if (0 < view_size v \<and> view_null v) (Error InvalidArgument ''null byte source'')) (\<lambda>_.
     and_then (ByteWriter_reserve (view_size v) w) (\<lambda>_. Inr (ByteWriter_put (view_bytes v) w)))"

record ByteReader =
  br_source :: ByteView
  br_offset :: nat

definition ByteReader_new :: "ByteView \<Rightarrow> ByteReader" where
  "ByteReader_new source = \<lparr>br_source = source, br_offset = 0\<rparr>"

definition ByteReader_require :: "nat \<Rightarrow> ByteReader \<Rightarrow> unit result" where
  "ByteReader_require n r =
     fail_if (view_null (br_source r) \<or> view_size (br_source r) < br_offset r \<or>
              view_size (br_source r) - br_offset r < n)
       (Error ProtocolError ''truncated input'')"

definition ByteReader_remaining :: "ByteReader \<Rightarrow> nat" where
  "ByteReader_remaining r = view_size (br_source r) - br_offset r"

definition ByteReader_take :: "nat \<Rightarrow> ByteReader \<Rightarrow> bytes \<times> ByteReader" where
  "ByteReader_take n r =
     (take n (drop (br_offset r) (view_bytes (br_source r))), r\<lparr>br_offset := br_offset r + n\<rparr>)"

definition read_u8 :: "ByteReader \<Rightarrow> (u8 \<times> ByteReader) result" where
  "read_u8 r =
     and_then (ByteReader_require 1 r)
       (\<lambda>_. Inr (view_bytes (br_source r) ! br_offset r, r\<lparr>br_offset := br_offset r + 1\<rparr>))"

definition read_u16 :: "ByteReader \<Rightarrow> (u16 \<times> ByteReader) result" where
  "read_u16 r =
     and_then (ByteReader_require 2 r)
       (\<lambda>_. Inr (push_bit 8 (ucast (view_bytes (br_source r) ! br_offset r)) OR
                   ucast (view_bytes (br_source r) ! (br_offset r + 1)),
                 r\<lparr>br_offset := br_offset r + 2\<rparr>))"

text \<open>The loop \<^verbatim>\<open>value = (value << 8) | source_.data[offset_++]\<close> of the wider readers.\<close>

definition read_loop :: "nat \<Rightarrow> ByteReader \<Rightarrow> 'a::len word \<times> ByteReader" where
  "read_loop n r = (let (bs, r') = ByteReader_take n r in (get_be 0 bs, r'))"

definition read_u32 :: "ByteReader \<Rightarrow> (u32 \<times> ByteReader) result" where
  "read_u32 r = and_then (ByteReader_require 4 r) (\<lambda>_. Inr (read_loop 4 r))"

definition read_u64 :: "ByteReader \<Rightarrow> (u64 \<times> ByteReader) result" where
  "read_u64 r = and_then (ByteReader_require 8 r) (\<lambda>_. Inr (read_loop 8 r))"

definition read_u48 :: "ByteReader \<Rightarrow> (u64 \<times> ByteReader) result" where
  "read_u48 r = and_then (ByteReader_require 6 r) (\<lambda>_. Inr (read_loop 6 r))"

text \<open>\<open>read_bytes null n\<close> reads into a destination of \<open>n\<close> bytes that is null when \<open>null\<close>.\<close>

definition read_bytes :: "bool \<Rightarrow> nat \<Rightarrow> ByteReader \<Rightarrow> (bytes \<times> ByteReader) result" where
  "read_bytes null n r =
     and_then (fail_if (0 < n \<and> null) (Error InvalidArgument ''null byte destination'')) (\<lambda>_.
     and_then (ByteReader_require n r) (\<lambda>_. Inr (ByteReader_take n r)))"

definition crc_bit :: "u32 \<Rightarrow> u32" where
  "crc_bit crc = drop_bit 1 crc XOR (0xEDB88320 AND (0 - (crc AND 1)))"

definition crc_byte :: "u8 \<Rightarrow> u32 \<Rightarrow> u32" where
  "crc_byte b crc = (crc_bit ^^ 8) (crc XOR ucast b)"

definition crc32_iso_hdlc :: "bytes \<Rightarrow> u32" where
  "crc32_iso_hdlc bs = NOT (fold crc_byte bs 0xFFFFFFFF)"

subsection \<open>Cursors in the middle of a buffer\<close>

text \<open>
  A writer that has emitted \<open>out\<close> and has the bytes \<open>tail\<close> of its target still to
  overwrite, and a reader that has consumed \<open>pre\<close> with \<open>rest\<close> to go.
\<close>

definition writer :: "bytes \<Rightarrow> bytes \<Rightarrow> ByteWriter" where
  "writer out tail = \<lparr>bw_target = View (out @ tail), bw_offset = length out\<rparr>"

definition reader :: "bytes \<Rightarrow> bytes \<Rightarrow> ByteReader" where
  "reader pre rest = \<lparr>br_source = View (pre @ rest), br_offset = length pre\<rparr>"

lemma ByteWriter_new_View [simp]: "ByteWriter_new (View buf) = writer [] buf"
  by (simp add: ByteWriter_new_def writer_def)

lemma ByteReader_new_View [simp]: "ByteReader_new (View bs) = reader [] bs"
  by (simp add: ByteReader_new_def reader_def)

lemma writer_size [simp]: "bw_offset (writer out tail) = length out"
  by (simp add: writer_def)

lemma writer_target [simp]: "bw_target (writer out tail) = View (out @ tail)"
  by (simp add: writer_def)

lemma reader_consumed [simp]: "br_offset (reader pre rest) = length pre"
  by (simp add: reader_def)

lemma reader_remaining [simp]: "ByteReader_remaining (reader pre rest) = length rest"
  by (simp add: reader_def ByteReader_remaining_def)

lemma reserve_writer [simp]:
  "ByteWriter_reserve n (writer out tail) =
     fail_if (length tail < n) (Error NoCapacity ''byte writer overflow'')"
  by (simp add: ByteWriter_reserve_def writer_def)

lemma require_reader [simp]:
  "ByteReader_require n (reader pre rest) =
     fail_if (length rest < n) (Error ProtocolError ''truncated input'')"
  by (simp add: ByteReader_require_def reader_def)

lemma put_writer [simp]:
  "ByteWriter_put bs (writer out tail) = writer (out @ bs) (drop (length bs) tail)"
  by (simp add: ByteWriter_put_def writer_def blit_def)

lemma take_reader [simp]:
  "n \<le> length rest \<Longrightarrow>
     ByteReader_take n (reader pre rest) = (take n rest, reader (pre @ take n rest) (drop n rest))"
  by (simp add: ByteReader_take_def reader_def)

lemma read_loop_reader [simp]:
  "n \<le> length rest \<Longrightarrow>
     read_loop n (reader pre rest) =
       (get_be 0 (take n rest), reader (pre @ take n rest) (drop n rest))"
  by (simp add: read_loop_def)

lemma write_u16_put_be: "write_u16 v w = and_then (ByteWriter_reserve 2 w) (\<lambda>_. Inr (ByteWriter_put (put_be 2 v) w))"
  by (simp add: write_u16_def numeral_2_eq_2)

lemma read_u16_loop:
  "read_u16 (reader pre rest) = and_then (ByteReader_require 2 (reader pre rest)) (\<lambda>_. Inr (read_loop 2 (reader pre rest)))"
proof (cases "length rest < 2")
  case False
  then obtain a b cs where "rest = a # b # cs"
    by (metis One_nat_def Suc_1 length_Cons less_Suc_eq list.exhaust list.size(3) zero_less_Suc)
  then show ?thesis
    by (simp add: read_u16_def) (simp add: reader_def nth_append)
qed (simp add: read_u16_def)

subsection \<open>The contract of a fixed-width field\<close>

locale byte_field =
  fixes width :: nat
    and enc :: "'a \<Rightarrow> bytes"
    and ok :: "'a \<Rightarrow> bool"
    and wr :: "'a \<Rightarrow> ByteWriter \<Rightarrow> ByteWriter result"
    and rd :: "ByteReader \<Rightarrow> ('a \<times> ByteReader) result"
  assumes length_enc: "length (enc v) = width"
    and wr_bad: "\<not> ok v \<Longrightarrow> \<not> is_ok (wr v w)"
    and wr_writer: "ok v \<Longrightarrow> wr v (writer out tail) =
      (if length tail < width then Inl (Error NoCapacity ''byte writer overflow'')
       else Inr (writer (out @ enc v) (drop width tail)))"
    and rd_enc: "ok v \<Longrightarrow> rd (reader pre (enc v @ rest)) = Inr (v, reader (pre @ enc v) rest)"
    and rd_reader: "width \<le> length rest \<Longrightarrow>
      \<exists>v. ok v \<and> enc v = take width rest \<and>
          rd (reader pre rest) = Inr (v, reader (pre @ take width rest) (drop width rest))"
    and rd_short: "length rest < width \<Longrightarrow>
      rd (reader pre rest) = Inl (Error ProtocolError ''truncated input'')"
begin

lemma rd_Inr:
  assumes "rd (reader pre rest) = Inr (v, r)"
  obtains rest' where "ok v" "rest = enc v @ rest'" "r = reader (pre @ enc v) rest'"
proof -
  have "width \<le> length rest"
    using assms rd_short [of rest pre] by (cases "length rest < width") auto
  from rd_reader [OF this, of pre] assms have "ok v" "enc v = take width rest"
    "r = reader (pre @ take width rest) (drop width rest)" by auto
  with that [of "drop width rest"] show thesis by simp
qed

lemma wr_Inr_iff:
  "wr v (writer out tail) = Inr w \<longleftrightarrow>
     ok v \<and> width \<le> length tail \<and> w = writer (out @ enc v) (drop width tail)"
  using wr_bad [of v "writer out tail"] wr_writer [of v out tail]
  by (cases "ok v") auto

text \<open>Distinct accepted values have distinct encodings.\<close>

lemma enc_inj: "ok v \<Longrightarrow> ok u \<Longrightarrow> enc v = enc u \<Longrightarrow> v = u"
  using rd_enc [of v "[]" "[]"] rd_enc [of u "[]" "[]"] by simp

end

interpretation f8: byte_field 1 "\<lambda>v. [v]" "\<lambda>_. True" write_u8 read_u8
proof (unfold_locales, goal_cases)
  case (4 v pre rest)
  show ?case by (simp add: read_u8_def) (simp add: reader_def)
next
  case (5 rest pre)
  then show ?case by (cases rest) (auto simp: read_u8_def, simp_all add: reader_def)
qed (simp_all add: write_u8_def read_u8_def)

lemma put_be_field:
  assumes "8 * n = LENGTH('a)"
    and "\<And>v w. wr v w = and_then (ByteWriter_reserve n w) (\<lambda>_. Inr (ByteWriter_put (put_be n v) w))"
    and "\<And>pre rest. rd (reader pre rest) =
      and_then (ByteReader_require n (reader pre rest)) (\<lambda>_. Inr (read_loop n (reader pre rest)))"
  shows "byte_field n (put_be n) (\<lambda>_ :: 'a::len word. True) wr rd"
proof (unfold_locales, goal_cases)
  case (4 v pre rest)
  with assms(1) show ?case by (simp add: assms(3) get_be_put_be)
next
  case (5 rest pre)
  with assms(1) show ?case by (simp add: assms(3) put_be_get_be)
qed (simp_all add: assms(2,3))

interpretation f16: byte_field 2 "put_be 2" "\<lambda>_. True" write_u16 read_u16
  by (rule put_be_field) (simp_all only: write_u16_put_be read_u16_loop, simp)

interpretation f32: byte_field 4 "put_be 4" "\<lambda>_. True" write_u32 read_u32
  by (rule put_be_field) (simp_all only: write_u32_def read_u32_def, simp)

interpretation f64: byte_field 8 "put_be 8" "\<lambda>_. True" write_u64 read_u64
  by (rule put_be_field) (simp_all only: write_u64_def read_u64_def, simp)

lemma u48_bound: "(v :: u64) \<le> 0xFFFFFFFFFFFF \<longleftrightarrow> v < 2 ^ (8 * 6)"
  by (simp add: word_le_nat_alt word_less_nat_alt) linarith

interpretation f48: byte_field 6 "put_be 6" "\<lambda>v. v \<le> 0xFFFFFFFFFFFF" write_u48 read_u48
proof (unfold_locales, goal_cases)
  case (4 v pre rest)
  then show ?case unfolding u48_bound by (simp add: read_u48_def get_be_put_be_bound)
next
  case (5 rest pre)
  then show ?case
    unfolding u48_bound
    using get_be_less [of "take 6 rest", where 'a = 64]
    by (simp add: read_u48_def put_be_get_be)
qed (simp_all add: write_u48_def read_u48_def not_le)

lemma read_u8_Cons: "read_u8 (reader pre (v # rest)) = Inr (v, reader (pre @ [v]) rest)"
  using f8.rd_enc [where v = v and pre = pre and rest = rest] by simp

lemma write_u48_big [codec]:
  "0xFFFFFFFFFFFF < v \<Longrightarrow> write_u48 v w = Inl (Error InvalidArgument ''value exceeds 48 bits'')"
  by (simp add: write_u48_def)

text \<open>Symbolic execution of codecs: what each field writer and reader does to a cursor.\<close>

lemmas write_fields [codec] =
  f8.wr_writer [OF TrueI] f16.wr_writer [OF TrueI] f32.wr_writer [OF TrueI] f64.wr_writer [OF TrueI]
  f48.wr_writer

lemmas read_last_field [codec] =
  f16.rd_enc [OF TrueI, where rest = "[]", simplified]
  f32.rd_enc [OF TrueI, where rest = "[]", simplified]
  f64.rd_enc [OF TrueI, where rest = "[]", simplified] f48.rd_enc [where rest = "[]", simplified]

lemmas read_fieldE = f8.rd_Inr f16.rd_Inr f32.rd_Inr f64.rd_Inr f48.rd_Inr

lemmas read_fields [codec] =
  read_u8_Cons f16.rd_enc [OF TrueI] f32.rd_enc [OF TrueI] f64.rd_enc [OF TrueI] f48.rd_enc

end
