(* ===== verification/Wire_Header.thy ===== *)
theory Wire_Header
  imports Byte_IO
begin

text \<open>
  The 88-byte Wire v2 header of \<^verbatim>\<open>include/routeloom/wire.hpp\<close> and the header half of
  \<^verbatim>\<open>src/wire.cpp\<close>: \<^verbatim>\<open>write_header\<close>, \<^verbatim>\<open>read_header\<close>, \<^verbatim>\<open>validate_header\<close> and
  \<^verbatim>\<open>make_end_aad\<close>.

  \<^verbatim>\<open>FrameType\<close> and \<^verbatim>\<open>DeliveryClass\<close> are byte-sized enumerations that may hold any byte (the
  decoder casts before it checks, and extension types 64..95 have no enumerator), so they are
  bytes here and their enumerators are abbreviations.
\<close>

subsection \<open>Constants and the header\<close>

abbreviation FT_Data :: u8 where "FT_Data \<equiv> 16"
abbreviation FT_GroupData :: u8 where "FT_GroupData \<equiv> 25"
abbreviation FT_GroupReport :: u8 where "FT_GroupReport \<equiv> 26"
abbreviation FT_RouteUpdate :: u8 where "FT_RouteUpdate \<equiv> 32"

abbreviation DC_BestEffort :: u8 where "DC_BestEffort \<equiv> 0"
abbreviation DC_Reliable :: u8 where "DC_Reliable \<equiv> 1"
abbreviation DC_Applied :: u8 where "DC_Applied \<equiv> 2"

abbreviation kMagic :: u16 where "kMagic \<equiv> 0x524C"
abbreviation kMajor :: u8 where "kMajor \<equiv> 2"
abbreviation kHeaderSize :: nat where "kHeaderSize \<equiv> 88"
abbreviation kAeadTagSize :: nat where "kAeadTagSize \<equiv> 16"
abbreviation kMaxEspNowBody :: nat where "kMaxEspNowBody \<equiv> 250"
abbreviation kMaxApplicationPayload :: nat where "kMaxApplicationPayload \<equiv> 128"
abbreviation kFlagEndProtected :: u8 where "kFlagEndProtected \<equiv> 1"
abbreviation kMaxCryptoCounter :: u64 where "kMaxCryptoCounter \<equiv> 0xFFFFFFFFFFFF"
abbreviation kEndAadMax :: nat where "kEndAadMax \<equiv> 64"

definition is_extension_type :: "u8 \<Rightarrow> bool" where
  "is_extension_type type \<longleftrightarrow> 64 \<le> type \<and> type \<le> 95"

definition known_frame_type :: "u8 \<Rightarrow> bool" where
  "known_frame_type value \<longleftrightarrow>
     value \<in> set [1, 2, 3, 4, 5, 6, 7, 16, 17, 18, 19, 20, 21, 22, 23, 24, 25, 26,
       32, 33, 34, 35, 40, 41, 48, 49, 50, 51, 64, 65, 66] \<or>
     is_extension_type value"

record MessageId =
  mid_session :: u32
  mid_sequence :: u64

record Header =
  h_type :: u8
  h_flags :: u8
  h_delivery :: u8
  h_delivery_round :: u8
  h_hop_remaining :: u8
  h_minor :: u8
  h_traffic :: u8
  h_payload_length :: u8
  h_network :: NetworkId
  h_origin :: NodeId
  h_destination :: NodeId
  h_previous_hop :: NodeId
  h_next_hop :: NodeId
  h_message :: MessageId
  h_remaining_deadline_ms :: u32
  h_original_lifetime_ms :: u32
  h_link_epoch :: u32
  h_end_epoch :: u32
  h_link_counter :: u64
  h_end_counter :: u64

definition end_protected :: "Header \<Rightarrow> bool" where
  "end_protected h \<longleftrightarrow> h_flags h AND kFlagEndProtected \<noteq> 0"

subsection \<open>Validation\<close>

definition validate_header :: "Header \<Rightarrow> unit result" where
  "validate_header h =
     and_then (fail_if (\<not> known_frame_type (h_type h)) (Error InvalidArgument ''unknown frame type'')) (\<lambda>_.
     and_then (fail_if (DC_Applied < h_delivery h) (Error InvalidArgument ''unknown delivery class'')) (\<lambda>_.
     and_then (fail_if (h_network h = 0 \<or> 0xFFFFFFFF < h_network h \<or>
         h_origin h = kInvalidNodeId \<or> h_destination h = kInvalidNodeId \<or>
         h_previous_hop h = kInvalidNodeId \<or> h_next_hop h = kInvalidNodeId)
       (Error InvalidArgument ''wire identity field is invalid'')) (\<lambda>_.
     and_then (fail_if
         ((h_next_hop h = kBroadcastNodeId \<or>
           h_type h = FT_RouteUpdate \<and> h_destination h = kBroadcastNodeId) \<and>
          (h_type h \<noteq> FT_RouteUpdate \<or> h_next_hop h \<noteq> kBroadcastNodeId \<or>
           h_destination h \<noteq> kBroadcastNodeId \<or> h_origin h \<noteq> h_previous_hop h \<or>
           h_origin h = kBroadcastNodeId \<or> h_hop_remaining h \<noteq> 1 \<or>
           h_delivery h \<noteq> DC_BestEffort \<or> h_delivery_round h \<noteq> 0 \<or>
           h_flags h \<noteq> 0 \<or> h_end_counter h \<noteq> 0))
       (Error ProtocolError ''invalid broadcast route header'')) (\<lambda>_.
     and_then (fail_if (kMaxApplicationPayload < unat (h_payload_length h))
       (Error InvalidArgument ''payload exceeds v1 limit'')) (\<lambda>_.
     and_then (fail_if (h_hop_remaining h = 0 \<and> h_destination h \<noteq> h_next_hop h)
       (Error InvalidArgument ''hop budget exhausted before destination'')) (\<lambda>_.
     and_then (fail_if (h_flags h AND NOT kFlagEndProtected \<noteq> 0)
       (Error ProtocolError ''unknown wire flags'')) (\<lambda>_.
     and_then (fail_if (kMaxCryptoCounter < h_link_counter h \<or> kMaxCryptoCounter < h_end_counter h)
       (Error InvalidArgument ''crypto counter exceeds 48 bits'')) (\<lambda>_.
     fail_if (h_original_lifetime_ms h = 0 \<or> h_original_lifetime_ms h < h_remaining_deadline_ms h)
       (Error InvalidArgument ''invalid lifetime'')))))))))"

subsection \<open>Writing and reading\<close>

definition write_header :: "Header \<Rightarrow> ByteView \<Rightarrow> bytes result" where
  "write_header h output =
     and_then (fail_if (view_size output < kHeaderSize)
       (Error NoCapacity ''wire header output too small'')) (\<lambda>_.
     and_then (fail_if (0xFFFFFFFF < h_network h)
       (Error InvalidArgument ''v1 network id exceeds 32 bits'')) (\<lambda>_.
     and_then (write_u16 kMagic (ByteWriter_new output)) (\<lambda>w.
     and_then (write_u8 kMajor w) (\<lambda>w.
     and_then (write_u8 (h_minor h) w) (\<lambda>w.
     and_then (write_u8 (h_type h) w) (\<lambda>w.
     and_then (write_u8 (h_flags h) w) (\<lambda>w.
     and_then (write_u8 (h_delivery h) w) (\<lambda>w.
     and_then (write_u8 (h_delivery_round h) w) (\<lambda>w.
     and_then (write_u8 (h_hop_remaining h) w) (\<lambda>w.
     and_then (write_u8 (h_traffic h) w) (\<lambda>w.
     and_then (write_u16 (ucast (h_payload_length h)) w) (\<lambda>w.
     and_then (write_u32 (ucast (h_network h)) w) (\<lambda>w.
     and_then (write_u64 (h_origin h) w) (\<lambda>w.
     and_then (write_u64 (h_destination h) w) (\<lambda>w.
     and_then (write_u64 (h_previous_hop h) w) (\<lambda>w.
     and_then (write_u64 (h_next_hop h) w) (\<lambda>w.
     and_then (write_u32 (mid_session (h_message h)) w) (\<lambda>w.
     and_then (write_u64 (mid_sequence (h_message h)) w) (\<lambda>w.
     and_then (write_u32 (h_remaining_deadline_ms h) w) (\<lambda>w.
     and_then (write_u32 (h_original_lifetime_ms h) w) (\<lambda>w.
     and_then (write_u32 (h_link_epoch h) w) (\<lambda>w.
     and_then (write_u32 (h_end_epoch h) w) (\<lambda>w.
     and_then (write_u48 (h_link_counter h) w) (\<lambda>w.
     and_then (write_u48 (h_end_counter h) w) (\<lambda>w.
     and_then (fail_if (bw_offset w \<noteq> kHeaderSize)
       (Error InternalError ''wire header size mismatch'')) (\<lambda>_.
     Inr (view_bytes (bw_target w))))))))))))))))))))))))))))"

text \<open>\<^verbatim>\<open>ByteView{encoded.data, kHeaderSize}\<close>: the first bytes of a view.\<close>

fun view_prefix :: "nat \<Rightarrow> ByteView \<Rightarrow> ByteView" where
  "view_prefix n (NullView _) = NullView n"
| "view_prefix n (View bs) = View (take n bs)"

definition read_header :: "ByteView \<Rightarrow> Header result" where
  "read_header encoded =
     and_then (fail_if (view_size encoded < kHeaderSize + kAeadTagSize)
       (Error ProtocolError ''wire frame too short'')) (\<lambda>_.
     and_then (read_u16 (ByteReader_new (view_prefix kHeaderSize encoded))) (\<lambda>(magic, r).
     and_then (read_u8 r) (\<lambda>(major, r).
     and_then (read_u8 r) (\<lambda>(minor, r).
     and_then (read_u8 r) (\<lambda>(type, r).
     and_then (read_u8 r) (\<lambda>(flags, r).
     and_then (read_u8 r) (\<lambda>(delivery, r).
     and_then (read_u8 r) (\<lambda>(delivery_round, r).
     and_then (read_u8 r) (\<lambda>(hop_remaining, r).
     and_then (read_u8 r) (\<lambda>(traffic, r).
     and_then (read_u16 r) (\<lambda>(payload_length, r).
     and_then (read_u32 r) (\<lambda>(network, r).
     and_then (read_u64 r) (\<lambda>(origin, r).
     and_then (read_u64 r) (\<lambda>(destination, r).
     and_then (read_u64 r) (\<lambda>(previous_hop, r).
     and_then (read_u64 r) (\<lambda>(next_hop, r).
     and_then (read_u32 r) (\<lambda>(session, r).
     and_then (read_u64 r) (\<lambda>(sequence, r).
     and_then (read_u32 r) (\<lambda>(remaining_deadline_ms, r).
     and_then (read_u32 r) (\<lambda>(original_lifetime_ms, r).
     and_then (read_u32 r) (\<lambda>(link_epoch, r).
     and_then (read_u32 r) (\<lambda>(end_epoch, r).
     and_then (read_u48 r) (\<lambda>(link_counter, r).
     and_then (read_u48 r) (\<lambda>(end_counter, r).
     and_then (fail_if (magic \<noteq> kMagic \<or> major \<noteq> kMajor)
       (Error ProtocolError ''unsupported wire header'')) (\<lambda>_.
     and_then (fail_if (kMaxApplicationPayload < unat payload_length)
       (Error ProtocolError ''payload exceeds v1 limit'')) (\<lambda>_.
     and_then (fail_if (\<not> known_frame_type type) (Error ProtocolError ''unknown frame type'')) (\<lambda>_.
     and_then (fail_if (DC_Applied < delivery) (Error ProtocolError ''unknown delivery class'')) (\<lambda>_.
     let header = \<lparr>h_type = type, h_flags = flags, h_delivery = delivery,
        h_delivery_round = delivery_round, h_hop_remaining = hop_remaining, h_minor = minor,
        h_traffic = traffic, h_payload_length = ucast payload_length, h_network = ucast network,
        h_origin = origin, h_destination = destination, h_previous_hop = previous_hop,
        h_next_hop = next_hop,
        h_message = \<lparr>mid_session = session, mid_sequence = sequence\<rparr>,
        h_remaining_deadline_ms = remaining_deadline_ms,
        h_original_lifetime_ms = original_lifetime_ms, h_link_epoch = link_epoch,
        h_end_epoch = end_epoch, h_link_counter = link_counter, h_end_counter = end_counter\<rparr>
     in and_then (validate_header header) (\<lambda>_. Inr header)))))))))))))))))))))))))))))"

definition peek_header :: "ByteView \<Rightarrow> Header result" where
  "peek_header encoded = read_header encoded"

definition make_end_aad :: "Header \<Rightarrow> bytes result" where
  "make_end_aad h =
     and_then (write_u8 kMajor (ByteWriter_new (View (replicate kEndAadMax 0)))) (\<lambda>w.
     and_then (write_u8 (h_minor h) w) (\<lambda>w.
     and_then (write_u8 (h_type h) w) (\<lambda>w.
     and_then (write_u8 (h_flags h) w) (\<lambda>w.
     and_then (write_u8 (h_delivery h) w) (\<lambda>w.
     and_then (write_u32 (ucast (h_network h)) w) (\<lambda>w.
     and_then (write_u64 (h_origin h) w) (\<lambda>w.
     and_then (write_u64 (h_destination h) w) (\<lambda>w.
     and_then (write_u32 (mid_session (h_message h)) w) (\<lambda>w.
     and_then (write_u64 (mid_sequence (h_message h)) w) (\<lambda>w.
     and_then (write_u32 (h_original_lifetime_ms h) w) (\<lambda>w.
     and_then (write_u32 (h_end_epoch h) w) (\<lambda>w.
     and_then (write_u48 (h_end_counter h) w) (\<lambda>w.
     and_then (write_u16 (ucast (h_payload_length h)) w) (\<lambda>w.
     Inr (take (bw_offset w) (view_bytes (bw_target w)))))))))))))))))"

subsection \<open>The wire image of a header\<close>

definition header_bytes :: "Header \<Rightarrow> bytes" where
  "header_bytes h =
     put_be 2 kMagic @ [kMajor, h_minor h, h_type h, h_flags h, h_delivery h, h_delivery_round h,
       h_hop_remaining h, h_traffic h] @
     put_be 2 (ucast (h_payload_length h) :: u16) @ put_be 4 (ucast (h_network h) :: u32) @
     put_be 8 (h_origin h) @ put_be 8 (h_destination h) @
     put_be 8 (h_previous_hop h) @ put_be 8 (h_next_hop h) @
     put_be 4 (mid_session (h_message h)) @ put_be 8 (mid_sequence (h_message h)) @
     put_be 4 (h_remaining_deadline_ms h) @ put_be 4 (h_original_lifetime_ms h) @
     put_be 4 (h_link_epoch h) @ put_be 4 (h_end_epoch h) @
     put_be 6 (h_link_counter h) @ put_be 6 (h_end_counter h)"

lemma length_header_bytes [simp]: "length (header_bytes h) = kHeaderSize"
  by (simp add: header_bytes_def)

lemma write_header_eq:
  assumes "kHeaderSize \<le> length buf" "h_network h \<le> 0xFFFFFFFF"
    "h_link_counter h \<le> kMaxCryptoCounter" "h_end_counter h \<le> kMaxCryptoCounter"
  shows "write_header h (View buf) = Inr (header_bytes h @ drop kHeaderSize buf)"
proof -
  obtain n where n: "length buf = kHeaderSize + n"
    using assms(1) le_Suc_ex by blast
  show ?thesis
    using assms(2-) by (simp add: write_header_def header_bytes_def codec not_less n)
qed

lemma write_header_Inr:
  assumes "write_header h (View buf) = Inr bs"
  shows "kHeaderSize \<le> length buf" "h_network h \<le> 0xFFFFFFFF"
    "h_link_counter h \<le> kMaxCryptoCounter" "h_end_counter h \<le> kMaxCryptoCounter"
proof -
  show net: "kHeaderSize \<le> length buf" "h_network h \<le> 0xFFFFFFFF"
    using assms by (auto simp: write_header_def not_less split: if_splits)
  then obtain n where n: "length buf = kHeaderSize + n"
    using le_Suc_ex by blast
  show link: "h_link_counter h \<le> kMaxCryptoCounter"
  proof (rule ccontr)
    assume "\<not> ?thesis"
    with net assms n show False by (simp add: write_header_def codec leD not_le)
  qed
  show "h_end_counter h \<le> kMaxCryptoCounter"
  proof (rule ccontr)
    assume "\<not> ?thesis"
    with net assms n link show False by (simp add: write_header_def codec leD not_le)
  qed
qed

lemma validate_headerD:
  assumes "validate_header h = Inr u"
  shows "known_frame_type (h_type h)" "h_delivery h \<le> DC_Applied" "h_network h \<noteq> 0"
    "h_network h \<le> 0xFFFFFFFF" "unat (h_payload_length h) \<le> kMaxApplicationPayload"
    "h_link_counter h \<le> kMaxCryptoCounter" "h_end_counter h \<le> kMaxCryptoCounter"
    "h_original_lifetime_ms h \<noteq> 0" "h_remaining_deadline_ms h \<le> h_original_lifetime_ms h"
    "h_next_hop h \<noteq> kInvalidNodeId" "h_destination h \<noteq> kInvalidNodeId"
    "h_origin h \<noteq> kInvalidNodeId" "h_previous_hop h \<noteq> kInvalidNodeId"
  using assms by (auto simp: validate_header_def not_less split: if_splits)

lemma Header_eta:
  "\<lparr>h_type = h_type h, h_flags = h_flags h, h_delivery = h_delivery h,
    h_delivery_round = h_delivery_round h, h_hop_remaining = h_hop_remaining h,
    h_minor = h_minor h, h_traffic = h_traffic h, h_payload_length = h_payload_length h,
    h_network = h_network h, h_origin = h_origin h, h_destination = h_destination h,
    h_previous_hop = h_previous_hop h, h_next_hop = h_next_hop h, h_message = h_message h,
    h_remaining_deadline_ms = h_remaining_deadline_ms h,
    h_original_lifetime_ms = h_original_lifetime_ms h, h_link_epoch = h_link_epoch h,
    h_end_epoch = h_end_epoch h, h_link_counter = h_link_counter h,
    h_end_counter = h_end_counter h\<rparr> = (h :: Header)"
  by simp

lemma read_header_bytes:
  assumes ok: "validate_header h = Inr u" and rest: "kAeadTagSize \<le> length rest"
  shows "read_header (View (header_bytes h @ rest)) = Inr h"
proof -
  note v = validate_headerD [OF ok]
  have net: "ucast (ucast (h_network h) :: u32) = h_network h"
    using v(4) by (intro ucast_down_up) (simp_all add: word_le_nat_alt)
  have len: "ucast (ucast (h_payload_length h) :: u16) = h_payload_length h"
    "unat (ucast (h_payload_length h) :: u16) = unat (h_payload_length h)"
    by (simp_all add: ucast_up_down unat_ucast_up)
  have u: "validate_header h = Inr ()" using ok by simp
  have eta: "\<lparr>mid_session = mid_session (h_message h), mid_sequence = mid_sequence (h_message h)\<rparr>
      = h_message h" by simp
  show ?thesis
    unfolding read_header_def Let_def using v rest
    by (simp add: header_bytes_def codec net len leD eta Header_eta u)
qed

lemma read_header_Inr:
  assumes "read_header (View bs) = Inr h"
  shows "validate_header h = Inr ()" "kHeaderSize + kAeadTagSize \<le> length bs"
    "take kHeaderSize bs = header_bytes h"
proof -
  from assms show "validate_header h = Inr ()"
    by (auto simp: read_header_def Let_def split: if_splits prod.splits)
  from assms show len: "kHeaderSize + kAeadTagSize \<le> length bs"
    by (auto simp: read_header_def not_less split: if_splits)
  then have prefix: "length (take kHeaderSize bs) = kHeaderSize"
    by simp
  from assms show "take kHeaderSize bs = header_bytes h"
    unfolding read_header_def Let_def
    by (clarsimp split: if_splits elim!: read_fieldE)
      (insert prefix, simp add: header_bytes_def ucast_down_up ucast_up_down)
qed

subsection \<open>The end-to-end associated data\<close>

definition end_aad_bytes :: "Header \<Rightarrow> bytes" where
  "end_aad_bytes h =
     [kMajor, h_minor h, h_type h, h_flags h, h_delivery h] @
     put_be 4 (ucast (h_network h) :: u32) @ put_be 8 (h_origin h) @ put_be 8 (h_destination h) @
     put_be 4 (mid_session (h_message h)) @ put_be 8 (mid_sequence (h_message h)) @
     put_be 4 (h_original_lifetime_ms h) @ put_be 4 (h_end_epoch h) @ put_be 6 (h_end_counter h) @
     put_be 2 (ucast (h_payload_length h) :: u16)"

lemma make_end_aad_eq:
  "make_end_aad h =
     (if kMaxCryptoCounter < h_end_counter h
      then Inl (Error InvalidArgument ''value exceeds 48 bits'') else Inr (end_aad_bytes h))"
  by (simp add: make_end_aad_def end_aad_bytes_def codec not_less)

text \<open>Two headers agree on the fields the end layer authenticates.\<close>

definition end_equal :: "Header \<Rightarrow> Header \<Rightarrow> bool" where
  "end_equal g h \<longleftrightarrow>
     h_minor g = h_minor h \<and> h_type g = h_type h \<and> h_flags g = h_flags h \<and>
     h_delivery g = h_delivery h \<and> h_network g = h_network h \<and> h_origin g = h_origin h \<and>
     h_destination g = h_destination h \<and> h_message g = h_message h \<and>
     h_original_lifetime_ms g = h_original_lifetime_ms h \<and> h_end_epoch g = h_end_epoch h \<and>
     h_end_counter g = h_end_counter h \<and> h_payload_length g = h_payload_length h"

lemma end_aad_bytes_cong: "end_equal g h \<Longrightarrow> end_aad_bytes g = end_aad_bytes h"
  by (simp add: end_equal_def end_aad_bytes_def)

lemma end_aad_bytes_inj:
  assumes "end_aad_bytes g = end_aad_bytes h"
    and "h_network g \<le> 0xFFFFFFFF" "h_network h \<le> 0xFFFFFFFF"
    and "h_end_counter g \<le> kMaxCryptoCounter" "h_end_counter h \<le> kMaxCryptoCounter"
  shows "end_equal g h"
proof -
  have "ucast (ucast v :: u32) = v" if "v \<le> 0xFFFFFFFF" for v :: u64
    using that by (intro ucast_down_up) (simp_all add: word_le_nat_alt)
  then have net: "h_network g = h_network h" if "(ucast (h_network g) :: u32) = ucast (h_network h)"
    using that assms(2,3) by metis
  have len: "h_payload_length g = h_payload_length h"
    if "(ucast (h_payload_length g) :: u16) = ucast (h_payload_length h)"
    using arg_cong [OF that, where f = "ucast :: u16 \<Rightarrow> u8"] by (simp add: ucast_up_down)
  show ?thesis
    using assms(1)
    by (auto simp: end_aad_bytes_def end_equal_def intro!: net len MessageId.equality
        dest!: f32.enc_inj [OF TrueI TrueI] f64.enc_inj [OF TrueI TrueI] f16.enc_inj [OF TrueI TrueI]
          f48.enc_inj [OF assms(4,5)])
qed

subsection \<open>Properties\<close>

text \<open>C12: Every header that passes validation is written as exactly 88 bytes, and the decoder
  reads the same header back from those bytes followed by any body of at least tag size.\<close>

theorem header_roundtrip:
  assumes "validate_header h = Inr ()" "kAeadTagSize \<le> length rest"
  shows "\<exists>bs. write_header h (View (replicate kHeaderSize 0)) = Inr bs \<and>
    length bs = kHeaderSize \<and> read_header (View (bs @ rest)) = Inr h"
  using validate_headerD [OF assms(1)] read_header_bytes [OF assms]
  by (simp add: write_header_eq)

definition example_header :: Header where
  "example_header =
     \<lparr>h_type = FT_Data, h_flags = 1, h_delivery = DC_Reliable, h_delivery_round = 0,
      h_hop_remaining = 10, h_minor = 0, h_traffic = 2, h_payload_length = 3, h_network = 7,
      h_origin = 0x11, h_destination = 0x44, h_previous_hop = 0x11, h_next_hop = 0x22,
      h_message = \<lparr>mid_session = 9, mid_sequence = 5\<rparr>, h_remaining_deadline_ms = 900,
      h_original_lifetime_ms = 1000, h_link_epoch = 3, h_end_epoch = 4, h_link_counter = 12,
      h_end_counter = 13\<rparr>"

lemma example_header_valid: "validate_header example_header = Inr ()"
  by (simp add: validate_header_def example_header_def known_frame_type_def)

theorem header_roundtrip_witness:
  "\<exists>bs. write_header example_header (View (replicate kHeaderSize 0)) = Inr bs \<and>
    length bs = kHeaderSize \<and> read_header (View (bs @ replicate 16 0)) = Inr example_header"
  by (rule header_roundtrip [OF example_header_valid]) simp

text \<open>C13: The decoder accepts only canonical encodings. Whatever it returns passes validation,
  and encoding the returned header reproduces the 88 bytes that were read, so no two byte
  strings decode to the same header.\<close>

theorem header_canonical:
  assumes "read_header (View bs) = Inr h"
  shows "validate_header h = Inr () \<and>
    write_header h (View (replicate kHeaderSize 0)) = Inr (take kHeaderSize bs)"
  using read_header_Inr [OF assms] validate_headerD [of h "()"]
  by (simp add: write_header_eq)

theorem header_canonical_witness:
  "read_header (View (header_bytes example_header @ replicate 16 0)) = Inr example_header \<and>
   write_header example_header (View (replicate kHeaderSize 0)) =
     Inr (take kHeaderSize (header_bytes example_header @ replicate 16 0))"
  using read_header_bytes [OF example_header_valid, of "replicate 16 0"]
    header_canonical [of "header_bytes example_header @ replicate 16 0" example_header]
  by simp

text \<open>C14: The associated data of the end layer is an exact fingerprint of the end-immutable
  fields: two valid headers produce the same bytes if and only if they agree on version,
  type, flags, delivery contract, network, origin, destination, message id, lifetime, end
  epoch, end counter and payload length, whatever their hop-mutable fields are.\<close>

theorem end_aad_exact:
  assumes "validate_header g = Inr ()" "validate_header h = Inr ()"
  shows "make_end_aad g = make_end_aad h \<longleftrightarrow> end_equal g h"
  using validate_headerD [OF assms(1)] validate_headerD [OF assms(2)]
    end_aad_bytes_inj [of g h] end_aad_bytes_cong [of g h]
  by (auto simp: make_end_aad_eq leD)

theorem end_aad_exact_witness:
  "make_end_aad example_header = make_end_aad (example_header\<lparr>h_next_hop := 0x33\<rparr>)"
proof -
  have "validate_header (example_header\<lparr>h_next_hop := 0x33\<rparr>) = Inr ()"
    by (simp add: validate_header_def example_header_def known_frame_type_def)
  from end_aad_exact [OF example_header_valid this] show ?thesis
    by (simp add: end_equal_def example_header_def)
qed

end
