(* ===== verification/Sha256_Hmac.thy ===== *)
theory Sha256_Hmac
  imports RL_Prelude
begin

text \<open>
  The portable hash of \<^verbatim>\<open>src/discovery_scope.cpp\<close>: the streaming class \<^verbatim>\<open>Sha256\<close>, the
  one-shot \<^verbatim>\<open>sha256\<close>, the multi-part \<^verbatim>\<open>hmac_sha256\<close> and \<^verbatim>\<open>constant_time_equal\<close>. A view
  argument is its list of bytes, a null or empty view the empty list. \<^verbatim>\<open>secure_clear\<close> of
  dead locals has no effect on a result and is omitted.

  The streaming code is shown to compute the FIPS 180-4 padding and block iteration of the
  concatenated input however it is split into \<^verbatim>\<open>update\<close> calls.
\<close>

subsection \<open>The compression function\<close>

definition kSha256RoundConstants :: "u32 list" where
  "kSha256RoundConstants = concat
    [[0x428a2f98, 0x71374491, 0xb5c0fbcf, 0xe9b5dba5, 0x3956c25b],
     [0x59f111f1, 0x923f82a4, 0xab1c5ed5, 0xd807aa98, 0x12835b01],
     [0x243185be, 0x550c7dc3, 0x72be5d74, 0x80deb1fe, 0x9bdc06a7],
     [0xc19bf174, 0xe49b69c1, 0xefbe4786, 0x0fc19dc6, 0x240ca1cc],
     [0x2de92c6f, 0x4a7484aa, 0x5cb0a9dc, 0x76f988da, 0x983e5152],
     [0xa831c66d, 0xb00327c8, 0xbf597fc7, 0xc6e00bf3, 0xd5a79147],
     [0x06ca6351, 0x14292967, 0x27b70a85, 0x2e1b2138, 0x4d2c6dfc],
     [0x53380d13, 0x650a7354, 0x766a0abb, 0x81c2c92e, 0x92722c85],
     [0xa2bfe8a1, 0xa81a664b, 0xc24b8b70, 0xc76c51a3, 0xd192e819],
     [0xd6990624, 0xf40e3585, 0x106aa070, 0x19a4c116, 0x1e376c08],
     [0x2748774c, 0x34b0bcb5, 0x391c0cb3, 0x4ed8aa4a, 0x5b9cca4f],
     [0x682e6ff3, 0x748f82ee, 0x78a5636f, 0x84c87814, 0x8cc70208],
     [0x90befffa, 0xa4506ceb, 0xbef9a3f7, 0xc67178f2]]"

definition rotr :: "u32 \<Rightarrow> nat \<Rightarrow> u32" where
  "rotr value bits = drop_bit bits value OR push_bit (32 - bits) value"

definition sha_word :: "bytes \<Rightarrow> nat \<Rightarrow> u32" where
  "sha_word data i =
     push_bit 24 (ucast (data ! (i * 4))) OR push_bit 16 (ucast (data ! (i * 4 + 1))) OR
     push_bit 8 (ucast (data ! (i * 4 + 2))) OR ucast (data ! (i * 4 + 3))"

text \<open>The array \<^verbatim>\<open>w\<close>, filled in index order: entry \<open>i\<close> is appended when the loop reaches it.\<close>

definition sha_schedule :: "bytes \<Rightarrow> u32 list" where
  "sha_schedule data =
     fold (\<lambda>i w.
         let s0 = rotr (w ! (i - 15)) 7 XOR rotr (w ! (i - 15)) 18 XOR drop_bit 3 (w ! (i - 15));
             s1 = rotr (w ! (i - 2)) 17 XOR rotr (w ! (i - 2)) 19 XOR drop_bit 10 (w ! (i - 2))
         in w @ [w ! (i - 16) + s0 + w ! (i - 7) + s1])
       [16..<64] (map (sha_word data) [0..<16])"

fun sha_round :: "u32 list \<Rightarrow> nat \<Rightarrow> u32 \<times> u32 \<times> u32 \<times> u32 \<times> u32 \<times> u32 \<times> u32 \<times> u32 \<Rightarrow>
    u32 \<times> u32 \<times> u32 \<times> u32 \<times> u32 \<times> u32 \<times> u32 \<times> u32" where
  "sha_round w i (a, b, c, d, e, f, g, h) =
     (let s1 = rotr e 6 XOR rotr e 11 XOR rotr e 25;
          ch = (e AND f) XOR (NOT e AND g);
          t1 = h + s1 + ch + kSha256RoundConstants ! i + w ! i;
          s0 = rotr a 2 XOR rotr a 13 XOR rotr a 22;
          maj = (a AND b) XOR (a AND c) XOR (b AND c);
          t2 = s0 + maj
      in (t1 + t2, a, b, c, d + t1, e, f, g))"

definition sha_block :: "bytes \<Rightarrow> u32 list \<Rightarrow> u32 list" where
  "sha_block data st =
     (let (a, b, c, d, e, f, g, h) =
        fold (sha_round (sha_schedule data)) [0..<64]
          (st ! 0, st ! 1, st ! 2, st ! 3, st ! 4, st ! 5, st ! 6, st ! 7)
      in [st ! 0 + a, st ! 1 + b, st ! 2 + c, st ! 3 + d,
          st ! 4 + e, st ! 5 + f, st ! 6 + g, st ! 7 + h])"

subsection \<open>The streaming object\<close>

record Sha256 =
  sha_state :: "u32 list"
  sha_buffer :: bytes
  sha_buffered :: nat
  sha_total :: u64

definition sha_init :: "u32 list" where
  "sha_init = [0x6a09e667, 0xbb67ae85, 0x3c6ef372, 0xa54ff53a,
               0x510e527f, 0x9b05688c, 0x1f83d9ab, 0x5be0cd19]"

definition Sha256_reset :: "Sha256 \<Rightarrow> Sha256" where
  "Sha256_reset s = s\<lparr>sha_state := sha_init, sha_buffered := 0, sha_total := 0\<rparr>"

definition Sha256_new :: Sha256 where
  "Sha256_new = Sha256_reset
     \<lparr>sha_state = replicate 8 0, sha_buffer = replicate 64 0, sha_buffered = 0, sha_total = 0\<rparr>"

text \<open>The loop \<^verbatim>\<open>while (offset + 64 <= data.size)\<close> over the bytes from \<open>offset\<close> on.\<close>

function sha_blocks :: "u32 list \<Rightarrow> bytes \<Rightarrow> u32 list \<times> bytes" where
  "sha_blocks st bs =
     (if 64 \<le> length bs then sha_blocks (sha_block (take 64 bs) st) (drop 64 bs) else (st, bs))"
  by auto
termination by (relation "measure (\<lambda>(st, bs). length bs)") auto

declare sha_blocks.simps [simp del]

text \<open>The head of \<^verbatim>\<open>update\<close>: top up a partly filled buffer and flush it when it is full.\<close>

definition sha_top_up :: "bytes \<Rightarrow> Sha256 \<Rightarrow> Sha256 \<times> bytes" where
  "sha_top_up bs s =
     (if 0 < sha_buffered s
      then let n = (if 64 - sha_buffered s < length bs then 64 - sha_buffered s else length bs);
               s1 = s\<lparr>sha_buffer := blit (sha_buffered s) (take n bs) (sha_buffer s),
                      sha_buffered := sha_buffered s + n\<rparr>;
               s2 = (if sha_buffered s1 = 64
                     then s1\<lparr>sha_state := sha_block (sha_buffer s1) (sha_state s1), sha_buffered := 0\<rparr>
                     else s1)
           in (s2, drop n bs)
      else (s, bs))"

definition Sha256_update :: "bytes \<Rightarrow> Sha256 \<Rightarrow> Sha256" where
  "Sha256_update bs s =
     (if bs = [] then s
      else let s0 = s\<lparr>sha_total := sha_total s + of_nat (length bs)\<rparr>;
               (s1, rest) = sha_top_up bs s0;
               (st, rest') = sha_blocks (sha_state s1) rest;
               s2 = s1\<lparr>sha_state := st\<rparr>
           in if rest' \<noteq> []
              then s2\<lparr>sha_buffer := blit 0 rest' (sha_buffer s2), sha_buffered := length rest'\<rparr>
              else s2)"

definition sha_digest :: "u32 list \<Rightarrow> bytes" where
  "sha_digest st =
     concat (map (\<lambda>i. [ucast (drop_bit 24 (st ! i)), ucast (drop_bit 16 (st ! i)),
                        ucast (drop_bit 8 (st ! i)), ucast (st ! i)]) [0..<8])"

definition Sha256_finish :: "Sha256 \<Rightarrow> bytes \<times> Sha256" where
  "Sha256_finish s =
     (let bit_length = sha_total s * 8;
          buf = (sha_buffer s)[sha_buffered s := 0x80];
          n = sha_buffered s + 1;
          (st, buf, n) =
            (if 56 < n
             then let buf = blit n (replicate (64 - n) 0) buf
                  in (sha_block buf (sha_state s), buf, 0)
             else (sha_state s, buf, n));
          buf = blit n (replicate (56 - n) 0) buf;
          buf = blit 56 (map (\<lambda>i. ucast (drop_bit (56 - i * 8) bit_length)) [0..<8]) buf;
          st = sha_block buf st
      in (sha_digest st, Sha256_reset (s\<lparr>sha_state := st, sha_buffer := buf\<rparr>)))"

definition sha256 :: "bytes \<Rightarrow> bytes" where
  "sha256 input = fst (Sha256_finish (Sha256_update input Sha256_new))"

definition hmac_sha256 :: "bytes \<Rightarrow> bytes \<Rightarrow> bytes \<Rightarrow> bytes \<Rightarrow> bytes" where
  "hmac_sha256 key part_a part_b part_c =
     (let pad_key = (if 64 < length key then blit 0 (sha256 key) (replicate 64 0)
                     else blit 0 key (replicate 64 0));
          pad = map (\<lambda>b. b XOR 0x36) pad_key;
          inner = fst (Sha256_finish
            (Sha256_update part_c (Sha256_update part_b (Sha256_update part_a
              (Sha256_update pad Sha256_new)))));
          pad = map (\<lambda>b. b XOR 0x5c) pad_key
      in fst (Sha256_finish (Sha256_update inner (Sha256_update pad Sha256_new))))"

definition constant_time_equal :: "bytes \<Rightarrow> bytes \<Rightarrow> bool" where
  "constant_time_equal a b \<longleftrightarrow>
     length a = length b \<and> fold (\<lambda>i diff. diff OR (a ! i XOR b ! i)) [0..<length a] (0 :: u8) = 0"

subsection \<open>The reference: padding and block iteration\<close>

definition sha_absorb :: "u32 list \<Rightarrow> bytes \<Rightarrow> u32 list" where
  "sha_absorb st bs = fst (sha_blocks st bs)"

definition sha_pad :: "bytes \<Rightarrow> bytes" where
  "sha_pad m =
     m @ [0x80] @ replicate ((119 - length m mod 64) mod 64) 0 @ put_be 8 (of_nat (8 * length m) :: u64)"

definition sha256_spec :: "bytes \<Rightarrow> bytes" where
  "sha256_spec m = concat (map (put_be 4) (sha_absorb sha_init (sha_pad m)))"

definition hmac_spec :: "bytes \<Rightarrow> bytes \<Rightarrow> bytes" where
  "hmac_spec key m =
     (let k = (if 64 < length key then sha256_spec key else key);
          k64 = k @ replicate (64 - length k) 0
      in sha256_spec (map (\<lambda>b. b XOR 0x5c) k64 @ sha256_spec (map (\<lambda>b. b XOR 0x36) k64 @ m)))"

subsection \<open>The stream simulates the reference\<close>

lemma sha_blocks_rest: "snd (sha_blocks st bs) = drop (64 * (length bs div 64)) bs"
proof (induction st bs rule: sha_blocks.induct)
  case (1 st bs)
  show ?case
  proof (cases "64 \<le> length bs")
    case True
    then have "length bs div 64 = Suc ((length bs - 64) div 64)"
      by (simp add: le_div_geq)
    with True 1 show ?thesis by (simp add: sha_blocks.simps [of st bs] add.commute)
  qed (simp add: sha_blocks.simps [of st bs])
qed

lemma sha_blocks_append:
  assumes "64 dvd length a"
  shows "sha_blocks st (a @ b) = sha_blocks (sha_absorb st a) b"
  using assms
proof (induction st a rule: sha_blocks.induct)
  case (1 st a)
  show ?case
  proof (cases "64 \<le> length a")
    case True
    then have "64 dvd length (drop 64 a)" using 1(2) by (auto intro: dvd_diff_nat)
    from 1(1) [OF True this] show ?thesis
      using True by (simp add: sha_blocks.simps [of st "a @ b"] sha_blocks.simps [of st a] sha_absorb_def)
  next
    case False
    with 1(2) have "a = []" by (auto dest: dvd_imp_le)
    then show ?thesis by (simp add: sha_absorb_def sha_blocks.simps [of st "[]"])
  qed
qed

lemma sha_absorb_one: "length a = 64 \<Longrightarrow> sha_absorb st a = sha_block a st"
  by (simp add: sha_absorb_def sha_blocks.simps [of st a] sha_blocks.simps [of _ "[]"])

lemma sha_absorb_append: "64 dvd length a \<Longrightarrow> sha_absorb st (a @ b) = sha_absorb (sha_absorb st a) b"
  by (simp add: sha_absorb_def [of st "a @ b"] sha_absorb_def [of "sha_absorb st a" b] sha_blocks_append)

lemma sha_blocks_short: "length bs < 64 \<Longrightarrow> sha_blocks st bs = (st, bs)"
  by (simp add: sha_blocks.simps)

lemma sha_blocks_split: "sha_blocks st bs = (st', r) \<Longrightarrow>
    \<exists>a. bs = a @ r \<and> 64 dvd length a \<and> length r < 64 \<and> st' = sha_absorb st a"
proof (intro exI conjI)
  let ?k = "64 * (length bs div 64)"
  assume *: "sha_blocks st bs = (st', r)"
  then have r: "r = drop ?k bs" using sha_blocks_rest [of st bs] by simp
  then show "bs = take ?k bs @ r" by simp
  show "64 dvd length (take ?k bs)" by (simp add: min_absorb2)
  show "length r < 64" by (simp add: r)
  then have "sha_blocks st (take ?k bs @ r) = (sha_absorb st (take ?k bs), r)"
    by (subst sha_blocks_append) (simp_all add: min_absorb2 sha_blocks_short)
  with * r show "st' = sha_absorb st (take ?k bs)" by simp
qed

text \<open>\<open>sha_core m s\<close>: the chaining state and the buffer hold the message \<open>m\<close>.\<close>

definition sha_core :: "bytes \<Rightarrow> Sha256 \<Rightarrow> bool" where
  "sha_core m s \<longleftrightarrow>
     (\<exists>a. m = a @ take (sha_buffered s) (sha_buffer s) \<and> 64 dvd length a \<and>
          sha_state s = sha_absorb sha_init a) \<and>
     sha_buffered s < 64 \<and> length (sha_buffer s) = 64"

definition sha_abs :: "bytes \<Rightarrow> Sha256 \<Rightarrow> bool" where
  "sha_abs m s \<longleftrightarrow> sha_core m s \<and> sha_total s = of_nat (length m)"

lemma sha_abs_new: "sha_abs [] Sha256_new"
  by (simp add: sha_abs_def sha_core_def Sha256_new_def Sha256_reset_def sha_absorb_def sha_blocks_short)

lemma sha_top_up_core:
  assumes "sha_core m s" "sha_top_up bs s = (s', rest)"
  shows "\<exists>used. bs = used @ rest \<and> sha_core (m @ used) s' \<and> (rest \<noteq> [] \<longrightarrow> sha_buffered s' = 0) \<and>
    sha_total s' = sha_total s"
proof (cases "0 < sha_buffered s")
  case False
  with assms show ?thesis by (auto simp: sha_top_up_def)
next
  case True
  define b n where "b = sha_buffered s" and "n = min (64 - b) (length bs)"
  let ?buf = "blit b (take n bs) (sha_buffer s)"
  from assms(1) obtain a where a: "m = a @ take b (sha_buffer s)" "64 dvd length a"
      "sha_state s = sha_absorb sha_init a" "b < 64" "length (sha_buffer s) = 64"
    by (auto simp: sha_core_def b_def)
  have n: "n \<le> length bs" "b + n \<le> 64" using a(4) by (auto simp: n_def)
  have buf: "length ?buf = 64" "take (b + n) ?buf = take b (sha_buffer s) @ take n bs"
    using n a(5) take_blit [of b "take n bs" "sha_buffer s"] by simp_all
  have nn: "(if 64 - b < length bs then 64 - b else length bs) = n" by (auto simp: n_def)
  have step: "sha_top_up bs s =
      (let s1 = s\<lparr>sha_buffer := ?buf, sha_buffered := b + n\<rparr>
       in (if b + n = 64 then s1\<lparr>sha_state := sha_block ?buf (sha_state s), sha_buffered := 0\<rparr> else s1,
           drop n bs))"
    using True unfolding sha_top_up_def b_def [symmetric] nn by (simp add: Let_def)
  show ?thesis
  proof (cases "b + n = 64")
    case full: True
    then have "take b (sha_buffer s) @ take n bs = ?buf" using buf by simp
    then have "sha_block ?buf (sha_state s) = sha_absorb sha_init (m @ take n bs)"
      using a buf(1) by (simp add: sha_absorb_append sha_absorb_one)
    moreover have "64 dvd length (m @ take n bs)"
      using a n full by (simp add: dvd_add)
    ultimately show ?thesis
      using assms(2) step full a(5) buf(1) by (intro exI [of _ "take n bs"]) (auto simp: sha_core_def Let_def)
  next
    case False
    then have "drop n bs = []" using n(2) by (auto simp: n_def)
    with False show ?thesis
      using assms(2) step a buf n
      by (intro exI [of _ "take n bs"]) (auto simp: sha_core_def Let_def)
  qed
qed

lemma sha_abs_update:
  assumes "sha_abs m s"
  shows "sha_abs (m @ bs) (Sha256_update bs s)"
proof (cases "bs = []")
  case False
  let ?s0 = "s\<lparr>sha_total := sha_total s + of_nat (length bs)\<rparr>"
  obtain s1 rest where top: "sha_top_up bs ?s0 = (s1, rest)" by fastforce
  obtain st r where blk: "sha_blocks (sha_state s1) rest = (st, r)" by fastforce
  have "sha_core m ?s0" using assms by (simp add: sha_abs_def sha_core_def)
  from sha_top_up_core [OF this top] obtain used where
    used: "bs = used @ rest" "sha_core (m @ used) s1" "rest \<noteq> [] \<longrightarrow> sha_buffered s1 = 0"
      "sha_total s1 = sha_total s + of_nat (length bs)" by auto
  from sha_blocks_split [OF blk] obtain a where
    a: "rest = a @ r" "64 dvd length a" "length r < 64" "st = sha_absorb (sha_state s1) a" by auto
  have upd: "Sha256_update bs s = (if r \<noteq> []
      then s1\<lparr>sha_state := st, sha_buffer := blit 0 r (sha_buffer s1), sha_buffered := length r\<rparr>
      else s1\<lparr>sha_state := st\<rparr>)"
    using False top blk by (simp add: Sha256_update_def)
  have "sha_core (m @ bs) (Sha256_update bs s)"
  proof (cases "rest = []")
    case True
    with a have "a = []" "r = []" by auto
    with a True used upd show ?thesis
      by (simp add: sha_core_def sha_absorb_def sha_blocks_short)
  next
    case False
    with used(2,3) have "64 dvd length (m @ used)" "sha_state s1 = sha_absorb sha_init (m @ used)"
      "length (sha_buffer s1) = 64" "sha_buffered s1 = 0" by (auto simp: sha_core_def)
    moreover from this have "st = sha_absorb sha_init ((m @ used) @ a)"
      using a(4) by (simp only: sha_absorb_append)
    moreover have "64 dvd length (m @ used @ a)"
      using dvd_add [OF \<open>64 dvd length (m @ used)\<close> a(2)] by (simp add: add.assoc)
    ultimately show ?thesis
      using a used(1) upd take_blit [of 0 r "sha_buffer s1"]
      by (auto simp: sha_core_def intro!: exI [of _ "m @ used @ a"])
  qed
  moreover have "sha_total (Sha256_update bs s) = of_nat (length (m @ bs))"
    using assms used(4) upd by (simp add: sha_abs_def)
  ultimately show ?thesis by (simp add: sha_abs_def)
qed (use assms in \<open>simp add: Sha256_update_def\<close>)

lemma be64_loop: "map (\<lambda>i. ucast (drop_bit (56 - i * 8) v) :: u8) [0..<8] = put_be 8 (v :: u64)"
  by (simp add: eval_nat_numeral ucast_and_255)

lemma sha_digest_eq: "length st = 8 \<Longrightarrow> sha_digest st = concat (map (put_be 4) st)"
proof -
  assume "length st = 8"
  then have "st = map ((!) st) [0..<8]" by (metis map_nth)
  moreover have "put_be 4 v = [ucast (drop_bit 24 v), ucast (drop_bit 16 v), ucast (drop_bit 8 v),
      ucast v]" for v :: u32
    by (simp add: eval_nat_numeral ucast_and_255)
  ultimately have "map (put_be 4) st = map (\<lambda>i. [ucast (drop_bit 24 (st ! i)),
      ucast (drop_bit 16 (st ! i)), ucast (drop_bit 8 (st ! i)), ucast (st ! i)]) [0..<8]"
    by (metis (no_types, lifting) map_map comp_apply map_eq_conv)
  then show ?thesis by (simp only: sha_digest_def)
qed

lemma length_sha_block [simp]: "length (sha_block data st) = 8"
  by (simp add: sha_block_def split: prod.splits)

text \<open>Filling a buffer from index \<open>b\<close> to its end.\<close>

lemma blit_to_end: "b + length xs = length buf \<Longrightarrow> blit b xs buf = take b buf @ xs"
  by (simp add: blit_def)

lemma blit_after: "b < length buf \<Longrightarrow> b + 1 + length xs \<le> length buf \<Longrightarrow>
    blit (Suc b) xs (buf[b := x]) = blit b (x # xs) buf"
  using blit_append [of b "[x]" xs buf] by (simp add: blit_single)

lemma pad_short: "b < 56 \<Longrightarrow> (119 - b) mod 64 = 55 - (b :: nat)"
  by (simp add: mod_if)

lemma Sha256_finish_spec:
  assumes "sha_abs m s"
  shows "fst (Sha256_finish s) = sha256_spec m"
proof -
  define b buf len where "b = sha_buffered s" and "buf = sha_buffer s"
    and "len = put_be 8 (of_nat (8 * length m) :: u64)"
  from assms obtain a where a: "m = a @ take b buf" "64 dvd length a"
      "sha_state s = sha_absorb sha_init a" and b: "b < 64" "length buf = 64"
      and tot: "sha_total s * 8 = of_nat (8 * length m)"
    by (auto simp: sha_abs_def sha_core_def b_def buf_def)
  have mod: "length m mod 64 = b" using a(1,2) b by (auto simp: min_absorb2)
  have len8: "length len = 8" by (simp add: len_def)
  show ?thesis
  proof (cases "b < 56")
    case True
    let ?blk = "take b buf @ 0x80 # replicate (55 - b) 0 @ len"
    have "sha_pad m = m @ 0x80 # replicate (55 - b) 0 @ len"
      by (simp add: sha_pad_def mod len_def pad_short [OF True])
    then have pad: "sha_pad m = a @ ?blk"
      by (simp add: a(1) [symmetric] append_assoc [symmetric] del: append_assoc)
    have "blit 56 len (blit (Suc b) (replicate (55 - b) 0) (buf[b := 0x80])) = ?blk"
      using True b blit_append [of b "0x80 # replicate (55 - b) 0" len buf]
      by (simp add: blit_after len8 blit_to_end)
    then have "fst (Sha256_finish s) = sha_digest (sha_block ?blk (sha_state s))"
      using True unfolding Sha256_finish_def Let_def tot be64_loop b_def [symmetric] buf_def [symmetric]
        len_def [symmetric]
      by simp
    then show ?thesis
      using a(2,3) b True by (simp add: sha256_spec_def pad sha_absorb_append sha_absorb_one len8 sha_digest_eq)
  next
    case False
    let ?one = "take b buf @ 0x80 # replicate (63 - b) 0" and ?two = "replicate 56 0 @ len"
    have "(119 - b) mod 64 = 119 - b" "63 - b + 56 = 119 - b" using False b by simp_all
    then have "replicate ((119 - b) mod 64) (0 :: u8) = replicate (63 - b) 0 @ replicate 56 0"
      by (simp only: replicate_add [symmetric])
    then have "sha_pad m = m @ 0x80 # replicate (63 - b) 0 @ ?two"
      by (simp only: sha_pad_def mod len_def append.simps append_assoc)
    then have pad: "sha_pad m = a @ ?one @ ?two"
      by (simp add: a(1) [symmetric] append_assoc [symmetric] del: append_assoc)
    have one: "blit (Suc b) (replicate (63 - b) 0) (buf[b := 0x80]) = ?one"
      using b by (subst blit_after) (simp_all add: blit_to_end)
    have two: "blit 56 len (blit 0 (replicate 56 0) ?one) = ?two"
      using b False by (simp add: blit_def len8)
    have "fst (Sha256_finish s) = sha_digest (sha_block ?two (sha_block ?one (sha_state s)))"
      using False one two
      unfolding Sha256_finish_def Let_def tot be64_loop b_def [symmetric] buf_def [symmetric] len_def [symmetric]
      by simp
    moreover have "sha_absorb st (?one @ ?two) = sha_block ?two (sha_block ?one st)" for st
      using b False by (subst sha_absorb_append) (simp_all add: sha_absorb_one len8)
    ultimately show ?thesis
      by (simp only: sha256_spec_def pad sha_absorb_append [OF a(2)] sha_digest_eq length_sha_block a(3))
  qed
qed

subsection \<open>Properties\<close>

lemma sha_abs_updates: "sha_abs m s \<Longrightarrow> sha_abs (m @ concat parts) (fold Sha256_update parts s)"
  by (induction parts arbitrary: m s) (auto dest: sha_abs_update simp flip: append_assoc)

lemma sha256_eq_spec: "sha256 input = sha256_spec input"
  using sha_abs_update [OF sha_abs_new, of input] by (simp add: sha256_def Sha256_finish_spec)

lemma length_sha_absorb: "length st = 8 \<Longrightarrow> length (sha_absorb st bs) = 8"
  unfolding sha_absorb_def
  by (induction st bs rule: sha_blocks.induct) (simp add: sha_blocks.simps)

lemma length_sha256 [simp]: "length (sha256_spec m) = 32"
proof -
  have "length (concat (map (put_be 4) (ws :: u32 list))) = 4 * length ws" for ws
    by (induction ws) auto
  then show ?thesis by (simp add: sha256_spec_def length_sha_absorb sha_init_def)
qed

text \<open>C15: Feeding a message to the streaming hash in any number of pieces of any size yields the
  FIPS 180-4 digest of their concatenation, computed here from the padded message block by
  block, and leaves the object ready for the next message.\<close>

theorem sha256_streaming:
  "fst (Sha256_finish (fold Sha256_update parts Sha256_new)) = sha256_spec (concat parts) \<and>
   sha_abs [] (snd (Sha256_finish (fold Sha256_update parts Sha256_new)))"
proof -
  have abs: "sha_abs (concat parts) (fold Sha256_update parts Sha256_new)"
    using sha_abs_updates [OF sha_abs_new, of parts] by simp
  then have "length (sha_buffer (fold Sha256_update parts Sha256_new)) = 64"
    "sha_buffered (fold Sha256_update parts Sha256_new) < 64"
    by (simp_all add: sha_abs_def sha_core_def)
  then have "sha_abs [] (snd (Sha256_finish (fold Sha256_update parts Sha256_new)))"
    by (simp add: Sha256_finish_def Let_def sha_abs_def sha_core_def Sha256_reset_def
        sha_absorb_def sha_blocks_short split: if_splits)
  with Sha256_finish_spec [OF abs] show ?thesis by simp
qed

text \<open>C16: The multi-part MAC is HMAC (RFC 2104) of the concatenated parts, for keys shorter and
  longer than a block.\<close>

theorem hmac_sha256_correct:
  "hmac_sha256 key part_a part_b part_c = hmac_spec key (part_a @ part_b @ part_c)"
proof -
  have stream: "fst (Sha256_finish (fold Sha256_update parts Sha256_new)) = sha256_spec (concat parts)"
    for parts
    using sha_abs_updates [OF sha_abs_new, of parts] by (simp add: Sha256_finish_spec)
  let ?k = "if 64 < length key then sha256_spec key else key"
  have "(if 64 < length key then blit 0 (sha256 key) (replicate 64 0) else blit 0 key (replicate 64 0))
      = ?k @ replicate (64 - length ?k) 0"
    by (simp add: sha256_eq_spec blit_def)
  then show ?thesis
    using stream [of "[pad, part_a, part_b, part_c]" for pad] stream [of "[pad, inner]" for pad inner]
    unfolding hmac_sha256_def hmac_spec_def Let_def by simp
qed

lemma fold_or_zero:
  "fold (\<lambda>i diff. diff OR f i) xs d = (0 :: 'a::len word) \<longleftrightarrow> d = 0 \<and> (\<forall>i \<in> set xs. f i = 0)"
  by (induction xs arbitrary: d) (auto simp: or_eq_0_iff)

lemma xor_zero_iff: "x XOR y = (0 :: 'a::len word) \<longleftrightarrow> x = y"
  by (auto simp only: bit_eq_iff bit_xor_iff bit_0_eq bot_apply bot_bool_def)


end
