(* ===== verification/Wire_Frame.thy ===== *)
theory Wire_Frame
  imports Wire_Header Sha256_Hmac
begin

text \<open>
  The frame half of \<^verbatim>\<open>src/wire.cpp\<close>: sealing, opening and forwarding under the two AEAD
  layers. The abstract class \<^verbatim>\<open>SecurityProvider\<close> of \<^verbatim>\<open>include/routeloom/security.hpp\<close> is a
  record of its virtual functions over a provider state of any type; the cryptography
  behind it is a parameter of every definition here.

  A payload array with its size field is the list of its first \<open>size\<close> bytes.
\<close>

subsection \<open>Security contexts and providers\<close>

datatype SecurityScope = Scope_Link | Scope_EndToEnd | Scope_Group | Scope_GroupLink

record SecurityContext =
  sc_scope :: SecurityScope
  sc_network :: NetworkId
  sc_sender :: NodeId
  sc_receiver :: NodeId
  sc_epoch :: u32
  sc_group_epoch :: u32
  sc_sender_boot :: u32
  sc_group_id :: NodeId

record 's SecurityProvider =
  sp_ready :: "'s \<Rightarrow> bool"
  sp_tx_epoch :: "SecurityScope \<Rightarrow> NodeId \<Rightarrow> u32 \<Rightarrow> ('s, u32) prog"
  sp_tx_group_link_epochs :: "u32 \<Rightarrow> u32 \<Rightarrow> ('s, u32 \<times> u32) prog"
  sp_next_counter :: "SecurityContext \<Rightarrow> ('s, u64) prog"
  sp_seal :: "SecurityContext \<Rightarrow> u64 \<Rightarrow> bytes \<Rightarrow> bytes \<Rightarrow> ('s, bytes \<times> bytes) prog"
  sp_open :: "SecurityContext \<Rightarrow> u64 \<Rightarrow> bytes \<Rightarrow> bytes \<Rightarrow> bytes \<Rightarrow> ('s, bytes) prog"

record PlainFrame =
  pf_header :: Header
  pf_payload :: bytes

record LinkOpenedFrame =
  lo_header :: Header
  lo_protected :: bytes

abbreviation kGroupAddressBase :: NodeId where
  "kGroupAddressBase \<equiv> 0xFFFFFFFFFFFF0000"

definition is_group_address :: "NodeId \<Rightarrow> bool" where
  "is_group_address node \<longleftrightarrow> kGroupAddressBase < node"

definition link_context :: "Header \<Rightarrow> SecurityContext" where
  "link_context h =
     (if h_type h = FT_RouteUpdate \<and> h_next_hop h = kBroadcastNodeId
      then \<lparr>sc_scope = Scope_GroupLink, sc_network = h_network h, sc_sender = h_previous_hop h,
            sc_receiver = kBroadcastNodeId, sc_epoch = h_link_epoch h,
            sc_group_epoch = h_end_epoch h, sc_sender_boot = 0, sc_group_id = 0\<rparr>
      else \<lparr>sc_scope = Scope_Link, sc_network = h_network h, sc_sender = h_previous_hop h,
            sc_receiver = h_next_hop h, sc_epoch = h_link_epoch h,
            sc_group_epoch = 0, sc_sender_boot = 0, sc_group_id = 0\<rparr>)"

definition end_context :: "Header \<Rightarrow> SecurityContext" where
  "end_context h =
     (if h_type h = FT_GroupData
      then \<lparr>sc_scope = Scope_Group, sc_network = h_network h, sc_sender = h_origin h,
            sc_receiver = kBroadcastNodeId, sc_epoch = h_end_epoch h, sc_group_epoch = 0,
            sc_sender_boot = mid_session (h_message h), sc_group_id = h_destination h\<rparr>
      else \<lparr>sc_scope = Scope_EndToEnd, sc_network = h_network h, sc_sender = h_origin h,
            sc_receiver = h_destination h, sc_epoch = h_end_epoch h, sc_group_epoch = 0,
            sc_sender_boot = 0, sc_group_id = 0\<rparr>)"

definition stamp_link_epoch :: "'s SecurityProvider \<Rightarrow> Header \<Rightarrow> ('s, Header) prog" where
  "stamp_link_epoch sp h =
     (if h_next_hop h = kBroadcastNodeId
      then seq (sp_tx_group_link_epochs sp (h_link_epoch h) (h_end_epoch h))
             (\<lambda>(boot, g). ret (h\<lparr>h_link_epoch := boot, h_end_epoch := g\<rparr>))
      else seq (sp_tx_epoch sp Scope_Link (h_next_hop h) (h_link_epoch h))
             (\<lambda>epoch. ret (h\<lparr>h_link_epoch := epoch\<rparr>)))"

definition stamp_end_epoch :: "'s SecurityProvider \<Rightarrow> Header \<Rightarrow> ('s, Header) prog" where
  "stamp_end_epoch sp h =
     seq (sp_tx_epoch sp (sc_scope (end_context h)) (sc_receiver (end_context h)) (h_end_epoch h))
       (\<lambda>epoch. ret (h\<lparr>h_end_epoch := epoch\<rparr>))"

definition draw_link_counter :: "'s SecurityProvider \<Rightarrow> Header \<Rightarrow> ('s, Header) prog" where
  "draw_link_counter sp h =
     seq (sp_next_counter sp (link_context h)) (\<lambda>c. ret (h\<lparr>h_link_counter := c\<rparr>))"

definition draw_end_counter :: "'s SecurityProvider \<Rightarrow> Header \<Rightarrow> ('s, Header) prog" where
  "draw_end_counter sp h =
     seq (sp_next_counter sp (end_context h)) (\<lambda>c. ret (h\<lparr>h_end_counter := c\<rparr>))"

subsection \<open>The two layers\<close>

definition wrap_link :: "'s SecurityProvider \<Rightarrow> Header \<Rightarrow> bytes \<Rightarrow> ('s, bytes) prog" where
  "wrap_link sp h plaintext =
     stop_if (kMaxEspNowBody < kHeaderSize + length plaintext + kAeadTagSize)
       (Error NoCapacity ''encoded frame exceeds ESP-NOW v1 body'')
     (seq (lift (write_header h (View (replicate kHeaderSize 0)))) (\<lambda>hdr.
      seq (sp_seal sp (link_context h) (h_link_counter h) hdr plaintext) (\<lambda>(cipher, tag).
      ret (hdr @ cipher @ tag))))"

text \<open>
  The end layer: associated data, \<^verbatim>\<open>seal\<close>, and the tag appended to the ciphertext. The source
  writes this sequence out in \<^verbatim>\<open>encode_new\<close>, \<^verbatim>\<open>seal_end\<close> and \<^verbatim>\<open>seal_group\<close>.
\<close>

definition seal_end_layer :: "'s SecurityProvider \<Rightarrow> Header \<Rightarrow> bytes \<Rightarrow> ('s, bytes) prog" where
  "seal_end_layer sp h payload =
     seq (lift (make_end_aad h)) (\<lambda>aad.
     seq (sp_seal sp (end_context h) (h_end_counter h) aad payload) (\<lambda>(cipher, tag).
     ret (cipher @ tag)))"

text \<open>And its inverse, as in \<^verbatim>\<open>open_end\<close> and \<^verbatim>\<open>open_group\<close>.\<close>

definition open_end_layer :: "'s SecurityProvider \<Rightarrow> Header \<Rightarrow> bytes \<Rightarrow> ('s, bytes) prog" where
  "open_end_layer sp h protect =
     seq (lift (make_end_aad h)) (\<lambda>aad.
     sp_open sp (end_context h) (h_end_counter h) aad
       (take (unat (h_payload_length h)) protect)
       (take kAeadTagSize (drop (unat (h_payload_length h)) protect)))"

definition encode_new ::
  "'s SecurityProvider \<Rightarrow> PlainFrame \<Rightarrow> ('s, bytes \<times> LinkOpenedFrame option) prog" where
  "encode_new sp input = (\<lambda>s.
     stop_if (\<not> sp_ready sp s) (Error InvalidState ''security provider is not ready'')
     (stop_if (kMaxApplicationPayload < length (pf_payload input))
       (Error InvalidArgument ''application payload too large'')
     (let header = (pf_header input)\<lparr>h_payload_length := of_nat (length (pf_payload input))\<rparr> in
      seq (lift (validate_header header)) (\<lambda>_.
      seq (stamp_link_epoch sp header) (\<lambda>header.
      stop_if (h_next_hop header = kBroadcastNodeId \<and> (h_link_epoch header = 0 \<or> h_end_epoch header = 0))
        (Error AuthRequired ''GroupLink epochs unavailable'')
      (seq (if end_protected header then stamp_end_epoch sp header else ret header) (\<lambda>header.
      seq (draw_link_counter sp header) (\<lambda>header.
      if end_protected header
      then seq (draw_end_counter sp header) (\<lambda>header.
           seq (seal_end_layer sp header (pf_payload input)) (\<lambda>plain.
           seq (wrap_link sp header plain) (\<lambda>frame.
           ret (frame, Some \<lparr>lo_header = header, lo_protected = plain\<rparr>))))
      else seq (wrap_link sp header (pf_payload input)) (\<lambda>frame. ret (frame, None))))))))) s)"

definition retry_local ::
  "'s SecurityProvider \<Rightarrow> LinkOpenedFrame \<Rightarrow> NodeId \<Rightarrow> u32 \<Rightarrow> ('s, bytes) prog" where
  "retry_local sp sealed next_hop remaining_deadline_ms =
     (let original = lo_header sealed in
      stop_if (\<not> end_protected original \<or>
          kMaxApplicationPayload < unat (h_payload_length original) \<or>
          length (lo_protected sealed) \<noteq> unat (h_payload_length original) + kAeadTagSize \<or>
          next_hop = kInvalidNodeId \<or> remaining_deadline_ms = 0)
        (Error InvalidArgument ''invalid cached End envelope'')
      (seq (stamp_link_epoch sp (original\<lparr>h_next_hop := next_hop,
          h_remaining_deadline_ms := min remaining_deadline_ms (h_remaining_deadline_ms original)\<rparr>)) (\<lambda>header.
       seq (draw_link_counter sp header) (\<lambda>header.
       wrap_link sp header (lo_protected sealed)))))"

definition seal_end ::
  "'s SecurityProvider \<Rightarrow> PlainFrame \<Rightarrow> u64 \<Rightarrow> u32 \<Rightarrow> bool \<Rightarrow>
     ('s, LinkOpenedFrame \<times> u64 \<times> u32) prog" where
  "seal_end sp input end_counter end_epoch replay = (\<lambda>s.
     stop_if (\<not> sp_ready sp s) (Error InvalidState ''security provider is not ready'')
     (stop_if (kMaxApplicationPayload < length (pf_payload input))
       (Error InvalidArgument ''application payload too large'')
     (let header = (pf_header input)\<lparr>h_payload_length := of_nat (length (pf_payload input))\<rparr> in
      stop_if (\<not> end_protected header) (Error InvalidArgument ''frame is not End protected'')
      (let header = (if replay then header\<lparr>h_end_epoch := end_epoch, h_end_counter := end_counter\<rparr>
                     else header) in
       seq (lift (validate_header header)) (\<lambda>_.
       seq (if replay then ret header
            else seq (stamp_end_epoch sp header) (draw_end_counter sp)) (\<lambda>header.
       seq (seal_end_layer sp header (pf_payload input)) (\<lambda>plain.
       ret (\<lparr>lo_header = header, lo_protected = plain\<rparr>, h_end_counter header, h_end_epoch header))))))) s)"

definition expected_plain :: "Header \<Rightarrow> nat" where
  "expected_plain h = unat (h_payload_length h) + (if end_protected h then kAeadTagSize else 0)"

definition open_link ::
  "'s SecurityProvider \<Rightarrow> bytes \<Rightarrow> NodeId \<Rightarrow> bool \<Rightarrow> ('s, LinkOpenedFrame) prog" where
  "open_link sp encoded local_node allow_broadcast_route =
     seq (lift (read_header (View encoded))) (\<lambda>header.
     stop_if (h_next_hop header \<noteq> local_node \<and>
         \<not> (allow_broadcast_route \<and> h_type header = FT_RouteUpdate \<and>
            h_next_hop header = kBroadcastNodeId \<and> local_node \<noteq> kBroadcastNodeId))
       (Error AuthorizationFailed ''frame is not addressed to this hop'')
     (stop_if (h_next_hop header = kBroadcastNodeId \<and> (h_link_epoch header = 0 \<or> h_end_epoch header = 0))
       (Error ProtocolError ''invalid GroupLink epochs'')
     (stop_if (length encoded \<noteq> kHeaderSize + expected_plain header + kAeadTagSize \<or>
          kMaxApplicationPayload + kAeadTagSize < expected_plain header)
       (Error ProtocolError ''wire length mismatch'')
     (seq (sp_open sp (link_context header) (h_link_counter header) (take kHeaderSize encoded)
         (take (expected_plain header) (drop kHeaderSize encoded))
         (take kAeadTagSize (drop (kHeaderSize + expected_plain header) encoded))) (\<lambda>plain.
      ret \<lparr>lo_header = header, lo_protected = plain\<rparr>)))))"

definition open_end ::
  "'s SecurityProvider \<Rightarrow> LinkOpenedFrame \<Rightarrow> NodeId \<Rightarrow> ('s, PlainFrame) prog" where
  "open_end sp input local_node =
     (let h = lo_header input in
      stop_if (h_destination h \<noteq> local_node)
        (Error AuthorizationFailed ''end payload is not addressed to this node'')
      (stop_if (h_type h = FT_GroupData)
        (Error AuthorizationFailed ''group frame requires open_group'')
      (stop_if (kMaxApplicationPayload < unat (h_payload_length h) \<or>
          kMaxApplicationPayload + kAeadTagSize < length (lo_protected input))
        (Error ProtocolError ''frame field out of range'')
      (if \<not> end_protected h
       then stop_if (length (lo_protected input) \<noteq> unat (h_payload_length h))
              (Error ProtocolError ''plain control payload length mismatch'')
              (ret \<lparr>pf_header = h, pf_payload = lo_protected input\<rparr>)
       else stop_if (length (lo_protected input) \<noteq> unat (h_payload_length h) + kAeadTagSize)
              (Error ProtocolError ''protected payload length mismatch'')
              (seq (open_end_layer sp h (lo_protected input)) (\<lambda>payload.
               ret \<lparr>pf_header = h, pf_payload = payload\<rparr>))))))"

definition forward ::
  "'s SecurityProvider \<Rightarrow> LinkOpenedFrame \<Rightarrow> NodeId \<Rightarrow> NodeId \<Rightarrow> u32 \<Rightarrow> u32 \<Rightarrow> ('s, bytes) prog" where
  "forward sp input local_node next_hop link_epoch remaining_deadline_ms =
     (let h = lo_header input in
      stop_if (h_next_hop h \<noteq> local_node \<or> h_destination h = local_node \<or>
          next_hop = kInvalidNodeId \<or> next_hop = local_node)
        (Error InvalidState ''frame is not forwardable by this node'')
      (stop_if (kMaxApplicationPayload < unat (h_payload_length h) \<or>
          length (lo_protected input) \<noteq> expected_plain h)
        (Error ProtocolError ''frame field out of range'')
      (stop_if (h_hop_remaining h \<le> 1 \<or> remaining_deadline_ms = 0)
        (Error Expired ''forwarding budget exhausted'')
      (seq (stamp_link_epoch sp (h\<lparr>h_previous_hop := local_node, h_next_hop := next_hop,
          h_link_epoch := link_epoch, h_hop_remaining := h_hop_remaining h - 1,
          h_remaining_deadline_ms := min remaining_deadline_ms (h_remaining_deadline_ms h)\<rparr>)) (\<lambda>header.
       seq (draw_link_counter sp header) (\<lambda>header.
       wrap_link sp header (lo_protected input)))))))"

definition seal_group ::
  "'s SecurityProvider \<Rightarrow> PlainFrame \<Rightarrow> NodeId \<Rightarrow> ('s, LinkOpenedFrame) prog" where
  "seal_group sp input local_node = (\<lambda>s.
     (let h = pf_header input in
      stop_if (\<not> sp_ready sp s) (Error InvalidState ''security provider is not ready'')
      (stop_if (h_type h \<noteq> FT_GroupData \<or> \<not> end_protected h \<or>
          \<not> is_group_address (h_destination h) \<or> local_node = kInvalidNodeId \<or>
          h_origin h \<noteq> local_node \<or> h_hop_remaining h = 0xFF \<or> h_hop_remaining h = 0)
        (Error InvalidArgument ''not a sealable group frame'')
      (stop_if (kMaxApplicationPayload < length (pf_payload input))
        (Error InvalidArgument ''application payload too large'')
      (let header = h\<lparr>h_payload_length := of_nat (length (pf_payload input)),
          h_previous_hop := local_node, h_next_hop := local_node,
          h_hop_remaining := h_hop_remaining h + 1, h_link_counter := 0\<rparr> in
       seq (lift (validate_header header)) (\<lambda>_.
       seq (stamp_end_epoch sp header) (\<lambda>header.
       seq (draw_end_counter sp header) (\<lambda>header.
       seq (seal_end_layer sp header (pf_payload input)) (\<lambda>plain.
       ret \<lparr>lo_header = header, lo_protected = plain\<rparr>)))))))) s)"

definition open_group :: "'s SecurityProvider \<Rightarrow> LinkOpenedFrame \<Rightarrow> ('s, PlainFrame) prog" where
  "open_group sp input =
     (let h = lo_header input in
      stop_if (h_type h \<noteq> FT_GroupData \<or> \<not> end_protected h \<or> \<not> is_group_address (h_destination h))
        (Error AuthorizationFailed ''not a group frame'')
      (stop_if (kMaxApplicationPayload < unat (h_payload_length h) \<or>
          kMaxApplicationPayload + kAeadTagSize < length (lo_protected input) \<or>
          length (lo_protected input) \<noteq> unat (h_payload_length h) + kAeadTagSize)
        (Error ProtocolError ''protected payload length mismatch'')
      (seq (open_end_layer sp h (lo_protected input)) (\<lambda>payload.
       ret \<lparr>pf_header = h, pf_payload = payload\<rparr>))))"

definition transit_domain :: bytes where
  "transit_domain = map of_char ''RouteLoom/transit-fingerprint/v1'' @ [0]"

definition transit_fingerprint :: "LinkOpenedFrame \<Rightarrow> bytes result" where
  "transit_fingerprint frame =
     and_then (make_end_aad (lo_header frame)) (\<lambda>aad.
     and_then (fail_if (kMaxApplicationPayload + kAeadTagSize < length (lo_protected frame))
       (Error ProtocolError ''protected payload range'')) (\<lambda>_.
     Inr (fst (Sha256_finish (Sha256_update (lo_protected frame)
       (Sha256_update aad (Sha256_update transit_domain Sha256_new)))))))"

subsection \<open>What the two layers do\<close>

lemma wrap_link_Inr:
  assumes "wrap_link sp h p s = (Inr f, s')"
  shows "\<exists>c t. sp_seal sp (link_context h) (h_link_counter h) (header_bytes h) p s = (Inr (c, t), s') \<and>
      f = header_bytes h @ c @ t"
    and "kHeaderSize + length p + kAeadTagSize \<le> kMaxEspNowBody"
    and "h_network h \<le> 0xFFFFFFFF" "h_link_counter h \<le> kMaxCryptoCounter"
      "h_end_counter h \<le> kMaxCryptoCounter"
proof -
  from assms obtain hdr s1 c t where
    w: "write_header h (View (replicate kHeaderSize 0)) = Inr hdr" and
    s: "sp_seal sp (link_context h) (h_link_counter h) hdr p s = (Inr (c, t), s')" "f = hdr @ c @ t"
    and len: "kHeaderSize + length p + kAeadTagSize \<le> kMaxEspNowBody"
    by (auto simp: wrap_link_def split: if_splits)
  from write_header_Inr [OF w] have
    b: "h_network h \<le> 0xFFFFFFFF" "h_link_counter h \<le> kMaxCryptoCounter"
      "h_end_counter h \<le> kMaxCryptoCounter" by auto
  from write_header_eq [of "replicate kHeaderSize 0" h] b w have "hdr = header_bytes h" by simp
  with s b len show "\<exists>c t. sp_seal sp (link_context h) (h_link_counter h) (header_bytes h) p s =
      (Inr (c, t), s') \<and> f = header_bytes h @ c @ t"
    "kHeaderSize + length p + kAeadTagSize \<le> kMaxEspNowBody" "h_network h \<le> 0xFFFFFFFF"
    "h_link_counter h \<le> kMaxCryptoCounter" "h_end_counter h \<le> kMaxCryptoCounter"
    by auto
qed

lemma stamp_link_epoch_Inr:
  "stamp_link_epoch sp h s = (Inr g, s') \<Longrightarrow> h_next_hop h \<noteq> kBroadcastNodeId \<Longrightarrow>
     \<exists>e. g = h\<lparr>h_link_epoch := e\<rparr>"
  by (auto simp: stamp_link_epoch_def)

lemma stamp_end_epoch_Inr:
  "stamp_end_epoch sp h s = (Inr g, s') \<Longrightarrow> \<exists>e. g = h\<lparr>h_end_epoch := e\<rparr>"
  by (auto simp: stamp_end_epoch_def)

lemma draw_link_counter_Inr:
  "draw_link_counter sp h s = (Inr g, s') \<Longrightarrow> \<exists>c. g = h\<lparr>h_link_counter := c\<rparr>"
  by (auto simp: draw_link_counter_def)

lemma draw_end_counter_Inr:
  "draw_end_counter sp h s = (Inr g, s') \<Longrightarrow> \<exists>c. g = h\<lparr>h_end_counter := c\<rparr>"
  by (auto simp: draw_end_counter_def)

text \<open>The headers a relay may emit: \<open>h\<close> with its hop-mutable fields rewritten.\<close>

definition rehop :: "Header \<Rightarrow> NodeId \<Rightarrow> NodeId \<Rightarrow> u32 \<Rightarrow> u8 \<Rightarrow> u32 \<Rightarrow> u64 \<Rightarrow> Header" where
  "rehop h prev next epoch hops deadline counter =
     h\<lparr>h_previous_hop := prev, h_next_hop := next, h_hop_remaining := hops,
       h_remaining_deadline_ms := deadline, h_link_epoch := epoch, h_link_counter := counter\<rparr>"

lemma rehop_end_equal [simp]: "end_equal (rehop h prev next epoch hops deadline counter) h"
  by (simp add: rehop_def end_equal_def)

lemma rehop_simps [simp]:
  "h_next_hop (rehop h prev next epoch hops deadline counter) = next"
  "h_destination (rehop h prev next epoch hops deadline counter) = h_destination h"
  "h_hop_remaining (rehop h prev next epoch hops deadline counter) = hops"
  "h_payload_length (rehop h prev next epoch hops deadline counter) = h_payload_length h"
  "h_type (rehop h prev next epoch hops deadline counter) = h_type h"
  "h_remaining_deadline_ms (rehop h prev next epoch hops deadline counter) = deadline"
  "h_previous_hop (rehop h prev next epoch hops deadline counter) = prev"
  "h_link_counter (rehop h prev next epoch hops deadline counter) = counter"
  "end_protected (rehop h prev next epoch hops deadline counter) = end_protected h"
  "expected_plain (rehop h prev next epoch hops deadline counter) = expected_plain h"
  by (simp_all add: rehop_def end_protected_def expected_plain_def)

lemma forward_Inr:
  assumes "forward sp lo n next epoch dl s = (Inr f, s')" "next \<noteq> kBroadcastNodeId"
  obtains e c s1 where
    "wrap_link sp (rehop (lo_header lo) n next e (h_hop_remaining (lo_header lo) - 1)
       (min dl (h_remaining_deadline_ms (lo_header lo))) c) (lo_protected lo) s1 = (Inr f, s')"
    "h_next_hop (lo_header lo) = n" "h_destination (lo_header lo) \<noteq> n" "next \<noteq> kInvalidNodeId"
    "next \<noteq> n" "1 < h_hop_remaining (lo_header lo)" "dl \<noteq> 0"
    "length (lo_protected lo) = expected_plain (lo_header lo)"
proof -
  from assms obtain g s1 s2 g' where
    st: "stamp_link_epoch sp ((lo_header lo)\<lparr>h_previous_hop := n, h_next_hop := next,
          h_link_epoch := epoch, h_hop_remaining := h_hop_remaining (lo_header lo) - 1,
          h_remaining_deadline_ms := min dl (h_remaining_deadline_ms (lo_header lo))\<rparr>) s = (Inr g, s1)"
      "draw_link_counter sp g s1 = (Inr g', s2)" "wrap_link sp g' (lo_protected lo) s2 = (Inr f, s')"
    and grd: "h_next_hop (lo_header lo) = n" "h_destination (lo_header lo) \<noteq> n"
      "next \<noteq> kInvalidNodeId" "next \<noteq> n" "\<not> h_hop_remaining (lo_header lo) \<le> 1" "dl \<noteq> 0"
      "length (lo_protected lo) = expected_plain (lo_header lo)"
    by (auto simp: forward_def Let_def split: if_splits)
  from stamp_link_epoch_Inr [OF st(1)] draw_link_counter_Inr [OF st(2)] assms(2)
  obtain e c where "g' = rehop (lo_header lo) n next e (h_hop_remaining (lo_header lo) - 1)
       (min dl (h_remaining_deadline_ms (lo_header lo))) c"
    by (auto simp: rehop_def)
  with st(3) grd that show thesis by (auto simp: not_le)
qed

lemma rehop_valid:
  assumes "validate_header h = Inr ()" "h_next_hop h \<noteq> kBroadcastNodeId"
    and "prev \<noteq> kInvalidNodeId" "next \<noteq> kInvalidNodeId" "next \<noteq> kBroadcastNodeId"
    and "hops \<noteq> 0" "deadline \<le> h_remaining_deadline_ms h" "counter \<le> kMaxCryptoCounter"
  shows "validate_header (rehop h prev next epoch hops deadline counter) = Inr ()"
  using assms order_trans [OF assms(7), of "h_original_lifetime_ms h"]
  by (auto simp: validate_header_def rehop_def leD not_less split: if_splits)

subsection \<open>What is assumed of a security provider\<close>

text \<open>
  The documented behaviour of an AEAD provider, as named hypotheses. \<open>seals_sized\<close>: a sealed
  text has the size of the plaintext and a 16-byte tag. \<open>opens_fresh\<close>: a receiver that has not
  seen the frame opens what the sender sealed, under the same context, counter and associated
  data. \<open>working\<close>: a ready provider with sessions and counters left, in the states \<open>good\<close>.
\<close>

definition seals_sized :: "'s SecurityProvider \<Rightarrow> bool" where
  "seals_sized sp \<longleftrightarrow>
     (\<forall>ctx n aad p s c t s'. sp_seal sp ctx n aad p s = (Inr (c, t), s') \<longrightarrow>
        length c = length p \<and> length t = kAeadTagSize)"

definition opens_fresh ::
  "SecurityScope \<Rightarrow> 's SecurityProvider \<Rightarrow> 't SecurityProvider \<Rightarrow> 't \<Rightarrow> bool" where
  "opens_fresh scope sp rp r \<longleftrightarrow>
     (\<forall>ctx n aad p s c t s'. sc_scope ctx = scope \<longrightarrow> sp_seal sp ctx n aad p s = (Inr (c, t), s') \<longrightarrow>
        (\<exists>r'. sp_open rp ctx n aad c t r = (Inr p, r')))"

definition working :: "'s SecurityProvider \<Rightarrow> ('s \<Rightarrow> bool) \<Rightarrow> bool" where
  "working sp good \<longleftrightarrow>
     (\<forall>s. good s \<longrightarrow>
        sp_ready sp s \<and>
        (\<forall>scope peer e. \<exists>e' s'. sp_tx_epoch sp scope peer e s = (Inr e', s') \<and> good s') \<and>
        (\<forall>ctx. \<exists>n s'. sp_next_counter sp ctx s = (Inr n, s') \<and> n \<le> kMaxCryptoCounter \<and> good s') \<and>
        (\<forall>ctx n aad p. \<exists>c t s'. sp_seal sp ctx n aad p s = (Inr (c, t), s') \<and> good s') \<and>
        (\<forall>ctx n aad c t p s'. sp_open sp ctx n aad c t s = (Inr p, s') \<longrightarrow> good s'))"

text \<open>
  A network of nodes with one provider each, in provider states from which frames flow:
  every node opens a fresh link frame, and after it a fresh end layer of the given scope.
\<close>

definition secured ::
  "SecurityScope \<Rightarrow> (NodeId \<Rightarrow> 's SecurityProvider) \<Rightarrow> (NodeId \<Rightarrow> 's) \<Rightarrow> ('s \<Rightarrow> bool) \<Rightarrow> bool" where
  "secured scope prov st good \<longleftrightarrow>
     (\<forall>a. working (prov a) good \<and> good (st a) \<and> seals_sized (prov a)) \<and>
     (\<forall>a b. opens_fresh Scope_Link (prov a) (prov b) (st b)) \<and>
     (\<forall>a b ctx n aad c t p r. sc_scope ctx = Scope_Link \<longrightarrow>
        sp_open (prov b) ctx n aad c t (st b) = (Inr p, r) \<longrightarrow>
        opens_fresh scope (prov a) (prov b) r)"

lemma workingD:
  assumes "working sp good" "good s"
  shows "sp_ready sp s"
    and "\<exists>e' s'. sp_tx_epoch sp scope peer e s = (Inr e', s') \<and> good s'"
    and "\<exists>n s'. sp_next_counter sp ctx s = (Inr n, s') \<and> n \<le> kMaxCryptoCounter \<and> good s'"
    and "\<exists>c t s'. sp_seal sp ctx n aad p s = (Inr (c, t), s') \<and> good s'"
    and "sp_open sp ctx n aad c t s = (Inr p, s') \<Longrightarrow> good s'"
proof -
  note w = assms(1) [unfolded working_def, THEN spec, THEN mp, OF assms(2)]
  show "sp_ready sp s" by (rule w [THEN conjunct1])
  show "\<exists>e' s'. sp_tx_epoch sp scope peer e s = (Inr e', s') \<and> good s'"
    by (rule w [THEN conjunct2, THEN conjunct1, THEN spec, THEN spec, THEN spec])
  show "\<exists>n s'. sp_next_counter sp ctx s = (Inr n, s') \<and> n \<le> kMaxCryptoCounter \<and> good s'"
    by (rule w [THEN conjunct2, THEN conjunct2, THEN conjunct1, THEN spec])
  show "\<exists>c t s'. sp_seal sp ctx n aad p s = (Inr (c, t), s') \<and> good s'"
    by (rule w [THEN conjunct2, THEN conjunct2, THEN conjunct2, THEN conjunct1, THEN spec, THEN spec,
          THEN spec, THEN spec])
  show "sp_open sp ctx n aad c t s = (Inr p, s') \<Longrightarrow> good s'"
    using w [THEN conjunct2, THEN conjunct2, THEN conjunct2, THEN conjunct2] by blast
qed

subsection \<open>One hop\<close>

lemma link_context_unicast: "h_next_hop h \<noteq> kBroadcastNodeId \<Longrightarrow> sc_scope (link_context h) = Scope_Link"
  by (simp add: link_context_def)

text \<open>What one node wraps for the next hop, that hop opens.\<close>

lemma open_wrap:
  assumes wrap: "wrap_link sp h p s = (Inr f, s')"
    and "validate_header h = Inr ()" "h_next_hop h \<noteq> kBroadcastNodeId" "length p = expected_plain h"
    and "seals_sized sp" "opens_fresh Scope_Link sp rp r"
  obtains r' where "open_link rp f (h_next_hop h) b r = (Inr \<lparr>lo_header = h, lo_protected = p\<rparr>, r')"
    "\<exists>n aad c t. sp_open rp (link_context h) n aad c t r = (Inr p, r')"
proof -
  from wrap_link_Inr(1) [OF wrap] obtain c t where
    ct: "sp_seal sp (link_context h) (h_link_counter h) (header_bytes h) p s = (Inr (c, t), s')"
      "f = header_bytes h @ c @ t" by auto
  with assms(5) have len: "length c = expected_plain h" "length t = kAeadTagSize"
    unfolding seals_sized_def assms(4) [symmetric] by blast+
  from assms(6) ct(1) link_context_unicast [OF assms(3)] obtain r' where
    op: "sp_open rp (link_context h) (h_link_counter h) (header_bytes h) c t r = (Inr p, r')"
    unfolding opens_fresh_def by blast
  have small: "expected_plain h \<le> kMaxApplicationPayload + kAeadTagSize"
    using validate_headerD(5) [OF assms(2)] by (simp add: expected_plain_def)
  have "read_header (View f) = Inr h"
    unfolding ct(2) by (rule read_header_bytes [OF assms(2)]) (simp add: len)
  then have "open_link rp f (h_next_hop h) b r = (Inr \<lparr>lo_header = h, lo_protected = p\<rparr>, r')"
    using assms(3) ct(2) len small op by (simp add: open_link_def seq_def)
  with op that show thesis by blast
qed

lemma wrap_link_ok:
  assumes "working sp good" "good s" "validate_header h = Inr ()" "length p = expected_plain h"
  obtains f s' where "wrap_link sp h p s = (Inr f, s')"
proof -
  note v = validate_headerD [OF assms(3)]
  have "length p \<le> kMaxApplicationPayload + kAeadTagSize"
    using v(5) by (simp add: assms(4) expected_plain_def)
  moreover obtain c t s' where
    "sp_seal sp (link_context h) (h_link_counter h) (header_bytes h) p s = (Inr (c, t), s')"
    using workingD(4) [OF assms(1,2)] by blast
  ultimately have "wrap_link sp h p s = (Inr (header_bytes h @ c @ t), s')"
    using v by (simp add: wrap_link_def write_header_eq seq_def)
  then show thesis by (rule that)
qed

lemma forward_ok:
  assumes "working sp good" "good s" "validate_header (lo_header lo) = Inr ()"
    and "h_next_hop (lo_header lo) = n" "h_destination (lo_header lo) \<noteq> n"
    and "n \<noteq> kInvalidNodeId" "n \<noteq> kBroadcastNodeId"
    and "nxt \<noteq> kInvalidNodeId" "nxt \<noteq> n" "nxt \<noteq> kBroadcastNodeId"
    and "1 < h_hop_remaining (lo_header lo)" "dl \<noteq> 0"
    and "length (lo_protected lo) = expected_plain (lo_header lo)"
  obtains f s' where "forward sp lo n nxt epoch dl s = (Inr f, s')"
proof -
  let ?h = "lo_header lo"
  obtain e s1 where e: "sp_tx_epoch sp Scope_Link nxt epoch s = (Inr e, s1)" "good s1"
    using workingD(2) [OF assms(1,2)] by blast
  let ?g = "?h\<lparr>h_previous_hop := n, h_next_hop := nxt, h_hop_remaining := h_hop_remaining ?h - 1,
      h_remaining_deadline_ms := min dl (h_remaining_deadline_ms ?h), h_link_epoch := e\<rparr>"
  obtain c s2 where c: "sp_next_counter sp (link_context ?g) s1 = (Inr c, s2)" "c \<le> kMaxCryptoCounter"
      "good s2"
    using workingD(3) [OF assms(1) e(2)] by blast
  let ?r = "rehop ?h n nxt e (h_hop_remaining ?h - 1) (min dl (h_remaining_deadline_ms ?h)) c"
  have "h_hop_remaining ?h - 1 \<noteq> 0" using assms(11) by auto
  then have "validate_header ?r = Inr ()"
    using assms c(2) by (intro rehop_valid) auto
  from wrap_link_ok [OF assms(1) c(3) this, of "lo_protected lo"] assms(13) obtain f s' where
    "wrap_link sp ?r (lo_protected lo) s2 = (Inr f, s')" by auto
  moreover have "\<not> h_hop_remaining ?h \<le> 1" "\<not> kMaxApplicationPayload < unat (h_payload_length ?h)"
    using assms(11) validate_headerD(5) [OF assms(3)] by simp_all
  ultimately have "forward sp lo n nxt epoch dl s = (Inr f, s')"
    using assms(4-) e(1) c(1)
    by (simp add: forward_def stamp_link_epoch_def draw_link_counter_def seq_def rehop_def Let_def)
  then show thesis by (rule that)
qed

subsection \<open>A path of relays\<close>

text \<open>
  One relay: link-open the received frame and forward it. A hop names the relay, the next
  hop it chose, its configured link epoch and the remaining deadline it computed.
\<close>

type_synonym hop = "NodeId \<times> NodeId \<times> u32 \<times> u32"

fun relay :: "(NodeId \<Rightarrow> 's SecurityProvider) \<Rightarrow> (NodeId \<Rightarrow> 's) \<Rightarrow> hop \<Rightarrow> bytes \<Rightarrow> bytes result" where
  "relay prov st (n, next, epoch, dl) f =
     fst (seq (open_link (prov n) f n False) (\<lambda>lo. forward (prov n) lo n next epoch dl) (st n))"

fun relay_path ::
  "(NodeId \<Rightarrow> 's SecurityProvider) \<Rightarrow> (NodeId \<Rightarrow> 's) \<Rightarrow> hop list \<Rightarrow> bytes \<Rightarrow> bytes result" where
  "relay_path prov st [] f = Inr f"
| "relay_path prov st (hop # hops) f = and_then (relay prov st hop f) (relay_path prov st hops)"

text \<open>The hops lead from \<open>n\<close> to \<open>d\<close> over real nodes, never through \<open>d\<close> itself.\<close>

fun leads_to :: "NodeId \<Rightarrow> hop list \<Rightarrow> NodeId \<Rightarrow> bool" where
  "leads_to n [] d \<longleftrightarrow> n = d"
| "leads_to n ((m, next, epoch, dl) # hops) d \<longleftrightarrow>
     m = n \<and> n \<noteq> d \<and> n \<noteq> kInvalidNodeId \<and> next \<noteq> kInvalidNodeId \<and> next \<noteq> n \<and>
     next \<noteq> kBroadcastNodeId \<and> dl \<noteq> 0 \<and> leads_to next hops d"

text \<open>\<open>carries prov h p f\<close>: \<open>f\<close> is the frame some node wrapped for header \<open>h\<close> and body \<open>p\<close>.\<close>

definition carries :: "(NodeId \<Rightarrow> 's SecurityProvider) \<Rightarrow> Header \<Rightarrow> bytes \<Rightarrow> bytes \<Rightarrow> bool" where
  "carries prov h p f \<longleftrightarrow> (\<exists>a s s'. wrap_link (prov a) h p s = (Inr f, s'))"

lemma relay_step:
  assumes sec: "secured scope prov st good" and car: "carries prov h p f"
    and val: "validate_header h = Inr ()" and len: "length p = expected_plain h"
    and hop: "h_next_hop h = n" "n \<noteq> kBroadcastNodeId" "n \<noteq> kInvalidNodeId" "h_destination h \<noteq> n"
      "next \<noteq> kInvalidNodeId" "next \<noteq> n" "next \<noteq> kBroadcastNodeId" "dl \<noteq> 0" "1 < h_hop_remaining h"
  obtains f' h' where "relay prov st (n, next, epoch, dl) f = Inr f'" "carries prov h' p f'"
    "validate_header h' = Inr ()" "end_equal h' h" "h_next_hop h' = next"
    "h_hop_remaining h' = h_hop_remaining h - 1"
    "h_remaining_deadline_ms h' \<le> h_remaining_deadline_ms h"
proof -
  from car obtain a s s' where w: "wrap_link (prov a) h p s = (Inr f, s')" by (auto simp: carries_def)
  from sec have pa: "seals_sized (prov a)" "opens_fresh Scope_Link (prov a) (prov n) (st n)"
    and pn: "working (prov n) good" "good (st n)"
    by (auto simp: secured_def)
  let ?lo = "\<lparr>lo_header = h, lo_protected = p\<rparr>"
  obtain r where r: "open_link (prov n) f n False (st n) = (Inr ?lo, r)"
      "\<exists>k aad c t. sp_open (prov n) (link_context h) k aad c t (st n) = (Inr p, r)"
    by (rule open_wrap [OF w val _ len pa, of False]) (use hop(1,2) in auto)
  with workingD(5) [OF pn] have "good r" by blast
  from forward_ok [OF pn(1) this, of ?lo n "next" dl epoch] val len hop obtain f' s2 where
    fw: "forward (prov n) ?lo n next epoch dl r = (Inr f', s2)" by auto
  obtain e c s1 where
    w': "wrap_link (prov n) (rehop h n next e (h_hop_remaining h - 1)
       (min dl (h_remaining_deadline_ms h)) c) p s1 = (Inr f', s2)"
    by (rule forward_Inr [OF fw hop(7)]) auto
  have "h_hop_remaining h - 1 \<noteq> 0" using hop(9) by auto
  with rehop_valid [OF val] wrap_link_Inr(4) [OF w'] hop
  have "validate_header (rehop h n next e (h_hop_remaining h - 1)
       (min dl (h_remaining_deadline_ms h)) c) = Inr ()" by auto
  then show thesis
    using that w' r(1) fw by (fastforce simp: carries_def seq_def)
qed

lemma relay_path_delivers:
  assumes sec: "secured scope prov st good"
  shows "\<lbrakk>carries prov h p f; validate_header h = Inr (); length p = expected_plain h;
      h_next_hop h \<noteq> kBroadcastNodeId; leads_to (h_next_hop h) hops (h_destination h);
      length hops < unat (h_hop_remaining h)\<rbrakk> \<Longrightarrow>
    \<exists>f' h'. relay_path prov st hops f = Inr f' \<and> carries prov h' p f' \<and>
      validate_header h' = Inr () \<and> end_equal h' h \<and> h_next_hop h' = h_destination h \<and>
      unat (h_hop_remaining h') = unat (h_hop_remaining h) - length hops \<and>
      h_remaining_deadline_ms h' \<le> h_remaining_deadline_ms h"
proof (induction hops arbitrary: h f)
  case Nil
  then show ?case by (auto simp: end_equal_def)
next
  case (Cons hop hops)
  obtain m nxt epoch dl where hop: "hop = (m, nxt, epoch, dl)" by (cases hop) auto
  have big: "1 < h_hop_remaining h"
    using Cons.prems(6) by (simp add: word_less_nat_alt)
  have lead: "m = h_next_hop h" "h_next_hop h \<noteq> h_destination h" "h_next_hop h \<noteq> kInvalidNodeId"
    "nxt \<noteq> kInvalidNodeId" "nxt \<noteq> h_next_hop h" "nxt \<noteq> kBroadcastNodeId" "dl \<noteq> 0"
    "leads_to nxt hops (h_destination h)"
    using Cons.prems(5) by (auto simp: hop)
  obtain f1 h1 where step: "relay prov st hop f = Inr f1" "carries prov h1 p f1"
      "validate_header h1 = Inr ()" "end_equal h1 h" "h_next_hop h1 = nxt"
      "h_hop_remaining h1 = h_hop_remaining h - 1"
      "h_remaining_deadline_ms h1 \<le> h_remaining_deadline_ms h"
    using relay_step [OF sec Cons.prems(1-3) lead(1) [symmetric], of nxt dl epoch]
      Cons.prems(4) lead big unfolding hop lead(1) by metis
  have cnt: "unat (h_hop_remaining h1) = unat (h_hop_remaining h) - 1"
    unfolding step(6) using big by (subst unat_minus_one) auto
  have same: "length p = expected_plain h1" "h_destination h1 = h_destination h"
    using step(4) Cons.prems(3) by (simp_all add: end_equal_def expected_plain_def end_protected_def)
  have rem: "length hops < unat (h_hop_remaining h1)" using cnt Cons.prems(6) by simp
  from Cons.IH [OF step(2,3) same(1) _ _ rem] step(5) lead(6,8) same(2)
  obtain f2 h2 where "relay_path prov st hops f1 = Inr f2" "carries prov h2 p f2"
      "validate_header h2 = Inr ()" "end_equal h2 h1" "h_next_hop h2 = h_destination h"
      "unat (h_hop_remaining h2) = unat (h_hop_remaining h1) - length hops"
      "h_remaining_deadline_ms h2 \<le> h_remaining_deadline_ms h1" by auto
  with step cnt show ?case
    by (intro exI [of _ f2] exI [of _ h2]) (auto simp: end_equal_def)
qed

subsection \<open>Properties\<close>

lemma encode_new_end:
  assumes "working sp good" "good s" "end_protected (pf_header input)"
    and "length (pf_payload input) \<le> kMaxApplicationPayload"
    and "h_next_hop (pf_header input) \<noteq> kBroadcastNodeId" "seals_sized sp"
    and "validate_header ((pf_header input)\<lparr>h_payload_length := of_nat (length (pf_payload input))\<rparr>) = Inr ()"
  obtains f h p s1 s2 s3 s' where
    "encode_new sp input s = (Inr (f, Some \<lparr>lo_header = h, lo_protected = p\<rparr>), s')"
    "wrap_link sp h p s1 = (Inr f, s')" "seal_end_layer sp h (pf_payload input) s2 = (Inr p, s3)"
    "validate_header h = Inr ()" "length p = length (pf_payload input) + kAeadTagSize"
    "\<exists>le lc ee ec. h = (pf_header input)\<lparr>h_payload_length := of_nat (length (pf_payload input)),
       h_link_epoch := le, h_end_epoch := ee, h_link_counter := lc, h_end_counter := ec\<rparr>"
proof -
  let ?h0 = "(pf_header input)\<lparr>h_payload_length := of_nat (length (pf_payload input))\<rparr>"
  obtain le s1 where 1: "sp_tx_epoch sp Scope_Link (h_next_hop (pf_header input)) (h_link_epoch (pf_header input)) s
      = (Inr le, s1)" "good s1"
    using workingD(2) [OF assms(1,2)] by blast
  let ?h1 = "?h0\<lparr>h_link_epoch := le\<rparr>"
  obtain ee s2 where 2: "sp_tx_epoch sp (sc_scope (end_context ?h1)) (sc_receiver (end_context ?h1))
      (h_end_epoch (pf_header input)) s1 = (Inr ee, s2)" "good s2"
    using workingD(2) [OF assms(1) 1(2)] by blast
  let ?h2 = "?h1\<lparr>h_end_epoch := ee\<rparr>"
  obtain lc s3 where 3: "sp_next_counter sp (link_context ?h2) s2 = (Inr lc, s3)" "good s3"
      "lc \<le> kMaxCryptoCounter"
    using workingD(3) [OF assms(1) 2(2)] by blast
  let ?h3 = "?h2\<lparr>h_link_counter := lc\<rparr>"
  obtain ec s4 where 4: "sp_next_counter sp (end_context ?h3) s3 = (Inr ec, s4)" "good s4"
      "ec \<le> kMaxCryptoCounter"
    using workingD(3) [OF assms(1) 3(2)] by blast
  let ?h = "?h3\<lparr>h_end_counter := ec\<rparr>"
  obtain c t s5 where 5: "sp_seal sp (end_context ?h) ec (end_aad_bytes ?h) (pf_payload input) s4 =
      (Inr (c, t), s5)" "good s5"
    using workingD(4) [OF assms(1) 4(2)] by blast
  then have len: "length (c @ t) = length (pf_payload input) + kAeadTagSize"
    using assms(6) unfolding seals_sized_def by fastforce
  have val: "validate_header ?h = Inr ()"
    using assms(5,7) 3(3) 4(3) by (auto simp: validate_header_def leD split: if_splits)
  have exp: "length (c @ t) = expected_plain ?h"
    using assms(3,4) len by (simp add: expected_plain_def end_protected_def unat_of_nat)
  from wrap_link_ok [OF assms(1) 5(2) val exp] obtain f s' where w: "wrap_link sp ?h (c @ t) s5 = (Inr f, s')" .
  have layer: "seal_end_layer sp ?h (pf_payload input) s4 = (Inr (c @ t), s5)"
    using 4(3) 5(1) by (simp add: seal_end_layer_def make_end_aad_eq leD seq_def)
  have "encode_new sp input s = (Inr (f, Some \<lparr>lo_header = ?h, lo_protected = c @ t\<rparr>), s')"
    using assms(3-5,7) workingD(1) [OF assms(1,2)] 1(1) 2(1) 3(1) 4(1) layer w
    by (simp add: encode_new_def Let_def stamp_link_epoch_def stamp_end_epoch_def draw_link_counter_def
        draw_end_counter_def seq_def end_protected_def)
  then show thesis using that w layer val len by blast
qed

lemma end_context_cong: "end_equal g h \<Longrightarrow> end_context g = end_context h"
  by (simp add: end_equal_def end_context_def)

lemma seal_end_layer_Inr:
  assumes "seal_end_layer sp h payload s = (Inr p, s')"
  obtains c t where "sp_seal sp (end_context h) (h_end_counter h) (end_aad_bytes h) payload s = (Inr (c, t), s')"
    "p = c @ t" "h_end_counter h \<le> kMaxCryptoCounter"
  using assms by (auto simp: seal_end_layer_def make_end_aad_eq not_less split: if_splits)

lemma seal_end_layer_length:
  assumes "seal_end_layer sp h payload s = (Inr p, s')" "seals_sized sp"
  shows "length p = length payload + kAeadTagSize"
  by (rule seal_end_layer_Inr [OF assms(1)])
    (use assms(2) in \<open>auto simp: seals_sized_def dest!: spec\<close>)

lemma open_end_sealed:
  assumes seal: "seal_end_layer sp h payload s = (Inr p, s')"
    and eq: "end_equal g h" "end_protected h" "h_type h \<noteq> FT_GroupData"
    and len: "unat (h_payload_length h) = length payload" "length payload \<le> kMaxApplicationPayload"
    and prov: "seals_sized sp" "opens_fresh Scope_EndToEnd sp rp r"
  obtains r' where "open_end rp \<lparr>lo_header = g, lo_protected = p\<rparr> (h_destination h) r =
    (Inr \<lparr>pf_header = g, pf_payload = payload\<rparr>, r')"
proof -
  obtain c t where
    ct: "sp_seal sp (end_context h) (h_end_counter h) (end_aad_bytes h) payload s = (Inr (c, t), s')"
      "p = c @ t" and ctr: "h_end_counter h \<le> kMaxCryptoCounter"
    by (rule seal_end_layer_Inr [OF seal])
  with prov(1) have size: "length c = length payload" "length t = kAeadTagSize"
    unfolding seals_sized_def by blast+
  have "sc_scope (end_context h) = Scope_EndToEnd" using eq(3) by (simp add: end_context_def)
  with prov(2) ct(1) obtain r' where
    "sp_open rp (end_context h) (h_end_counter h) (end_aad_bytes h) c t r = (Inr payload, r')"
    unfolding opens_fresh_def by blast
  moreover have "h_destination g = h_destination h" "h_type g = h_type h" "end_protected g = end_protected h"
    "h_payload_length g = h_payload_length h" "h_end_counter g = h_end_counter h"
    using eq(1) by (simp_all add: end_equal_def end_protected_def)
  ultimately have "open_end rp \<lparr>lo_header = g, lo_protected = p\<rparr> (h_destination h) r =
      (Inr \<lparr>pf_header = g, pf_payload = payload\<rparr>, r')"
    using eq len ct(2) size leD [OF ctr]
    by (simp add: open_end_def open_end_layer_def make_end_aad_eq seq_def Let_def
        end_aad_bytes_cong [OF eq(1)] end_context_cong [OF eq(1)])
  then show thesis by (rule that)
qed

lemma leads_to_unicast: "leads_to n hops d \<Longrightarrow> n \<noteq> kBroadcastNodeId \<Longrightarrow> d \<noteq> kBroadcastNodeId"
  by (induction n hops d rule: leads_to.induct) auto

lemma destination_opens:
  assumes sec: "secured Scope_EndToEnd prov st good" and car: "carries prov g p f"
    and val: "validate_header g = Inr ()" and nxt: "h_next_hop g = d" "d \<noteq> kBroadcastNodeId"
    and seal: "seal_end_layer (prov a) h payload s = (Inr p, s')"
    and eq: "end_equal g h" "end_protected h" "h_type h \<noteq> FT_GroupData" "h_destination h = d"
    and len: "length p = expected_plain h" "unat (h_payload_length h) = length payload"
      "length payload \<le> kMaxApplicationPayload"
  shows "\<exists>lo r r'. open_link (prov d) f d False (st d) = (Inr lo, r) \<and>
    open_end (prov d) lo d r = (Inr \<lparr>pf_header = g, pf_payload = payload\<rparr>, r')"
proof -
  from car obtain b t t' where w: "wrap_link (prov b) g p t = (Inr f, t')" by (auto simp: carries_def)
  from sec have sz: "seals_sized (prov b)" "seals_sized (prov a)"
    and op: "opens_fresh Scope_Link (prov b) (prov d) (st d)" by (auto simp: secured_def)
  have nb: "h_next_hop g \<noteq> kBroadcastNodeId" using nxt by simp
  have "length p = expected_plain g"
    using len(1) eq(1) by (simp add: end_equal_def expected_plain_def end_protected_def)
  from open_wrap [OF w val nb this sz(1) op, of False] nxt(1) obtain r where
    r: "open_link (prov d) f d False (st d) = (Inr \<lparr>lo_header = g, lo_protected = p\<rparr>, r)"
      "\<exists>n aad c t. sp_open (prov d) (link_context g) n aad c t (st d) = (Inr p, r)" by metis
  with sec link_context_unicast [OF nb] have "opens_fresh Scope_EndToEnd (prov a) (prov d) r"
    unfolding secured_def by blast
  from open_end_sealed [OF seal eq(1-3) len(2,3) sz(2) this] r(1) eq(4) show ?thesis by metis
qed


text \<open>C10: Forwarding touches only hop-mutable fields. Whatever a relay emits toward a unicast
  next hop decodes, with the relay as previous hop and one hop less (never zero); its
  end-immutable fields, its end-layer associated data and its transit fingerprint are those
  of the received frame, and its deadline has not grown.\<close>

theorem forward_keeps_end_layer:
  assumes "forward sp lo n nxt epoch dl s = (Inr f, s')" "nxt \<noteq> kBroadcastNodeId"
    and "validate_header (lo_header lo) = Inr ()" "n \<noteq> kInvalidNodeId" "n \<noteq> kBroadcastNodeId"
    and "seals_sized sp"
  shows "\<exists>g. read_header (View f) = Inr g \<and> h_previous_hop g = n \<and> h_next_hop g = nxt \<and>
    unat (h_hop_remaining g) + 1 = unat (h_hop_remaining (lo_header lo)) \<and> h_hop_remaining g \<noteq> 0 \<and>
    h_remaining_deadline_ms g \<le> h_remaining_deadline_ms (lo_header lo) \<and>
    end_equal g (lo_header lo) \<and> make_end_aad g = make_end_aad (lo_header lo) \<and>
    transit_fingerprint \<lparr>lo_header = g, lo_protected = lo_protected lo\<rparr> = transit_fingerprint lo"
proof -
  let ?h = "lo_header lo"
  obtain e c s1 where
    w: "wrap_link sp (rehop ?h n nxt e (h_hop_remaining ?h - 1)
       (min dl (h_remaining_deadline_ms ?h)) c) (lo_protected lo) s1 = (Inr f, s')"
    and hop: "h_next_hop ?h = n" "nxt \<noteq> kInvalidNodeId" "1 < h_hop_remaining ?h"
    by (rule forward_Inr [OF assms(1,2)])
  let ?g = "rehop ?h n nxt e (h_hop_remaining ?h - 1) (min dl (h_remaining_deadline_ms ?h)) c"
  have pos: "h_hop_remaining ?h - 1 \<noteq> 0" using hop(3) by auto
  have val: "validate_header ?g = Inr ()"
    using assms hop pos wrap_link_Inr(4) [OF w] by (intro rehop_valid) auto
  from wrap_link_Inr(1) [OF w] obtain ci t where
    ct: "sp_seal sp (link_context ?g) (h_link_counter ?g) (header_bytes ?g) (lo_protected lo) s1 =
      (Inr (ci, t), s')" "f = header_bytes ?g @ ci @ t" by blast
  with assms(6) have "length t = kAeadTagSize" unfolding seals_sized_def by blast
  then have "read_header (View f) = Inr ?g"
    unfolding ct(2) by (intro read_header_bytes [OF val]) simp
  moreover have "unat (h_hop_remaining ?h - 1) + 1 = unat (h_hop_remaining ?h)"
    using hop(3) by (subst unat_minus_one) (auto simp: word_less_nat_alt)
  moreover have "end_equal ?g ?h" by (rule rehop_end_equal)
  moreover from end_aad_bytes_cong [OF this] have "make_end_aad ?g = make_end_aad ?h"
    by (simp add: make_end_aad_eq rehop_def)
  ultimately show ?thesis
    using pos by (intro exI [of _ ?g]) (simp add: transit_fingerprint_def)
qed

text \<open>A provider without cryptography: enough to see that the hypotheses can hold.\<close>

definition clear_provider :: "unit SecurityProvider" where
  "clear_provider =
     \<lparr>sp_ready = (\<lambda>_. True), sp_tx_epoch = (\<lambda>_ _ e. ret e), sp_tx_group_link_epochs = (\<lambda>b g. ret (b, g)),
      sp_next_counter = (\<lambda>_. ret 5), sp_seal = (\<lambda>_ _ _ p. ret (p, replicate kAeadTagSize 0)),
      sp_open = (\<lambda>_ _ _ c _. ret c)\<rparr>"

lemma clear_secured: "secured scope (\<lambda>_. clear_provider) (\<lambda>_. ()) (\<lambda>_. True)"
  by (simp add: secured_def working_def seals_sized_def opens_fresh_def clear_provider_def)

definition example_path :: "hop list" where
  "example_path = [(0x22, 0x33, 3, 800), (0x33, 0x44, 6, 700)]"


definition example_lo :: LinkOpenedFrame where
  "example_lo = \<lparr>lo_header = example_header, lo_protected = [1, 2, 3] @ replicate 16 0\<rparr>"

lemma clear_working: "working clear_provider (\<lambda>_. True)" "seals_sized clear_provider"
  using clear_secured unfolding secured_def by blast+

theorem forward_keeps_end_layer_witness:
  "\<exists>f s' g. forward clear_provider example_lo 0x22 0x33 3 800 () = (Inr f, s') \<and>
     read_header (View f) = Inr g \<and> make_end_aad g = make_end_aad example_header"
proof -
  have lo: "lo_header example_lo = example_header" "length (lo_protected example_lo) = 19"
    by (simp_all add: example_lo_def)
  obtain f s' where f: "forward clear_provider example_lo 0x22 0x33 3 800 () = (Inr f, s')"
    by (rule forward_ok [OF clear_working(1) TrueI, 
        where lo = example_lo and n = "0x22" and nxt = "0x33" and dl = 800 and epoch = 3])
      (use example_header_valid in
        \<open>simp_all add: lo, simp_all add: example_header_def expected_plain_def end_protected_def\<close>)
  from forward_keeps_end_layer [OF f] example_header_valid clear_working(2) f show ?thesis
    by (auto simp: lo)
qed

text \<open>Forward and open at the next hop, in one step.\<close>

lemma forward_opened:
  assumes sp: "working sp good" "good s" "seals_sized sp"
    and rp: "opens_fresh Scope_Link sp rp r0"
    and lo: "lo = \<lparr>lo_header = h, lo_protected = p\<rparr>" "validate_header h = Inr ()" "length p = expected_plain h"
    and hop: "h_next_hop h = n" "h_destination h \<noteq> n" "n \<noteq> kInvalidNodeId" "n \<noteq> kBroadcastNodeId"
      "nxt \<noteq> kInvalidNodeId" "nxt \<noteq> n" "nxt \<noteq> kBroadcastNodeId" "1 < h_hop_remaining h" "dl \<noteq> 0"
  obtains f s2 g r where "forward sp lo n nxt epoch dl s = (Inr f, s2)"
    "open_link rp f nxt False r0 = (Inr \<lparr>lo_header = g, lo_protected = p\<rparr>, r)"
    "\<exists>ctx k aad c t. sc_scope ctx = Scope_Link \<and> sp_open rp ctx k aad c t r0 = (Inr p, r)"
    "end_equal g h" "h_hop_remaining g = h_hop_remaining h - 1"
proof -
  obtain f s2 where fw: "forward sp lo n nxt epoch dl s = (Inr f, s2)"
    by (rule forward_ok [OF sp(1,2), of lo n nxt dl epoch]) (use lo hop in simp_all)
  obtain e c s4 where w: "wrap_link sp (rehop h n nxt e (h_hop_remaining h - 1)
       (min dl (h_remaining_deadline_ms h)) c) p s4 = (Inr f, s2)"
    by (rule forward_Inr [OF fw hop(7)]) (simp add: lo)
  let ?g = "rehop h n nxt e (h_hop_remaining h - 1) (min dl (h_remaining_deadline_ms h)) c"
  have "h_hop_remaining h - 1 \<noteq> 0" using hop(8) by auto
  then have vg: "validate_header ?g = Inr ()"
    using lo(2) hop wrap_link_Inr(4) [OF w] by (intro rehop_valid) auto
  obtain r where r: "open_link rp f nxt False r0 = (Inr \<lparr>lo_header = ?g, lo_protected = p\<rparr>, r)"
      "\<exists>n aad c t. sp_open rp (link_context ?g) n aad c t r0 = (Inr p, r)"
    by (rule open_wrap [OF w vg _ _ sp(3) rp, of False]) (use hop(7) lo(3) in auto)
  moreover have "sc_scope (link_context ?g) = Scope_Link"
    using hop(7) by (intro link_context_unicast) simp
  ultimately show thesis using that [OF fw r(1)] by (metis rehop_end_equal rehop_simps(3))
qed

lemma seal_group_Inr:
  assumes "seal_group sp \<lparr>pf_header = h0, pf_payload = payload\<rparr> src s = (Inr lo, s1)"
    "src \<noteq> kBroadcastNodeId"
  obtains h p ee ec s3 where "lo = \<lparr>lo_header = h, lo_protected = p\<rparr>"
    "seal_end_layer sp h payload s3 = (Inr p, s1)"
    "h = h0\<lparr>h_payload_length := of_nat (length payload), h_previous_hop := src, h_next_hop := src,
       h_hop_remaining := h_hop_remaining h0 + 1, h_link_counter := 0, h_end_epoch := ee,
       h_end_counter := ec\<rparr>"
    "validate_header h = Inr ()" "h_type h0 = FT_GroupData" "end_protected h0" "is_group_address (h_destination h0)"
    "h_hop_remaining h0 \<noteq> 0xFF" "h_hop_remaining h0 \<noteq> 0" "length payload \<le> kMaxApplicationPayload"
    "src \<noteq> kInvalidNodeId"
proof -
  from assms(1) obtain h p ee ec s3 where
    lo: "lo = \<lparr>lo_header = h, lo_protected = p\<rparr>" "seal_end_layer sp h payload s3 = (Inr p, s1)"
    and h: "h = h0\<lparr>h_payload_length := of_nat (length payload), h_previous_hop := src,
        h_next_hop := src, h_hop_remaining := h_hop_remaining h0 + 1, h_link_counter := 0,
        h_end_epoch := ee, h_end_counter := ec\<rparr>"
    and val0: "validate_header (h0\<lparr>h_payload_length := of_nat (length payload), h_previous_hop := src,
        h_next_hop := src, h_hop_remaining := h_hop_remaining h0 + 1, h_link_counter := 0\<rparr>) = Inr ()"
    and grp: "h_type h0 = FT_GroupData" "end_protected h0" "is_group_address (h_destination h0)"
      "h_hop_remaining h0 \<noteq> 0xFF" "h_hop_remaining h0 \<noteq> 0" "length payload \<le> kMaxApplicationPayload"
      "src \<noteq> kInvalidNodeId"
    by (auto simp: seal_group_def Let_def split: if_splits dest!: stamp_end_epoch_Inr draw_end_counter_Inr)
  have "h_end_counter h \<le> kMaxCryptoCounter" by (rule seal_end_layer_Inr [OF lo(2)])
  then have "validate_header h = Inr ()"
    using assms(2) val0 grp(1) by (auto simp: validate_header_def h leD split: if_splits)
  with that lo h grp show thesis by blast
qed

lemma open_group_sealed:
  assumes seal: "seal_end_layer sp h payload s = (Inr p, s')"
    and eq: "end_equal g h" "end_protected h" "h_type h = FT_GroupData"
      "is_group_address (h_destination h)"
    and len: "unat (h_payload_length h) = length payload" "length payload \<le> kMaxApplicationPayload"
    and prov: "seals_sized sp" "opens_fresh Scope_Group sp rp r"
  obtains r' where "open_group rp \<lparr>lo_header = g, lo_protected = p\<rparr> r =
    (Inr \<lparr>pf_header = g, pf_payload = payload\<rparr>, r')"
proof -
  obtain c t where
    ct: "sp_seal sp (end_context h) (h_end_counter h) (end_aad_bytes h) payload s = (Inr (c, t), s')"
      "p = c @ t" and ctr: "h_end_counter h \<le> kMaxCryptoCounter"
    by (rule seal_end_layer_Inr [OF seal])
  with prov(1) have size: "length c = length payload" "length t = kAeadTagSize"
    unfolding seals_sized_def by blast+
  have "sc_scope (end_context h) = Scope_Group" using eq(3) by (simp add: end_context_def)
  with prov(2) ct(1) obtain r' where
    "sp_open rp (end_context h) (h_end_counter h) (end_aad_bytes h) c t r = (Inr payload, r')"
    unfolding opens_fresh_def by blast
  moreover have "h_destination g = h_destination h" "h_type g = h_type h" "end_protected g = end_protected h"
    "h_payload_length g = h_payload_length h" "h_end_counter g = h_end_counter h"
    using eq(1) by (simp_all add: end_equal_def end_protected_def)
  ultimately have "open_group rp \<lparr>lo_header = g, lo_protected = p\<rparr> r =
      (Inr \<lparr>pf_header = g, pf_payload = payload\<rparr>, r')"
    using eq len ct(2) size leD [OF ctr]
    by (simp add: open_group_def open_end_layer_def make_end_aad_eq seq_def Let_def
        end_aad_bytes_cong [OF eq(1)] end_context_cong [OF eq(1)])
  then show thesis by (rule that)
qed


definition example_group_header :: Header where
  "example_group_header = example_header\<lparr>h_type := FT_GroupData,
     h_destination := 0xFFFFFFFFFFFF0007, h_hop_remaining := 4\<rparr>"


end
