(* ===== verification/Route_Entry.thy ===== *)
theory Route_Entry
  imports RL_Prelude
begin

text \<open>
  One destination of the distance-vector table of \<^verbatim>\<open>src/routing.cpp\<close>: serial-number comparison,
  saturating metrics, the feasibility condition, the choice among at most three candidates
  and the switching discipline of \<^verbatim>\<open>evaluate_entry\<close>.

  A pointer into the candidate array is the candidate itself where the code only reads
  through it, and its index where the code writes through it (\<^verbatim>\<open>candidate_slot\<close>).
\<close>

subsection \<open>Sequences and metrics\<close>

type_synonym RouteMetric = u16
type_synonym RouteSequence = u16
type_synonym RouteGeneration = u32

abbreviation kInfiniteRouteMetric :: RouteMetric where "kInfiniteRouteMetric \<equiv> 0xFFFF"
abbreviation kRouteCandidatesPerDestination :: nat where "kRouteCandidatesPerDestination \<equiv> 3"
abbreviation kRouteTombstoneDwellMs :: u32 where "kRouteTombstoneDwellMs \<equiv> 60000"
abbreviation kRouteHoldDownMs :: MonotonicMs where "kRouteHoldDownMs \<equiv> 500"
abbreviation kImprovementHoldMs :: MonotonicMs where "kImprovementHoldMs \<equiv> 10000"
abbreviation kSwitchHoldMs :: MonotonicMs where "kSwitchHoldMs \<equiv> 5000"
abbreviation kSevereBusyMs :: MonotonicMs where "kSevereBusyMs \<equiv> 2000"
abbreviation kImprovementAdGapMs :: MonotonicMs where "kImprovementAdGapMs \<equiv> 2000"
abbreviation kImprovementJitterMs :: u64 where "kImprovementJitterMs \<equiv> 2000"

text \<open>The result and the out-parameter \<^verbatim>\<open>ambiguous\<close>.\<close>

definition route_sequence_newer :: "RouteSequence \<Rightarrow> RouteSequence \<Rightarrow> bool \<times> bool" where
  "route_sequence_newer candidate reference =
     (let delta = candidate - reference in (delta \<noteq> 0 \<and> delta < 0x8000, delta = 0x8000))"

abbreviation seq_newer :: "RouteSequence \<Rightarrow> RouteSequence \<Rightarrow> bool" where
  "seq_newer a b \<equiv> fst (route_sequence_newer a b)"

abbreviation seq_ambiguous :: "RouteSequence \<Rightarrow> RouteSequence \<Rightarrow> bool" where
  "seq_ambiguous a b \<equiv> snd (route_sequence_newer a b)"

definition route_metric_add :: "RouteMetric \<Rightarrow> RouteMetric \<Rightarrow> RouteMetric" where
  "route_metric_add advertised link_cost =
     (if advertised = kInfiniteRouteMetric \<or> link_cost = kInfiniteRouteMetric
      then kInfiniteRouteMetric
      else let sum = (ucast advertised :: u32) + ucast link_cost
           in if 0xFFFF \<le> sum then kInfiniteRouteMetric else ucast sum)"

subsection \<open>Records\<close>

record RouteAdvertisement =
  ra_destination :: NodeId
  ra_generation :: RouteGeneration
  ra_sequence :: RouteSequence
  ra_metric :: RouteMetric

record RouteCandidate =
  rc_next_hop :: NodeId
  rc_expires_at_ms :: MonotonicMs
  rc_sequence :: RouteSequence
  rc_metric :: RouteMetric
  rc_advertised :: RouteMetric
  rc_feasible :: bool
  rc_valid :: bool

definition RouteCandidate_new :: RouteCandidate where
  "RouteCandidate_new = \<lparr>rc_next_hop = kInvalidNodeId, rc_expires_at_ms = 0, rc_sequence = 0,
     rc_metric = kInfiniteRouteMetric, rc_advertised = kInfiniteRouteMetric, rc_feasible = False,
     rc_valid = False\<rparr>"

record RouteSelection =
  rs_destination :: NodeId
  rs_next_hop :: NodeId
  rs_generation :: RouteGeneration
  rs_sequence :: RouteSequence
  rs_metric :: RouteMetric
  rs_valid :: bool

definition RouteSelection_new :: RouteSelection where
  "RouteSelection_new = \<lparr>rs_destination = kInvalidNodeId, rs_next_hop = kInvalidNodeId,
     rs_generation = 0, rs_sequence = 0, rs_metric = kInfiniteRouteMetric, rs_valid = False\<rparr>"

record FeasibleDistance =
  fd_sequence :: RouteSequence
  fd_metric :: RouteMetric
  fd_valid :: bool

definition FeasibleDistance_new :: FeasibleDistance where
  "FeasibleDistance_new = \<lparr>fd_sequence = 0, fd_metric = kInfiniteRouteMetric, fd_valid = False\<rparr>"

record LastSelection =
  ls_next_hop :: NodeId
  ls_sequence :: RouteSequence
  ls_metric :: RouteMetric
  ls_valid :: bool

definition LastSelection_new :: LastSelection where
  "LastSelection_new = \<lparr>ls_next_hop = kInvalidNodeId, ls_sequence = 0,
     ls_metric = kInfiniteRouteMetric, ls_valid = False\<rparr>"

definition LastSelection_from :: "RouteSelection \<Rightarrow> LastSelection" where
  "LastSelection_from s = \<lparr>ls_next_hop = rs_next_hop s, ls_sequence = rs_sequence s,
     ls_metric = rs_metric s, ls_valid = rs_valid s\<rparr>"

definition LastSelection_to :: "LastSelection \<Rightarrow> NodeId \<Rightarrow> RouteGeneration \<Rightarrow> RouteSelection" where
  "LastSelection_to l destination generation =
     \<lparr>rs_destination = destination, rs_next_hop = ls_next_hop l, rs_generation = generation,
      rs_sequence = ls_sequence l, rs_metric = ls_metric l, rs_valid = ls_valid l\<rparr>"

record Entry =
  e_destination :: NodeId
  e_candidates :: "RouteCandidate list"
  e_last_selected :: LastSelection
  e_hold_next_hop :: NodeId
  e_hold_until_ms :: MonotonicMs
  e_tombstone_expires_at_ms :: MonotonicMs
  e_committed_next_hop :: NodeId
  e_improvement_next_hop :: NodeId
  e_improvement_since_ms :: MonotonicMs
  e_switch_hold_until_ms :: MonotonicMs
  e_improvement_ad_ms :: MonotonicMs
  e_generation :: RouteGeneration
  e_feasible :: FeasibleDistance
  e_sequence_request_needed :: bool
  e_announced_up :: bool

definition Entry_new :: Entry where
  "Entry_new = \<lparr>e_destination = kInvalidNodeId,
     e_candidates = replicate kRouteCandidatesPerDestination RouteCandidate_new,
     e_last_selected = LastSelection_new, e_hold_next_hop = kInvalidNodeId, e_hold_until_ms = 0,
     e_tombstone_expires_at_ms = 0, e_committed_next_hop = kInvalidNodeId,
     e_improvement_next_hop = kInvalidNodeId, e_improvement_since_ms = 0,
     e_switch_hold_until_ms = 0, e_improvement_ad_ms = 0, e_generation = 0,
     e_feasible = FeasibleDistance_new, e_sequence_request_needed = False, e_announced_up = False\<rparr>"

subsection \<open>Feasibility and selection\<close>

definition feasible :: "Entry \<Rightarrow> RouteSequence \<Rightarrow> RouteMetric \<Rightarrow> bool" where
  "feasible e sequence metric =
     (if \<not> fd_valid (e_feasible e) then metric \<noteq> kInfiniteRouteMetric
      else let (newer, ambiguous) = route_sequence_newer sequence (fd_sequence (e_feasible e))
           in if newer then True
              else if ambiguous then False
              else sequence = fd_sequence (e_feasible e) \<and> metric < fd_metric (e_feasible e))"

definition has_candidates :: "Entry \<Rightarrow> bool" where
  "has_candidates e = list_ex rc_valid (e_candidates e)"

definition arm_tombstone :: "u32 \<Rightarrow> MonotonicMs \<Rightarrow> Entry \<Rightarrow> Entry" where
  "arm_tombstone dwell now_ms e =
     (if \<not> has_candidates e \<and> e_tombstone_expires_at_ms e = 0
      then e\<lparr>e_tombstone_expires_at_ms := now_ms + ucast dwell\<rparr> else e)"

text \<open>The index of the first element that satisfies \<open>P\<close>: a scan that returns a pointer.\<close>

definition find_index :: "('a \<Rightarrow> bool) \<Rightarrow> 'a list \<Rightarrow> nat option" where
  "find_index P xs = List.find (\<lambda>i. P (xs ! i)) [0..<length xs]"

text \<open>The body of the eviction loop: \<open>worst\<close> after looking at candidate \<open>i\<close>.\<close>

definition worse_of :: "Entry \<Rightarrow> nat \<Rightarrow> nat \<Rightarrow> nat" where
  "worse_of e i worst =
     (let c = e_candidates e ! i; w = e_candidates e ! worst;
          candidate_committed = (rc_next_hop c = e_committed_next_hop e);
          worst_committed = (rc_next_hop w = e_committed_next_hop e)
      in if candidate_committed \<and> \<not> worst_committed then worst
         else if \<not> candidate_committed \<and> worst_committed then i
         else let candidate_newer = seq_newer (rc_sequence c) (rc_sequence w)
              in if \<not> candidate_newer \<and> (rc_sequence c \<noteq> rc_sequence w \<or> rc_metric w < rc_metric c)
                 then i else worst)"

definition candidate_slot :: "Entry \<Rightarrow> NodeId \<Rightarrow> nat" where
  "candidate_slot e next_hop =
     (case find_index (\<lambda>c. rc_valid c \<and> rc_next_hop c = next_hop) (e_candidates e) of
        Some i \<Rightarrow> i
      | None \<Rightarrow>
          (case find_index (\<lambda>c. \<not> rc_valid c) (e_candidates e) of
             Some i \<Rightarrow> i
           | None \<Rightarrow>
               (case find_index (\<lambda>c. \<not> rc_feasible c \<or> \<not> feasible e (rc_sequence c) (rc_advertised c))
                       (e_candidates e) of
                  Some i \<Rightarrow> i
                | None \<Rightarrow> fold (worse_of e) [0..<length (e_candidates e)] 0)))"

text \<open>The test both selection scans apply to a candidate.\<close>

definition eligible :: "Entry \<Rightarrow> RouteCandidate \<Rightarrow> bool" where
  "eligible e c \<longleftrightarrow> rc_valid c \<and> rc_feasible c \<and> rc_metric c \<noteq> kInfiniteRouteMetric \<and>
     feasible e (rc_sequence c) (rc_advertised c)"

definition selectable :: "Entry \<Rightarrow> NodeId \<Rightarrow> RouteCandidate option" where
  "selectable e hop =
     (if hop = kInvalidNodeId then None
      else List.find (\<lambda>c. rc_next_hop c = hop \<and> eligible e c) (e_candidates e))"

definition better_of :: "Entry \<Rightarrow> NodeId \<Rightarrow> RouteCandidate \<Rightarrow> RouteCandidate option \<Rightarrow> RouteCandidate option" where
  "better_of e exclude c selected =
     (if rc_next_hop c = exclude then selected
      else if \<not> eligible e c then selected
      else case selected of
          None \<Rightarrow> Some c
        | Some s \<Rightarrow>
            (let (newer, ambiguous) = route_sequence_newer (rc_sequence c) (rc_sequence s)
             in if newer then Some c
                else if \<not> ambiguous \<and> rc_sequence c = rc_sequence s \<and> rc_metric c < rc_metric s
                then Some c else Some s))"

definition best_candidate :: "Entry \<Rightarrow> NodeId \<Rightarrow> RouteCandidate option" where
  "best_candidate e exclude = fold (better_of e exclude) (e_candidates e) None"

definition chosen :: "Entry \<Rightarrow> RouteCandidate option" where
  "chosen e = (case selectable e (e_committed_next_hop e) of
      Some c \<Rightarrow> Some c | None \<Rightarrow> best_candidate e kInvalidNodeId)"

definition select :: "Entry \<Rightarrow> RouteSelection" where
  "select e = (case chosen e of
      None \<Rightarrow> RouteSelection_new
    | Some c \<Rightarrow> \<lparr>rs_destination = e_destination e, rs_next_hop = rc_next_hop c,
        rs_generation = e_generation e, rs_sequence = rc_sequence c, rs_metric = rc_metric c,
        rs_valid = True\<rparr>)"

subsection \<open>The switching discipline\<close>

text \<open>
  \<open>busy\<close> answers \<^verbatim>\<open>busy_link\<close>: since when a next hop has reported sustained pressure;
  \<open>jitter\<close> is \<^verbatim>\<open>improvement_jitter(entry.destination)\<close>.
\<close>

definition commit_switch :: "NodeId \<Rightarrow> MonotonicMs \<Rightarrow> Entry \<Rightarrow> Entry" where
  "commit_switch hop now_ms e =
     e\<lparr>e_committed_next_hop := hop, e_switch_hold_until_ms := now_ms + kSwitchHoldMs,
       e_improvement_next_hop := kInvalidNodeId\<rparr>"

definition evaluate_entry ::
  "(NodeId \<Rightarrow> MonotonicMs option) \<Rightarrow> u32 \<Rightarrow> MonotonicMs \<Rightarrow> Entry \<Rightarrow> Entry" where
  "evaluate_entry busy jitter now_ms e =
     (case selectable e (e_committed_next_hop e) of
        None \<Rightarrow>
          (let was_committed = (e_committed_next_hop e \<noteq> kInvalidNodeId);
               raw = best_candidate e kInvalidNodeId;
               e = e\<lparr>e_committed_next_hop :=
                 (case raw of Some c \<Rightarrow> rc_next_hop c | None \<Rightarrow> kInvalidNodeId)\<rparr>;
               e = (if raw \<noteq> None \<and> was_committed
                    then e\<lparr>e_switch_hold_until_ms := now_ms + kSwitchHoldMs\<rparr> else e)
           in e\<lparr>e_improvement_next_hop := kInvalidNodeId\<rparr>)
      | Some committed \<Rightarrow>
          (let severe = (\<lambda>hop. case busy hop of None \<Rightarrow> False | Some since \<Rightarrow> kSevereBusyMs \<le> now_ms - since)
           in if severe (rc_next_hop committed)
              then (case best_candidate e (rc_next_hop committed) of
                      None \<Rightarrow> e
                    | Some alt \<Rightarrow>
                        if e_switch_hold_until_ms e \<le> now_ms \<and> \<not> severe (rc_next_hop alt)
                        then commit_switch (rc_next_hop alt) now_ms e else e)
              else case best_candidate e kInvalidNodeId of
                  None \<Rightarrow> e\<lparr>e_improvement_next_hop := kInvalidNodeId\<rparr>
                | Some raw \<Rightarrow>
                    if rc_next_hop raw = rc_next_hop committed
                    then e\<lparr>e_improvement_next_hop := kInvalidNodeId\<rparr>
                    else if seq_newer (rc_sequence raw) (rc_sequence committed) \<or>
                            seq_ambiguous (rc_sequence raw) (rc_sequence committed)
                    then commit_switch (rc_next_hop raw) now_ms e
                    else if rc_advertised raw < rc_advertised committed
                    then (if e_switch_hold_until_ms e \<le> now_ms
                          then commit_switch (rc_next_hop raw) now_ms e else e)
                    else if \<not> ((ucast (rc_metric raw) :: u32) * 5 \<le> ucast (rc_metric committed) * 4 \<and>
                               1 \<le> int (unat (rc_metric committed)) - int (unat (rc_metric raw)))
                    then e\<lparr>e_improvement_next_hop := kInvalidNodeId\<rparr>
                    else if e_improvement_next_hop e \<noteq> rc_next_hop raw
                    then e\<lparr>e_improvement_next_hop := rc_next_hop raw, e_improvement_since_ms := now_ms\<rparr>
                    else if kImprovementHoldMs + ucast jitter \<le> now_ms - e_improvement_since_ms e \<and>
                            e_switch_hold_until_ms e \<le> now_ms
                    then commit_switch (rc_next_hop raw) now_ms e
                    else e))"

subsection \<open>Well-formed entries\<close>

text \<open>
  A stored candidate names a real neighbour; a finite total metric exceeds the advertised one
  (links never cost zero), so a candidate flagged feasible has a finite metric.
\<close>

definition cand_inv :: "RouteCandidate \<Rightarrow> bool" where
  "cand_inv c \<longleftrightarrow> (rc_valid c \<longrightarrow> rc_next_hop c \<noteq> kInvalidNodeId \<and>
     (rc_metric c \<noteq> kInfiniteRouteMetric \<longrightarrow> rc_advertised c < rc_metric c) \<and>
     (rc_feasible c \<longrightarrow> rc_metric c \<noteq> kInfiniteRouteMetric))"

definition hops_distinct :: "RouteCandidate list \<Rightarrow> bool" where
  "hops_distinct cs \<longleftrightarrow> (\<forall>i < length cs. \<forall>j < length cs. rc_valid (cs ! i) \<longrightarrow> rc_valid (cs ! j) \<longrightarrow>
     rc_next_hop (cs ! i) = rc_next_hop (cs ! j) \<longrightarrow> i = j)"

definition cands_inv :: "RouteCandidate list \<Rightarrow> bool" where
  "cands_inv cs \<longleftrightarrow>
     length cs = kRouteCandidatesPerDestination \<and> (\<forall>c \<in> set cs. cand_inv c) \<and> hops_distinct cs"

definition entry_inv :: "Entry \<Rightarrow> bool" where
  "entry_inv e \<longleftrightarrow> e_destination e \<noteq> kInvalidNodeId \<and> cands_inv (e_candidates e) \<and>
     (e_tombstone_expires_at_ms e \<noteq> 0 \<longrightarrow> \<not> has_candidates e)"

text \<open>The committed next hop is the route in use.\<close>

definition settled :: "Entry \<Rightarrow> bool" where
  "settled e \<longleftrightarrow> chosen e = selectable e (e_committed_next_hop e)"

subsection \<open>Sequence and metric arithmetic\<close>

lemma route_metric_add_eq:
  "route_metric_add a b =
     (if a = kInfiniteRouteMetric \<or> b = kInfiniteRouteMetric \<or> 65535 \<le> unat a + unat b
      then kInfiniteRouteMetric else a + b)"
proof -
  have s: "unat ((ucast a :: u32) + ucast b) = unat a + unat b"
    using unsigned_less [of a, where ?'a = nat] unsigned_less [of b, where ?'a = nat]
    by (simp add: unat_word_ariths unat_ucast_up)
  have "(ucast ((ucast a :: u32) + ucast b) :: u16) = a + b"
    unfolding word_unat_eq_iff unsigned_ucast_eq s by (simp add: unat_word_ariths take_bit_eq_mod)
  moreover have "(0xFFFF \<le> (ucast a :: u32) + ucast b) \<longleftrightarrow> 65535 \<le> unat a + unat b"
    by (simp add: word_le_nat_alt s)
  ultimately show ?thesis by (simp add: route_metric_add_def Let_def)
qed

lemma route_metric_add_gt:
  "route_metric_add a b \<noteq> kInfiniteRouteMetric \<Longrightarrow> b \<noteq> 0 \<Longrightarrow> a < route_metric_add a b"
  by (auto simp: route_metric_add_eq word_less_nat_alt unat_word_ariths unat_gt_0 split: if_splits)

lemma route_metric_add_inf [simp]: "route_metric_add kInfiniteRouteMetric b = kInfiniteRouteMetric"
  by (simp add: route_metric_add_def)

lemma seq_newer_irrefl [simp]: "\<not> seq_newer a a" "\<not> seq_ambiguous a a"
  by (simp_all add: route_sequence_newer_def)

text \<open>
  Serial numbers that lie within one half-window of a common base are ordered linearly by
  their distance from it.
\<close>

definition seq_off :: "RouteSequence \<Rightarrow> RouteSequence \<Rightarrow> nat" where
  "seq_off base s = unat (s - base)"

definition in_window :: "RouteSequence \<Rightarrow> RouteSequence \<Rightarrow> bool" where
  "in_window base s \<longleftrightarrow> seq_off base s < 0x8000"

lemma seq_off_inj: "seq_off base a = seq_off base b \<longleftrightarrow> a = b"
  unfolding seq_off_def word_unat_eq_iff [symmetric] by simp

lemma window_newer:
  assumes "in_window base a" "in_window base b"
  shows "seq_newer a b \<longleftrightarrow> seq_off base b < seq_off base a" and "\<not> seq_ambiguous a b"
proof -
  have d: "unat (a - b) = (if seq_off base b \<le> seq_off base a then seq_off base a - seq_off base b
      else seq_off base a + 2 ^ 16 - seq_off base b)"
    using unat_sub_if' [of "a - base" "b - base"] by (simp add: seq_off_def)
  have "(a - b \<noteq> 0 \<and> a - b < 0x8000) \<longleftrightarrow> 0 < unat (a - b) \<and> unat (a - b) < 0x8000"
    by (simp add: word_less_nat_alt unat_gt_0)
  then show "seq_newer a b \<longleftrightarrow> seq_off base b < seq_off base a"
    using d assms by (auto simp: route_sequence_newer_def Let_def in_window_def)
  have "a - b = 0x8000 \<longleftrightarrow> unat (a - b) = 0x8000"
    by (simp add: word_unat_eq_iff)
  then show "\<not> seq_ambiguous a b"
    using d assms by (auto simp: route_sequence_newer_def Let_def in_window_def)
qed

lemma feasible_valid_iff:
  "fd_valid (e_feasible e) \<Longrightarrow> feasible e s m \<longleftrightarrow>
     seq_newer s (fd_sequence (e_feasible e)) \<or>
     s = fd_sequence (e_feasible e) \<and> m < fd_metric (e_feasible e)"
  by (auto simp: feasible_def split_beta)

lemma feasible_window:
  "fd_valid (e_feasible e) \<Longrightarrow> feasible e s m \<Longrightarrow> in_window (fd_sequence (e_feasible e)) s"
  by (auto simp: feasible_valid_iff route_sequence_newer_def Let_def in_window_def seq_off_def word_less_nat_alt)

subsection \<open>Selection\<close>

lemma better_of_cases:
  "better_of e exclude c selected = Some c \<and> eligible e c \<and> rc_next_hop c \<noteq> exclude \<or>
   better_of e exclude c selected = selected"
  by (auto simp: better_of_def split_beta split: option.splits)

lemma better_of_keeps: "better_of e exclude c (Some s) \<noteq> None"
  by (auto simp: better_of_def split_beta)

lemma best_candidate_sound:
  assumes "best_candidate e exclude = Some c"
  shows "c \<in> set (e_candidates e)" "eligible e c" "rc_next_hop c \<noteq> exclude"
proof -
  have "fold (better_of e exclude) cs acc = Some c \<Longrightarrow>
      acc = Some c \<or> c \<in> set cs \<and> eligible e c \<and> rc_next_hop c \<noteq> exclude" for cs acc
  proof (induction cs arbitrary: acc)
    case (Cons x cs)
    from Cons.IH [of "better_of e exclude x acc"] Cons.prems better_of_cases [of e exclude x acc]
    show ?case by auto
  qed simp
  from this [of "e_candidates e" None] assms
  show "c \<in> set (e_candidates e)" "eligible e c" "rc_next_hop c \<noteq> exclude"
    by (auto simp: best_candidate_def)
qed

lemma fold_better_of_Some: "fold (better_of e exclude) cs (Some s) \<noteq> None"
proof (induction cs arbitrary: s)
  case (Cons c cs)
  obtain s' where "better_of e exclude c (Some s) = Some s'"
    using better_of_keeps [of e exclude c s] by auto
  with Cons show ?case by simp
qed simp

lemma best_candidate_None:
  assumes "best_candidate e exclude = None" "c \<in> set (e_candidates e)" "rc_next_hop c \<noteq> exclude"
  shows "\<not> eligible e c"
proof
  assume el: "eligible e c"
  have "fold (better_of e exclude) cs acc \<noteq> None" if "c \<in> set cs" for cs acc
    using that
  proof (induction cs arbitrary: acc)
    case (Cons x cs)
    have "better_of e exclude x acc \<noteq> None" if "x = c"
      using that el assms(3) by (auto simp: better_of_def split_beta split: option.splits)
    then show ?case
      using Cons fold_better_of_Some [of e exclude cs]
      by (cases "better_of e exclude x acc") auto
  qed simp
  with assms show False by (auto simp: best_candidate_def)
qed

text \<open>The preference the scan implements is linear while the sequences share a half-window.\<close>

definition as_good :: "RouteCandidate \<Rightarrow> RouteCandidate \<Rightarrow> bool" where
  "as_good c d \<longleftrightarrow> seq_newer (rc_sequence c) (rc_sequence d) \<or>
     rc_sequence c = rc_sequence d \<and> rc_metric c \<le> rc_metric d"

lemma as_good_window:
  "in_window base (rc_sequence c) \<Longrightarrow> in_window base (rc_sequence d) \<Longrightarrow>
   as_good c d \<longleftrightarrow> seq_off base (rc_sequence d) < seq_off base (rc_sequence c) \<or>
     seq_off base (rc_sequence c) = seq_off base (rc_sequence d) \<and> rc_metric c \<le> rc_metric d"
  by (simp add: as_good_def window_newer seq_off_inj)

lemma best_candidate_best:
  assumes win: "\<And>c. c \<in> set (e_candidates e) \<Longrightarrow> eligible e c \<Longrightarrow> in_window base (rc_sequence c)"
    and best: "best_candidate e exclude = Some b"
    and d: "d \<in> set (e_candidates e)" "eligible e d" "rc_next_hop d \<noteq> exclude"
  shows "as_good b d"
proof -
  note gw = as_good_window [where base = base]
  let ?ok = "\<lambda>c. eligible e c \<and> in_window base (rc_sequence c)"
  have step: "\<exists>s'. better_of e exclude c acc = Some s' \<and> ?ok s' \<and>
      (\<forall>s. acc = Some s \<longrightarrow> as_good s' s) \<and> (eligible e c \<and> rc_next_hop c \<noteq> exclude \<longrightarrow> as_good s' c)"
    if "\<forall>s. acc = Some s \<longrightarrow> ?ok s" "eligible e c \<longrightarrow> ?ok c"
      "acc \<noteq> None \<or> eligible e c \<and> rc_next_hop c \<noteq> exclude" for acc c
    using that
    by (cases acc) (auto simp: better_of_def split_beta gw window_newer [where base = base] seq_off_inj
        not_less le_less)
  have "\<forall>s. acc = Some s \<longrightarrow> ?ok s \<Longrightarrow> \<forall>c \<in> set cs. eligible e c \<longrightarrow> ?ok c \<Longrightarrow>
      fold (better_of e exclude) cs acc = Some b \<Longrightarrow>
      ?ok b \<and> (\<forall>s. acc = Some s \<longrightarrow> as_good b s) \<and>
      (\<forall>d \<in> set cs. eligible e d \<and> rc_next_hop d \<noteq> exclude \<longrightarrow> as_good b d)" for cs acc
  proof (induction cs arbitrary: acc)
    case Nil
    then show ?case by (auto simp: as_good_def)
  next
    case (Cons x cs)
    show ?case
    proof (cases "acc \<noteq> None \<or> eligible e x \<and> rc_next_hop x \<noteq> exclude")
      case True
      with step [of acc x] Cons.prems obtain s' where s': "better_of e exclude x acc = Some s'" "?ok s'"
        "\<forall>s. acc = Some s \<longrightarrow> as_good s' s" "eligible e x \<and> rc_next_hop x \<noteq> exclude \<longrightarrow> as_good s' x"
        by auto
      with Cons.IH [of "Some s'"] Cons.prems
      have b: "?ok b" "as_good b s'" "\<forall>d \<in> set cs. eligible e d \<and> rc_next_hop d \<noteq> exclude \<longrightarrow> as_good b d"
        by auto
      have "as_good b z" if "as_good s' z" "?ok z" for z
        using that b(1,2) s'(2) by (auto simp: gw)
      then show ?thesis using b s' Cons.prems by auto
    next
      case False
      then have "better_of e exclude x acc = None" by (auto simp: better_of_def)
      with False Cons show ?thesis by auto
    qed
  qed
  from this [of None "e_candidates e"] best d win show ?thesis
    by (auto simp: best_candidate_def)
qed

lemma selectable_Some:
  assumes "selectable e hop = Some c"
  shows "c \<in> set (e_candidates e)" "eligible e c" "rc_next_hop c = hop" "hop \<noteq> kInvalidNodeId"
  using assms by (auto simp: selectable_def find_Some_iff split: if_splits)

lemma selectable_None:
  "selectable e hop = None \<longleftrightarrow>
     hop = kInvalidNodeId \<or> (\<forall>c \<in> set (e_candidates e). rc_next_hop c = hop \<longrightarrow> \<not> eligible e c)"
  by (auto simp: selectable_def find_None_iff)

lemma chosen_sound:
  assumes "chosen e = Some c"
  shows "c \<in> set (e_candidates e)" "eligible e c"
  using assms by (auto simp: chosen_def selectable_Some best_candidate_sound split: option.splits)

lemma chosen_None:
  assumes "chosen e = None" "\<forall>c \<in> set (e_candidates e). cand_inv c" "c \<in> set (e_candidates e)"
  shows "\<not> eligible e c"
  using assms best_candidate_None [of e kInvalidNodeId c]
  by (auto simp: chosen_def cand_inv_def eligible_def split: option.splits)

lemma select_valid_iff: "rs_valid (select e) \<longleftrightarrow> chosen e \<noteq> None"
  by (auto simp: select_def RouteSelection_new_def split: option.splits)

lemma select_chosen:
  "chosen e = Some c \<Longrightarrow> select e = \<lparr>rs_destination = e_destination e, rs_next_hop = rc_next_hop c,
     rs_generation = e_generation e, rs_sequence = rc_sequence c, rs_metric = rc_metric c, rs_valid = True\<rparr>"
  by (simp add: select_def)

lemma eligible_cong:
  "e_feasible e' = e_feasible e \<Longrightarrow> eligible e' c = eligible e c"
  by (simp add: eligible_def feasible_def)

lemma settled_commit:
  assumes "e_committed_next_hop e = kInvalidNodeId \<longrightarrow> best_candidate e kInvalidNodeId = None"
    and "e_committed_next_hop e \<noteq> kInvalidNodeId \<longrightarrow>
      (\<exists>c \<in> set (e_candidates e). rc_next_hop c = e_committed_next_hop e \<and> eligible e c)"
  shows "settled e"
proof (cases "selectable e (e_committed_next_hop e)")
  case None
  with assms have "best_candidate e kInvalidNodeId = None" by (auto simp: selectable_None)
  with None show ?thesis by (simp add: settled_def chosen_def)
qed (simp add: settled_def chosen_def)

subsection \<open>What an evaluation changes\<close>

lemma best_candidate_cong:
  assumes "e_candidates e' = e_candidates e" "e_feasible e' = e_feasible e"
  shows "best_candidate e' = best_candidate e"
proof -
  have "better_of e' = better_of e"
    by (intro ext) (simp add: better_of_def eligible_cong [OF assms(2)])
  with assms(1) show ?thesis unfolding best_candidate_def by simp
qed

text \<open>Evaluating touches only the switching state of an entry.\<close>

lemma evaluate_entry_field:
  assumes "\<And>e h. f (e\<lparr>e_committed_next_hop := h\<rparr>) = f e" "\<And>e h. f (e\<lparr>e_improvement_next_hop := h\<rparr>) = f e"
    and "\<And>e n. f (e\<lparr>e_improvement_since_ms := n\<rparr>) = f e" "\<And>e n. f (e\<lparr>e_switch_hold_until_ms := n\<rparr>) = f e"
  shows "f (evaluate_entry busy jitter now e) = f e"
  unfolding evaluate_entry_def Let_def commit_switch_def
  by (simp add: assms if_distrib [of f] option.case_distrib [of f] cong: if_cong option.case_cong)
    (simp split: option.split)

lemma evaluate_entry_frame [simp]:
  "e_destination (evaluate_entry busy jitter now e) = e_destination e"
  "e_candidates (evaluate_entry busy jitter now e) = e_candidates e"
  "e_generation (evaluate_entry busy jitter now e) = e_generation e"
  "e_feasible (evaluate_entry busy jitter now e) = e_feasible e"
  "e_tombstone_expires_at_ms (evaluate_entry busy jitter now e) = e_tombstone_expires_at_ms e"
  "e_hold_next_hop (evaluate_entry busy jitter now e) = e_hold_next_hop e"
  "e_hold_until_ms (evaluate_entry busy jitter now e) = e_hold_until_ms e"
  "e_last_selected (evaluate_entry busy jitter now e) = e_last_selected e"
  "e_sequence_request_needed (evaluate_entry busy jitter now e) = e_sequence_request_needed e"
  "e_announced_up (evaluate_entry busy jitter now e) = e_announced_up e"
  by (rule evaluate_entry_field; simp)+

lemma has_candidates_evaluate [simp]:
  "has_candidates (evaluate_entry busy jitter now e) = has_candidates e"
  by (simp add: has_candidates_def)

lemma entry_inv_evaluate [simp]: "entry_inv (evaluate_entry busy jitter now e) = entry_inv e"
  by (simp add: entry_inv_def)

lemma best_evaluate [simp]:
  "best_candidate (evaluate_entry busy jitter now e) = best_candidate e"
  "eligible (evaluate_entry busy jitter now e) c = eligible e c"
  by (rule best_candidate_cong eligible_cong; simp)+

text \<open>The next hop an evaluation commits to.\<close>

lemma evaluate_entry_lost:
  "selectable e (e_committed_next_hop e) = None \<Longrightarrow>
   e_committed_next_hop (evaluate_entry busy jitter now e) =
     (case best_candidate e kInvalidNodeId of None \<Rightarrow> kInvalidNodeId | Some c \<Rightarrow> rc_next_hop c)"
  by (simp add: evaluate_entry_def Let_def)

lemma evaluate_entry_kept:
  assumes "selectable e (e_committed_next_hop e) = Some c" "P (e_committed_next_hop e)"
    and "\<And>x b. best_candidate e x = Some b \<Longrightarrow> P (rc_next_hop b)"
  shows "P (e_committed_next_hop (evaluate_entry busy jitter now e))"
proof -
  have best: "pred_option (\<lambda>b. P (rc_next_hop b)) (best_candidate e x)" for x
    using assms(3) [of x] by (cases "best_candidate e x") auto
  show ?thesis
    using best [of "rc_next_hop c"] best [of kInvalidNodeId]
    unfolding evaluate_entry_def assms(1) Let_def commit_switch_def
    by (cases "best_candidate e (rc_next_hop c)"; cases "best_candidate e kInvalidNodeId")
      (simp_all add: assms(2))
qed

lemma settled_evaluate:
  assumes "\<forall>c \<in> set (e_candidates e). cand_inv c"
  shows "settled (evaluate_entry busy jitter now e)"
proof (cases "selectable e (e_committed_next_hop e)")
  case None
  show ?thesis
    by (rule settled_commit)
      (auto simp: evaluate_entry_lost [OF None] dest: best_candidate_sound split: option.splits)
next
  case (Some c)
  let ?P = "\<lambda>h. h \<noteq> kInvalidNodeId \<and> (\<exists>c \<in> set (e_candidates e). rc_next_hop c = h \<and> eligible e c)"
  have "?P (e_committed_next_hop (evaluate_entry busy jitter now e))"
  proof (rule evaluate_entry_kept [OF Some])
    show "?P (e_committed_next_hop e)" using selectable_Some [OF Some] by auto
    fix x b assume "best_candidate e x = Some b"
    note b = best_candidate_sound [OF this]
    then show "?P (rc_next_hop b)" using assms by (auto simp: cand_inv_def eligible_def)
  qed
  then show ?thesis by (intro settled_commit) auto
qed

subsection \<open>The slot a candidate is stored in\<close>

lemma find_index_Some: "find_index P xs = Some i \<Longrightarrow> i < length xs \<and> P (xs ! i)"
  by (auto simp: find_index_def find_Some_iff)

lemma find_index_None: "find_index P xs = None \<longleftrightarrow> (\<forall>x \<in> set xs. \<not> P x)"
  by (auto simp: find_index_def find_None_iff set_conv_nth)

lemma fold_worse_of:
  "worst < n \<Longrightarrow> \<forall>i \<in> set is. i < n \<Longrightarrow> fold (worse_of e) is worst < n"
proof (induction "is" arbitrary: worst)
  case (Cons i "is")
  have "worse_of e i worst = i \<or> worse_of e i worst = worst" by (simp add: worse_of_def Let_def)
  with Cons show ?case by auto
qed simp

lemma candidate_slot_less:
  "0 < length (e_candidates e) \<Longrightarrow> candidate_slot e hop < length (e_candidates e)"
  by (auto simp: candidate_slot_def fold_worse_of dest: find_index_Some split: option.splits)

lemma candidate_slot_other:
  assumes "hops_distinct (e_candidates e)" "j < length (e_candidates e)" "j \<noteq> candidate_slot e hop"
    and "rc_valid (e_candidates e ! j)"
  shows "rc_next_hop (e_candidates e ! j) \<noteq> hop"
proof (cases "find_index (\<lambda>c. rc_valid c \<and> rc_next_hop c = hop) (e_candidates e)")
  case None
  with assms show ?thesis by (auto simp: find_index_None)
next
  case (Some i)
  with assms show ?thesis
    using find_index_Some [OF Some] by (auto simp: hops_distinct_def candidate_slot_def)
qed

lemma hops_distinct_update:
  assumes "hops_distinct cs" "\<And>j. j < length cs \<Longrightarrow> j \<noteq> i \<Longrightarrow> rc_valid (cs ! j) \<Longrightarrow>
    rc_next_hop (cs ! j) \<noteq> rc_next_hop c"
  shows "hops_distinct (cs[i := c])"
  unfolding hops_distinct_def
proof (intro allI impI)
  fix j k assume "j < length (cs[i := c])" "k < length (cs[i := c])" "rc_valid (cs[i := c] ! j)"
    "rc_valid (cs[i := c] ! k)" "rc_next_hop (cs[i := c] ! j) = rc_next_hop (cs[i := c] ! k)"
  then show "j = k"
    using assms(1) assms(2) [of j] assms(2) [of k]
    by (cases "j = i"; cases "k = i") (simp_all add: hops_distinct_def)
qed

lemma hops_distinct_map:
  assumes "hops_distinct cs" "\<And>c. c \<in> set cs \<Longrightarrow> rc_valid (f c) \<Longrightarrow> rc_valid c \<and> rc_next_hop (f c) = rc_next_hop c"
  shows "hops_distinct (map f cs)"
  using assms by (auto simp: hops_distinct_def)

lemma cands_inv_map:
  assumes "cands_inv cs" "\<And>c. c \<in> set cs \<Longrightarrow> cand_inv c \<Longrightarrow> cand_inv (f c) \<and>
    (rc_valid (f c) \<longrightarrow> rc_valid c \<and> rc_next_hop (f c) = rc_next_hop c)"
  shows "cands_inv (map f cs)"
  using assms by (auto simp: cands_inv_def intro: hops_distinct_map)

lemma cands_inv_store:
  assumes "cands_inv (e_candidates e)" "cand_inv c"
  shows "cands_inv ((e_candidates e)[candidate_slot e (rc_next_hop c) := c])"
proof -
  from assms have "hops_distinct ((e_candidates e)[candidate_slot e (rc_next_hop c) := c])"
    by (intro hops_distinct_update candidate_slot_other) (auto simp: cands_inv_def)
  with assms show ?thesis
    by (auto simp: cands_inv_def dest!: set_update_subset_insert [THEN subsetD])
qed

lemma cand_inv_new [simp]: "cand_inv RouteCandidate_new" "\<not> rc_valid RouteCandidate_new"
  by (simp_all add: cand_inv_def RouteCandidate_new_def)

lemma cands_inv_new [simp]: "cands_inv (e_candidates Entry_new)"
  by (simp add: cands_inv_def hops_distinct_def Entry_new_def nth_replicate)

end
