(* ===== verification/Route_Table.thy ===== *)
theory Route_Table
  imports Route_Entry Fixed_Pool
begin

text \<open>
  The class \<^verbatim>\<open>RouteTable\<close> of \<^verbatim>\<open>src/routing.cpp\<close> and \<^verbatim>\<open>include/routeloom/routing.hpp\<close>: a slot pool of
  route entries, a slot pool of busy links, the node's identity and the tombstone dwell.
  Every member function is a definition; an optional \<^verbatim>\<open>deadline\<close> out-parameter is an
  argument and a result of option type.
\<close>

subsection \<open>State\<close>

record BusyLink =
  bl_next_hop :: NodeId
  bl_since_ms :: MonotonicMs

definition BusyLink_new :: BusyLink where
  "BusyLink_new = \<lparr>bl_next_hop = kInvalidNodeId, bl_since_ms = 0\<rparr>"

record RouteTable =
  rt_entries :: "Entry FixedPool"
  rt_busy_links :: "BusyLink FixedPool"
  rt_self_id :: NodeId
  rt_tombstone_dwell_ms :: u32

text \<open>The pool capacities \<^verbatim>\<open>kMaxRouteEntries\<close> and \<^verbatim>\<open>kBusyLinkCapacity\<close> are build constants.\<close>

definition RouteTable_new :: "nat \<Rightarrow> nat \<Rightarrow> RouteTable" where
  "RouteTable_new entries busy =
     \<lparr>rt_entries = FixedPool_new Entry_new entries, rt_busy_links = FixedPool_new BusyLink_new busy,
      rt_self_id = kInvalidNodeId, rt_tombstone_dwell_ms = kRouteTombstoneDwellMs\<rparr>"

definition set_self :: "NodeId \<Rightarrow> RouteTable \<Rightarrow> RouteTable" where
  "set_self self t = t\<lparr>rt_self_id := self\<rparr>"

definition set_tombstone_dwell :: "u32 \<Rightarrow> RouteTable \<Rightarrow> RouteTable" where
  "set_tombstone_dwell lifetime_ms t =
     t\<lparr>rt_tombstone_dwell_ms := (if kRouteTombstoneDwellMs < lifetime_ms then lifetime_ms
                                 else kRouteTombstoneDwellMs)\<rparr>"

subsection \<open>Lookup\<close>

definition entry_slot :: "RouteTable \<Rightarrow> NodeId \<Rightarrow> nat option" where
  "entry_slot t destination = FixedPool_find (\<lambda>e. e_destination e = destination) (rt_entries t)"

definition entry_of :: "RouteTable \<Rightarrow> NodeId \<Rightarrow> Entry option" where
  "entry_of t destination = Option.bind (entry_slot t destination) (\<lambda>i. FixedPool_at i (rt_entries t))"

text \<open>Writing an entry back through the pointer the search returned.\<close>

definition put_entry :: "nat \<Rightarrow> Entry \<Rightarrow> RouteTable \<Rightarrow> RouteTable" where
  "put_entry i e t = t\<lparr>rt_entries := FixedPool_store i e (rt_entries t)\<rparr>"

definition find_or_allocate :: "NodeId \<Rightarrow> RouteTable \<Rightarrow> nat option \<times> RouteTable" where
  "find_or_allocate destination t =
     (if destination = kInvalidNodeId then (None, t)
      else case entry_slot t destination of
          Some i \<Rightarrow> (Some i, t)
        | None \<Rightarrow>
            (case FixedPool_allocate Entry_new (rt_entries t) of
               (None, pool) \<Rightarrow> (None, t\<lparr>rt_entries := pool\<rparr>)
             | (Some i, pool) \<Rightarrow>
                 (Some i, put_entry i (Entry_new\<lparr>e_destination := destination\<rparr>) (t\<lparr>rt_entries := pool\<rparr>))))"

definition busy_link :: "RouteTable \<Rightarrow> NodeId \<Rightarrow> MonotonicMs option" where
  "busy_link t next_hop =
     map_option bl_since_ms
       (Option.bind (FixedPool_find (\<lambda>l. bl_next_hop l = next_hop) (rt_busy_links t))
         (\<lambda>i. FixedPool_at i (rt_busy_links t)))"

definition improvement_jitter :: "RouteTable \<Rightarrow> NodeId \<Rightarrow> u32" where
  "improvement_jitter t destination =
     ucast ((rt_self_id t * 31 + destination * 17) mod (kImprovementJitterMs + 1))"

definition evaluate_in :: "RouteTable \<Rightarrow> MonotonicMs \<Rightarrow> Entry \<Rightarrow> Entry" where
  "evaluate_in t now_ms e =
     evaluate_entry (busy_link t) (improvement_jitter t (e_destination e)) now_ms e"

subsection \<open>Periodic evaluation and load coupling\<close>

definition sooner :: "MonotonicMs \<Rightarrow> MonotonicMs \<Rightarrow> MonotonicMs option \<Rightarrow> MonotonicMs option" where
  "sooner now_ms at deadline = (if now_ms < at then map_option (min at) deadline else deadline)"

definition evaluate :: "MonotonicMs \<Rightarrow> MonotonicMs option \<Rightarrow> RouteTable \<Rightarrow> RouteTable \<times> MonotonicMs option" where
  "evaluate now_ms deadline t =
     (let (pool, deadline) = FixedPool_for_each (\<lambda>e deadline.
        let e = evaluate_in t now_ms e;
            deadline = sooner now_ms (e_hold_until_ms e) deadline;
            deadline = sooner now_ms (e_switch_hold_until_ms e) deadline;
            deadline = (if e_improvement_next_hop e \<noteq> kInvalidNodeId
              then sooner now_ms (e_improvement_since_ms e + kImprovementHoldMs +
                     ucast (improvement_jitter t (e_destination e))) deadline
              else deadline);
            deadline = (case busy_link t (e_committed_next_hop e) of
                None \<Rightarrow> deadline | Some since \<Rightarrow> sooner now_ms (since + kSevereBusyMs) deadline)
        in (e, deadline)) (rt_entries t) deadline
      in (t\<lparr>rt_entries := pool\<rparr>, deadline))"

definition recost :: "Entry \<Rightarrow> NodeId \<Rightarrow> RouteMetric \<Rightarrow> RouteCandidate \<Rightarrow> RouteCandidate" where
  "recost e next_hop cost c =
     (if \<not> rc_valid c \<or> rc_next_hop c \<noteq> next_hop then c
      else let metric = route_metric_add (rc_advertised c) cost
           in c\<lparr>rc_metric := metric,
                rc_feasible := metric \<noteq> kInfiniteRouteMetric \<and>
                  feasible e (rc_sequence c) (rc_advertised c)\<rparr>)"

definition via :: "NodeId \<Rightarrow> RouteCandidate \<Rightarrow> bool" where
  "via next_hop c \<longleftrightarrow> rc_valid c \<and> rc_next_hop c = next_hop"

definition recost_entry :: "RouteTable \<Rightarrow> NodeId \<Rightarrow> RouteMetric \<Rightarrow> MonotonicMs \<Rightarrow> Entry \<Rightarrow> Entry" where
  "recost_entry t next_hop cost now_ms e =
     (if list_ex (via next_hop) (e_candidates e)
      then evaluate_in t now_ms (e\<lparr>e_candidates := map (recost e next_hop cost) (e_candidates e)\<rparr>)
      else e)"

definition update_link_cost ::
  "NodeId \<Rightarrow> RouteMetric \<Rightarrow> MonotonicMs \<Rightarrow> RouteTable \<Rightarrow> bool \<times> RouteTable" where
  "update_link_cost next_hop cost now_ms t =
     (if next_hop = kInvalidNodeId \<or> cost = 0 then (False, t)
      else let (pool, touched) = FixedPool_for_each (\<lambda>e touched.
             (recost_entry t next_hop cost now_ms e,
              touched \<or> list_ex (via next_hop) (e_candidates e))) (rt_entries t) False
           in (touched, t\<lparr>rt_entries := pool\<rparr>))"

definition note_next_hop_busy :: "NodeId \<Rightarrow> MonotonicMs \<Rightarrow> RouteTable \<Rightarrow> RouteTable" where
  "note_next_hop_busy next_hop since_ms t =
     (if next_hop = kInvalidNodeId then t
      else case FixedPool_find (\<lambda>l. bl_next_hop l = next_hop) (rt_busy_links t) of
          Some i \<Rightarrow> t\<lparr>rt_busy_links :=
            FixedPool_store i \<lparr>bl_next_hop = next_hop, bl_since_ms = since_ms\<rparr> (rt_busy_links t)\<rparr>
        | None \<Rightarrow>
            (case FixedPool_allocate BusyLink_new (rt_busy_links t) of
               (None, pool) \<Rightarrow> t\<lparr>rt_busy_links := pool\<rparr>
             | (Some i, pool) \<Rightarrow> t\<lparr>rt_busy_links :=
                 FixedPool_store i \<lparr>bl_next_hop = next_hop, bl_since_ms = since_ms\<rparr> pool\<rparr>))"

definition clear_next_hop_busy :: "NodeId \<Rightarrow> RouteTable \<Rightarrow> RouteTable" where
  "clear_next_hop_busy next_hop t =
     t\<lparr>rt_busy_links := snd (FixedPool_release BusyLink_new
       (FixedPool_find (\<lambda>l. bl_next_hop l = next_hop) (rt_busy_links t)) (rt_busy_links t))\<rparr>"

subsection \<open>Withdrawal, link failure, expiry\<close>

definition retract :: "NodeId \<Rightarrow> RouteCandidate \<Rightarrow> RouteCandidate" where
  "retract next_hop c =
     (if via next_hop c
      then c\<lparr>rc_feasible := False, rc_metric := kInfiniteRouteMetric, rc_advertised := kInfiniteRouteMetric\<rparr>
      else c)"

text \<open>The step \<^verbatim>\<open>if (!select(entry).valid) entry.sequence_request_needed = true;\<close>\<close>

definition request_if_lost :: "Entry \<Rightarrow> Entry" where
  "request_if_lost e = (if \<not> rs_valid (select e) then e\<lparr>e_sequence_request_needed := True\<rparr> else e)"

definition withdraw_entry :: "RouteTable \<Rightarrow> NodeId \<Rightarrow> MonotonicMs \<Rightarrow> Entry \<Rightarrow> Entry" where
  "withdraw_entry t next_hop now_ms e =
     (if list_ex (via next_hop) (e_candidates e)
      then evaluate_in t now_ms (arm_tombstone (rt_tombstone_dwell_ms t) now_ms
             (request_if_lost (e\<lparr>e_candidates := map (retract next_hop) (e_candidates e),
                e_hold_next_hop := next_hop, e_hold_until_ms := now_ms + kRouteHoldDownMs\<rparr>)))
      else e)"

definition withdraw :: "NodeId \<Rightarrow> NodeId \<Rightarrow> MonotonicMs \<Rightarrow> RouteTable \<Rightarrow> bool \<times> RouteTable" where
  "withdraw destination next_hop now_ms t =
     (case entry_slot t destination of
        None \<Rightarrow> (False, t)
      | Some i \<Rightarrow>
          (let e = p_items (rt_entries t) ! i
           in (list_ex (via next_hop) (e_candidates e),
               put_entry i (withdraw_entry t next_hop now_ms e) t)))"

definition drop_candidates :: "(RouteCandidate \<Rightarrow> bool) \<Rightarrow> Entry \<Rightarrow> Entry" where
  "drop_candidates P e =
     e\<lparr>e_candidates := map (\<lambda>c. if P c then RouteCandidate_new else c) (e_candidates e)\<rparr>"

definition invalidate_entry :: "RouteTable \<Rightarrow> NodeId \<Rightarrow> MonotonicMs \<Rightarrow> bool \<Rightarrow> Entry \<Rightarrow> Entry" where
  "invalidate_entry t next_hop now_ms hold e =
     (let removed = list_ex (via next_hop) (e_candidates e);
          e = drop_candidates (via next_hop) e;
          e = (if \<not> hold \<and> e_hold_next_hop e = next_hop
               then e\<lparr>e_hold_next_hop := kInvalidNodeId, e_hold_until_ms := 0\<rparr> else e)
      in if removed
         then let e = (if hold then e\<lparr>e_hold_next_hop := next_hop,
                         e_hold_until_ms := now_ms + kRouteHoldDownMs\<rparr> else e)
              in evaluate_in t now_ms (arm_tombstone (rt_tombstone_dwell_ms t) now_ms (request_if_lost e))
         else e)"

definition invalidate_next_hop :: "NodeId \<Rightarrow> MonotonicMs \<Rightarrow> bool \<Rightarrow> RouteTable \<Rightarrow> RouteTable" where
  "invalidate_next_hop next_hop now_ms hold t =
     t\<lparr>rt_entries := fst (FixedPool_for_each (\<lambda>e s. (invalidate_entry t next_hop now_ms hold e, s))
        (rt_entries t) ())\<rparr>"

definition lapsed :: "MonotonicMs \<Rightarrow> RouteCandidate \<Rightarrow> bool" where
  "lapsed now_ms c \<longleftrightarrow> rc_valid c \<and> rc_expires_at_ms c \<le> now_ms"

definition expire_entry :: "RouteTable \<Rightarrow> MonotonicMs \<Rightarrow> Entry \<Rightarrow> Entry" where
  "expire_entry t now_ms e =
     (let removed = list_ex (lapsed now_ms) (e_candidates e);
          e = drop_candidates (lapsed now_ms) e;
          e = (if removed then request_if_lost e else e);
          e = arm_tombstone (rt_tombstone_dwell_ms t) now_ms e
      in if removed then evaluate_in t now_ms e else e)"

definition entry_deadline :: "Entry \<Rightarrow> MonotonicMs option \<Rightarrow> MonotonicMs option" where
  "entry_deadline e deadline =
     (let deadline = (if e_tombstone_expires_at_ms e \<noteq> 0
                      then map_option (min (e_tombstone_expires_at_ms e)) deadline else deadline)
      in fold (\<lambda>c d. if rc_valid c then map_option (min (rc_expires_at_ms c)) d else d)
           (e_candidates e) deadline)"

definition tombstone_due :: "MonotonicMs \<Rightarrow> Entry \<Rightarrow> bool" where
  "tombstone_due now_ms e \<longleftrightarrow>
     e_tombstone_expires_at_ms e \<noteq> 0 \<and> e_tombstone_expires_at_ms e \<le> now_ms"

definition expire ::
  "MonotonicMs \<Rightarrow> MonotonicMs option \<Rightarrow> RouteTable \<Rightarrow> nat \<times> RouteTable \<times> MonotonicMs option" where
  "expire now_ms deadline t =
     (let pool = snd (FixedPool_erase_if Entry_new (tombstone_due now_ms) (rt_entries t));
          (pool, deadline) = FixedPool_for_each (\<lambda>e deadline.
            let e = expire_entry t now_ms e in (e, entry_deadline e deadline)) pool deadline
      in (2 * FixedPool_capacity pool, t\<lparr>rt_entries := pool\<rparr>, deadline))"

text \<open>The scan for the oldest armed tombstone remembers a slot.\<close>

definition oldest_tombstone :: "Entry FixedPool \<Rightarrow> nat option" where
  "oldest_tombstone p =
     fold (\<lambda>i oldest.
         if \<not> p_used p ! i \<or> e_tombstone_expires_at_ms (p_items p ! i) = 0 then oldest
         else case oldest of
             None \<Rightarrow> Some i
           | Some j \<Rightarrow> if e_tombstone_expires_at_ms (p_items p ! i) <
                          e_tombstone_expires_at_ms (p_items p ! j) then Some i else Some j)
       [0..<FixedPool_capacity p] None"

definition reclaim_tombstone :: "RouteTable \<Rightarrow> bool \<times> RouteTable" where
  "reclaim_tombstone t =
     (let (released, pool) =
        FixedPool_release Entry_new (oldest_tombstone (rt_entries t)) (rt_entries t)
      in (released, t\<lparr>rt_entries := pool\<rparr>))"

subsection \<open>Advertisements\<close>

datatype RouteUpdateResult =
  Accepted | Updated | Withdrawn | Infeasible | StaleGeneration | HeldDown | Ignored | RouteUpdate_NoCapacity

definition new_generation :: "RouteGeneration \<Rightarrow> Entry \<Rightarrow> Entry" where
  "new_generation generation e =
     e\<lparr>e_generation := generation, e_feasible := FeasibleDistance_new,
       e_candidates := map (\<lambda>_. RouteCandidate_new) (e_candidates e),
       e_last_selected := LastSelection_new, e_hold_next_hop := kInvalidNodeId,
       e_hold_until_ms := 0, e_tombstone_expires_at_ms := 0, e_sequence_request_needed := False,
       e_committed_next_hop := kInvalidNodeId, e_improvement_next_hop := kInvalidNodeId,
       e_switch_hold_until_ms := 0, e_improvement_ad_ms := 0\<rparr>"

text \<open>From the hold-down test to the end of \<^verbatim>\<open>consider\<close>, on the entry.\<close>

definition learn ::
  "RouteTable \<Rightarrow> RouteAdvertisement \<Rightarrow> NodeId \<Rightarrow> RouteMetric \<Rightarrow> MonotonicMs \<Rightarrow> MonotonicMs \<Rightarrow> Entry \<Rightarrow>
     RouteUpdateResult \<times> Entry" where
  "learn t ad next_hop link_metric now_ms lifetime_ms e =
     (if next_hop = e_hold_next_hop e \<and> now_ms < e_hold_until_ms e then (HeldDown, e)
      else
        let total = route_metric_add (ra_metric ad) link_metric;
            is_feasible = (total \<noteq> kInfiniteRouteMetric \<and> feasible e (ra_sequence ad) (ra_metric ad));
            i = candidate_slot e next_hop;
            existed = via next_hop (e_candidates e ! i);
            c = \<lparr>rc_next_hop = next_hop, rc_expires_at_ms = now_ms + lifetime_ms,
                 rc_sequence = ra_sequence ad, rc_metric = total, rc_advertised = ra_metric ad,
                 rc_feasible = is_feasible, rc_valid = True\<rparr>;
            e = e\<lparr>e_candidates := (e_candidates e)[i := c], e_tombstone_expires_at_ms := 0\<rparr>
        in if is_feasible
           then (if existed then Updated else Accepted,
                 evaluate_in t now_ms (e\<lparr>e_sequence_request_needed := False\<rparr>))
           else (Infeasible,
                 evaluate_in t now_ms (e\<lparr>e_sequence_request_needed := \<not> rs_valid (select e)\<rparr>)))"

text \<open>\<^verbatim>\<open>consider\<close> once the entry is found or allocated in slot \<open>i\<close>.\<close>

definition consider_at ::
  "nat \<Rightarrow> RouteAdvertisement \<Rightarrow> NodeId \<Rightarrow> RouteMetric \<Rightarrow> MonotonicMs \<Rightarrow> MonotonicMs \<Rightarrow> RouteTable \<Rightarrow>
     RouteUpdateResult \<times> RouteTable" where
  "consider_at i ad next_hop link_metric now_ms lifetime_ms t =
     (let e = p_items (rt_entries t) ! i
      in if ra_generation ad < e_generation e then (StaleGeneration, t)
         else
           let e = (if e_generation e < ra_generation ad then new_generation (ra_generation ad) e else e);
               t = put_entry i e t
           in if ra_metric ad = kInfiniteRouteMetric
              then (let (removed, t) = withdraw (ra_destination ad) next_hop now_ms t
                    in (if removed then Withdrawn else Ignored, t))
              else let (r, e) = learn t ad next_hop link_metric now_ms lifetime_ms e
                   in (r, put_entry i e t))"

definition consider_route ::
  "RouteAdvertisement \<Rightarrow> NodeId \<Rightarrow> RouteMetric \<Rightarrow> MonotonicMs \<Rightarrow> MonotonicMs \<Rightarrow> RouteTable \<Rightarrow>
     RouteUpdateResult \<times> RouteTable" where
  "consider_route ad next_hop link_metric now_ms lifetime_ms t =
     (if ra_destination ad = kInvalidNodeId \<or> next_hop = kInvalidNodeId \<or> link_metric = 0 \<or> lifetime_ms = 0
      then (Ignored, t)
      else
        let (slot, t) = (if ra_metric ad = kInfiniteRouteMetric then (entry_slot t (ra_destination ad), t)
                         else find_or_allocate (ra_destination ad) t)
        in case slot of
             None \<Rightarrow> (if ra_metric ad = kInfiniteRouteMetric then Ignored else RouteUpdate_NoCapacity, t)
           | Some i \<Rightarrow> consider_at i ad next_hop link_metric now_ms lifetime_ms t)"

subsection \<open>Queries and bookkeeping\<close>

definition best :: "RouteTable \<Rightarrow> NodeId \<Rightarrow> RouteSelection" where
  "best t destination = (case entry_of t destination of None \<Rightarrow> RouteSelection_new | Some e \<Rightarrow> select e)"

definition set_announced_up :: "NodeId \<Rightarrow> bool \<Rightarrow> RouteTable \<Rightarrow> RouteTable" where
  "set_announced_up destination announced t =
     (case entry_slot t destination of
        None \<Rightarrow> t
      | Some i \<Rightarrow> put_entry i ((p_items (rt_entries t) ! i)\<lparr>e_announced_up := announced\<rparr>) t)"

definition announced_up :: "RouteTable \<Rightarrow> NodeId \<Rightarrow> bool" where
  "announced_up t destination =
     (case entry_of t destination of None \<Rightarrow> False | Some e \<Rightarrow> e_announced_up e)"

definition lost_route ::
  "RouteTable \<Rightarrow> NodeId \<Rightarrow> (NodeId \<times> RouteGeneration \<times> RouteSequence) option" where
  "lost_route t destination =
     (case entry_of t destination of
        None \<Rightarrow> None
      | Some e \<Rightarrow>
          if rs_valid (select e) then None
          else if \<not> has_candidates e \<and> e_tombstone_expires_at_ms e = 0 then None
          else Some (e_destination e, e_generation e,
                 if fd_valid (e_feasible e) then fd_sequence (e_feasible e) else 0))"

definition selected_candidate :: "Entry \<Rightarrow> RouteSelection \<Rightarrow> RouteCandidate option" where
  "selected_candidate e s =
     List.find (\<lambda>c. rc_valid c \<and> rc_next_hop c = rs_next_hop s \<and> rc_sequence c = rs_sequence s)
       (e_candidates e)"

definition selection_expires_at :: "RouteTable \<Rightarrow> NodeId \<Rightarrow> MonotonicMs" where
  "selection_expires_at t destination =
     (case entry_of t destination of
        None \<Rightarrow> 0
      | Some e \<Rightarrow>
          if \<not> rs_valid (select e) then 0
          else case selected_candidate e (select e) of
              Some c \<Rightarrow> rc_expires_at_ms c | None \<Rightarrow> 0)"

definition selection_remaining :: "RouteTable \<Rightarrow> NodeId \<Rightarrow> MonotonicMs \<Rightarrow> MonotonicMs option" where
  "selection_remaining t destination now_ms =
     (case entry_of t destination of
        None \<Rightarrow> None
      | Some e \<Rightarrow>
          if \<not> rs_valid (select e) then None
          else case selected_candidate e (select e) of
              Some c \<Rightarrow> Some (if now_ms < rc_expires_at_ms c then rc_expires_at_ms c - now_ms else 0)
            | None \<Rightarrow> None)"

definition mark_entry :: "Entry \<Rightarrow> Entry" where
  "mark_entry e =
     (let s = select e; fd = e_feasible e;
          tighter = (seq_newer (rs_sequence s) (fd_sequence fd) \<or>
            (\<not> seq_ambiguous (rs_sequence s) (fd_sequence fd) \<and> rs_sequence s = fd_sequence fd \<and>
             rs_metric s < fd_metric fd));
          fd = (if \<not> fd_valid fd
                then \<lparr>fd_sequence = rs_sequence s, fd_metric = rs_metric s, fd_valid = True\<rparr>
                else if tighter then fd\<lparr>fd_sequence := rs_sequence s, fd_metric := rs_metric s\<rparr>
                else fd)
      in e\<lparr>e_feasible := fd, e_last_selected := LastSelection_from s\<rparr>)"

definition mark_advertised :: "NodeId \<Rightarrow> RouteTable \<Rightarrow> bool \<times> RouteTable" where
  "mark_advertised destination t =
     (case entry_slot t destination of
        None \<Rightarrow> (False, t)
      | Some i \<Rightarrow>
          (let e = p_items (rt_entries t) ! i
           in if \<not> rs_valid (select e) then (False, t) else (True, put_entry i (mark_entry e) t)))"

definition needs_sequence_request :: "RouteTable \<Rightarrow> NodeId \<Rightarrow> bool" where
  "needs_sequence_request t destination =
     (case entry_of t destination of None \<Rightarrow> False | Some e \<Rightarrow> e_sequence_request_needed e)"

definition requested_sequence :: "RouteTable \<Rightarrow> NodeId \<Rightarrow> RouteSequence" where
  "requested_sequence t destination =
     (case entry_of t destination of
        None \<Rightarrow> 0
      | Some e \<Rightarrow>
          if \<not> e_sequence_request_needed e then 0
          else if fd_valid (e_feasible e) then fd_sequence (e_feasible e) + 1 else 1)"

definition request_next_hop :: "RouteTable \<Rightarrow> NodeId \<Rightarrow> nat \<Rightarrow> NodeId \<Rightarrow> NodeId \<Rightarrow> NodeId" where
  "request_next_hop t destination attempt exclude_a exclude_b =
     (case entry_of t destination of
        None \<Rightarrow> kInvalidNodeId
      | Some e \<Rightarrow>
          (let s = select e in
           if rs_valid s \<and> rs_next_hop s \<noteq> exclude_a \<and> rs_next_hop s \<noteq> exclude_b then rs_next_hop s
           else let hops = map rc_next_hop (filter (\<lambda>c. rc_valid c \<and> rc_next_hop c \<noteq> exclude_a \<and>
                             rc_next_hop c \<noteq> exclude_b) (e_candidates e))
                in if length hops \<noteq> 0 then hops ! (attempt mod length hops) else kInvalidNodeId))"

definition repair_hint :: "RouteTable \<Rightarrow> NodeId \<Rightarrow> NodeId" where
  "repair_hint t destination =
     (case entry_of t destination of None \<Rightarrow> kInvalidNodeId | Some e \<Rightarrow> e_hold_next_hop e)"

definition RouteTable_size :: "RouteTable \<Rightarrow> nat" where
  "RouteTable_size t = FixedPool_size (rt_entries t)"

text \<open>
  \<^verbatim>\<open>for_each_selected_change\<close>: the entry after the visit, the report if one fires (the new and
  the previous selection) and the deadline.
\<close>

definition selected_change ::
  "MonotonicMs \<Rightarrow> Entry \<Rightarrow> MonotonicMs option \<Rightarrow>
     Entry \<times> (RouteSelection \<times> RouteSelection) option \<times> MonotonicMs option" where
  "selected_change now_ms e deadline =
     (let s = select e; l = e_last_selected e;
          changed = (rs_valid s \<noteq> ls_valid l \<or>
            rs_valid s \<and> (rs_next_hop s \<noteq> ls_next_hop l \<or> rs_sequence s \<noteq> ls_sequence l \<or>
                          rs_metric s \<noteq> ls_metric l));
          pure = (rs_valid s \<and> ls_valid l \<and> rs_next_hop s = ls_next_hop l \<and>
            rs_sequence s = ls_sequence l \<and> rs_metric s < ls_metric l)
      in if \<not> changed then (e, None, deadline)
         else if pure \<and> e_improvement_ad_ms e \<noteq> 0 \<and> now_ms - e_improvement_ad_ms e < kImprovementAdGapMs
         then (e, None, map_option (min (e_improvement_ad_ms e + kImprovementAdGapMs)) deadline)
         else (e\<lparr>e_improvement_ad_ms := (if pure then now_ms else e_improvement_ad_ms e),
                 e_last_selected := LastSelection_from s\<rparr>,
               Some (s, LastSelection_to l (e_destination e) (e_generation e)), deadline))"

definition for_each_selected_change ::
  "MonotonicMs \<Rightarrow> MonotonicMs option \<Rightarrow> RouteTable \<Rightarrow>
     (RouteSelection \<times> RouteSelection) list \<times> RouteTable \<times> MonotonicMs option" where
  "for_each_selected_change now_ms deadline t =
     (let (pool, out, deadline) = FixedPool_for_each (\<lambda>e (out, deadline).
        let (e, report, deadline) = selected_change now_ms e deadline
        in (e, (out @ (case report of None \<Rightarrow> [] | Some r \<Rightarrow> [r])), deadline)) (rt_entries t) ([], deadline)
      in (out, t\<lparr>rt_entries := pool\<rparr>, deadline))"

definition for_each_selected :: "RouteTable \<Rightarrow> RouteSelection list" where
  "for_each_selected t = filter rs_valid (map select (FixedPool_live (rt_entries t)))"

definition for_each_sequence_request :: "RouteTable \<Rightarrow> (NodeId \<times> RouteSequence) list" where
  "for_each_sequence_request t =
     map (\<lambda>e. (e_destination e,
               if fd_valid (e_feasible e) then fd_sequence (e_feasible e) + 1 else 1))
       (filter e_sequence_request_needed (FixedPool_live (rt_entries t)))"

definition for_each_lost :: "RouteTable \<Rightarrow> (NodeId \<times> RouteGeneration \<times> RouteSequence) list" where
  "for_each_lost t =
     map (\<lambda>e. (e_destination e, e_generation e,
               if fd_valid (e_feasible e) then fd_sequence (e_feasible e) else 0))
       (filter (\<lambda>e. \<not> rs_valid (select e) \<and> (has_candidates e \<or> e_tombstone_expires_at_ms e \<noteq> 0))
         (FixedPool_live (rt_entries t)))"

definition knows :: "RouteTable \<Rightarrow> NodeId \<Rightarrow> bool" where
  "knows t destination \<longleftrightarrow> entry_slot t destination \<noteq> None"

definition scoped_lifetime_sufficient :: "u32 \<Rightarrow> u32 \<Rightarrow> u32 \<Rightarrow> bool" where
  "scoped_lifetime_sufficient period_ms lifetime_ms refresh_ticks \<longleftrightarrow>
     period_ms \<noteq> 0 \<and> refresh_ticks \<noteq> 0 \<and>
     (2 * ucast refresh_ticks + 2) * ucast period_ms \<le> (ucast lifetime_ms :: u64)"

definition flat_refresh_pages :: "u64 \<Rightarrow> u64" where
  "flat_refresh_pages destinations = (if destinations = 0 then 1 else (destinations + 6 - 1) div 6)"

definition flat_lifetime_sufficient :: "u32 \<Rightarrow> u32 \<Rightarrow> u64 \<Rightarrow> bool" where
  "flat_lifetime_sufficient period_ms lifetime_ms destinations \<longleftrightarrow>
     period_ms \<noteq> 0 \<and>
     (flat_refresh_pages destinations + 1) * ucast period_ms < (ucast lifetime_ms :: u64)"

subsection \<open>Operations as steps\<close>

datatype route_op =
    Op_consider RouteAdvertisement NodeId RouteMetric MonotonicMs MonotonicMs
  | Op_withdraw NodeId NodeId MonotonicMs
  | Op_invalidate NodeId MonotonicMs bool
  | Op_link_cost NodeId RouteMetric MonotonicMs
  | Op_evaluate MonotonicMs
  | Op_expire MonotonicMs
  | Op_reclaim
  | Op_busy NodeId MonotonicMs
  | Op_clear_busy NodeId
  | Op_advertised NodeId
  | Op_announced NodeId bool
  | Op_changes MonotonicMs
  | Op_self NodeId
  | Op_dwell u32

primrec route_step :: "route_op \<Rightarrow> RouteTable \<Rightarrow> RouteTable" where
  "route_step (Op_consider ad hop link now life) t = snd (consider_route ad hop link now life t)"
| "route_step (Op_withdraw d hop now) t = snd (withdraw d hop now t)"
| "route_step (Op_invalidate hop now hold) t = invalidate_next_hop hop now hold t"
| "route_step (Op_link_cost hop cost now) t = snd (update_link_cost hop cost now t)"
| "route_step (Op_evaluate now) t = fst (evaluate now None t)"
| "route_step (Op_expire now) t = fst (snd (expire now None t))"
| "route_step Op_reclaim t = snd (reclaim_tombstone t)"
| "route_step (Op_busy hop since) t = note_next_hop_busy hop since t"
| "route_step (Op_clear_busy hop) t = clear_next_hop_busy hop t"
| "route_step (Op_advertised d) t = snd (mark_advertised d t)"
| "route_step (Op_announced d b) t = set_announced_up d b t"
| "route_step (Op_changes now) t = fst (snd (for_each_selected_change now None t))"
| "route_step (Op_self self) t = set_self self t"
| "route_step (Op_dwell ms) t = set_tombstone_dwell ms t"

definition run_routes :: "nat \<Rightarrow> nat \<Rightarrow> route_op list \<Rightarrow> RouteTable" where
  "run_routes entries busy ops = fold route_step ops (RouteTable_new entries busy)"

subsection \<open>Entries through the operations\<close>

definition entry_ok :: "Entry \<Rightarrow> bool" where
  "entry_ok e \<longleftrightarrow> entry_inv e \<and> settled e"

text \<open>
  \<open>keeps e e'\<close>: the destination, the generation and the feasible distance stay, and every
  finite advertisement remembered afterwards was remembered before.
\<close>

definition keeps :: "Entry \<Rightarrow> Entry \<Rightarrow> bool" where
  "keeps e e' \<longleftrightarrow> e_destination e' = e_destination e \<and> e_generation e' = e_generation e \<and>
     e_feasible e' = e_feasible e \<and>
     (\<forall>c' \<in> set (e_candidates e'). rc_valid c' \<and> rc_advertised c' \<noteq> kInfiniteRouteMetric \<longrightarrow>
       (\<exists>c \<in> set (e_candidates e). rc_valid c \<and> rc_next_hop c = rc_next_hop c' \<and>
          rc_sequence c = rc_sequence c' \<and> rc_advertised c = rc_advertised c'))"

named_theorems entry_thms

lemma infinite_metric_top [simp]: "\<not> kInfiniteRouteMetric < m"
  using unsigned_less [of m, where ?'a = nat] by (simp add: word_less_nat_alt)

lemma entry_okD: "entry_ok e \<Longrightarrow> entry_inv e"
  by (simp add: entry_ok_def)

lemma keeps_refl [simp, entry_thms]: "keeps e e"
  by (auto simp: keeps_def)

lemma keepsI:
  assumes "e_destination e' = e_destination e" "e_generation e' = e_generation e"
    "e_feasible e' = e_feasible e" "e_candidates e' = map f (e_candidates e)"
    and "\<And>c. c \<in> set (e_candidates e) \<Longrightarrow> rc_valid (f c) \<Longrightarrow> rc_advertised (f c) \<noteq> kInfiniteRouteMetric \<Longrightarrow>
      rc_valid c \<and> rc_next_hop (f c) = rc_next_hop c \<and> rc_sequence (f c) = rc_sequence c \<and>
      rc_advertised (f c) = rc_advertised c"
  shows "keeps e e'"
  using assms by (fastforce simp: keeps_def)

lemma settled_cong:
  assumes "e_candidates e' = e_candidates e" "e_feasible e' = e_feasible e"
    "e_committed_next_hop e' = e_committed_next_hop e"
  shows "settled e' = settled e"
proof -
  have "selectable e' = selectable e"
    by (intro ext) (simp add: selectable_def assms(1) eligible_cong [OF assms(2)])
  with best_candidate_cong [OF assms(1,2)] show ?thesis
    unfolding settled_def chosen_def assms(3) by presburger
qed

lemma entry_ok_cong:
  assumes "e_destination e' = e_destination e" "e_candidates e' = e_candidates e"
    "e_feasible e' = e_feasible e" "e_committed_next_hop e' = e_committed_next_hop e"
    "e_tombstone_expires_at_ms e' = e_tombstone_expires_at_ms e"
  shows "entry_ok e' = entry_ok e"
  using settled_cong [OF assms(2-4)] assms by (simp add: entry_ok_def entry_inv_def has_candidates_def)

lemma entry_ok_evaluate: "entry_inv e \<Longrightarrow> entry_ok (evaluate_in t now e)"
  by (simp add: entry_ok_def evaluate_in_def settled_evaluate entry_inv_def cands_inv_def)

lemma evaluate_in_frame [simp]:
  "e_destination (evaluate_in t now e) = e_destination e"
  "e_candidates (evaluate_in t now e) = e_candidates e"
  "e_generation (evaluate_in t now e) = e_generation e"
  "e_feasible (evaluate_in t now e) = e_feasible e"
  "e_tombstone_expires_at_ms (evaluate_in t now e) = e_tombstone_expires_at_ms e"
  "e_hold_next_hop (evaluate_in t now e) = e_hold_next_hop e"
  "e_hold_until_ms (evaluate_in t now e) = e_hold_until_ms e"
  "e_sequence_request_needed (evaluate_in t now e) = e_sequence_request_needed e"
  by (simp_all add: evaluate_in_def)

lemma arm_tombstone_frame [simp]:
  "e_destination (arm_tombstone w now e) = e_destination e"
  "e_candidates (arm_tombstone w now e) = e_candidates e"
  "e_generation (arm_tombstone w now e) = e_generation e"
  "e_feasible (arm_tombstone w now e) = e_feasible e"
  "e_committed_next_hop (arm_tombstone w now e) = e_committed_next_hop e"
  "e_hold_next_hop (arm_tombstone w now e) = e_hold_next_hop e"
  "e_hold_until_ms (arm_tombstone w now e) = e_hold_until_ms e"
  "e_sequence_request_needed (arm_tombstone w now e) = e_sequence_request_needed e"
  by (simp_all add: arm_tombstone_def)

lemma request_if_lost_frame [simp]:
  "e_destination (request_if_lost e) = e_destination e"
  "e_candidates (request_if_lost e) = e_candidates e"
  "e_generation (request_if_lost e) = e_generation e"
  "e_feasible (request_if_lost e) = e_feasible e"
  "e_tombstone_expires_at_ms (request_if_lost e) = e_tombstone_expires_at_ms e"
  "e_committed_next_hop (request_if_lost e) = e_committed_next_hop e"
  "e_hold_next_hop (request_if_lost e) = e_hold_next_hop e"
  "e_hold_until_ms (request_if_lost e) = e_hold_until_ms e"
  by (simp_all add: request_if_lost_def)

lemma entry_inv_arm [simp]: "entry_inv e \<Longrightarrow> entry_inv (arm_tombstone w now e)"
  by (auto simp: entry_inv_def arm_tombstone_def has_candidates_def)

lemma entry_inv_request [simp]: "entry_inv (request_if_lost e) = entry_inv e"
  by (simp add: entry_inv_def has_candidates_def)

text \<open>Replacing the candidates by a validity-preserving map.\<close>

lemma entry_inv_map:
  assumes "entry_inv e" "e_destination e' = e_destination e"
    "e_candidates e' = map f (e_candidates e)" "e_tombstone_expires_at_ms e' = e_tombstone_expires_at_ms e"
    and "\<And>c. c \<in> set (e_candidates e) \<Longrightarrow> cand_inv c \<Longrightarrow> cand_inv (f c) \<and>
      (rc_valid (f c) \<longrightarrow> rc_valid c \<and> rc_next_hop (f c) = rc_next_hop c)"
  shows "entry_inv e'"
proof -
  have "cands_inv (e_candidates e')"
    unfolding assms(3) using assms(1,5) by (intro cands_inv_map) (auto simp: entry_inv_def)
  moreover have "has_candidates e' \<longrightarrow> has_candidates e"
    using assms(1,3,5) by (auto simp: has_candidates_def list_ex_iff entry_inv_def cands_inv_def)
  ultimately show ?thesis using assms by (auto simp: entry_inv_def)
qed

lemma recost_cand:
  "rc_valid (recost e hop cost c) = rc_valid c" "rc_next_hop (recost e hop cost c) = rc_next_hop c"
  "rc_sequence (recost e hop cost c) = rc_sequence c" "rc_advertised (recost e hop cost c) = rc_advertised c"
  by (simp_all add: recost_def Let_def)

lemma recost_cand_inv: "cost \<noteq> 0 \<Longrightarrow> cand_inv c \<Longrightarrow> cand_inv (recost e hop cost c)"
  using route_metric_add_gt [of "rc_advertised c" cost] by (auto simp: recost_def cand_inv_def Let_def)

lemma entry_ok_recost [entry_thms]:
  assumes "entry_ok e" "cost \<noteq> 0"
  shows "entry_ok (recost_entry t hop cost now e)" "keeps e (recost_entry t hop cost now e)"
proof -
  have "entry_inv (e\<lparr>e_candidates := map (recost e hop cost) (e_candidates e)\<rparr>)"
    by (rule entry_inv_map [where e = e and f = "recost e hop cost"])
      (use assms in \<open>simp_all add: entry_ok_def recost_cand recost_cand_inv\<close>)
  with assms show "entry_ok (recost_entry t hop cost now e)"
    by (simp add: recost_entry_def entry_ok_evaluate)
  have "keeps e (evaluate_in t now (e\<lparr>e_candidates := map (recost e hop cost) (e_candidates e)\<rparr>))"
    by (rule keepsI [where f = "recost e hop cost"]) (simp_all add: recost_cand)
  then show "keeps e (recost_entry t hop cost now e)"
    by (simp add: recost_entry_def)
qed

lemma retract_cand:
  "rc_valid (retract hop c) = rc_valid c" "rc_next_hop (retract hop c) = rc_next_hop c"
  by (simp_all add: retract_def)

lemma retract_cand_inv: "cand_inv c \<Longrightarrow> cand_inv (retract hop c)"
  by (auto simp: retract_def via_def cand_inv_def)

lemma entry_ok_withdraw [entry_thms]:
  assumes "entry_ok e"
  shows "entry_ok (withdraw_entry t hop now e)" "keeps e (withdraw_entry t hop now e)"
proof -
  let ?e = "e\<lparr>e_candidates := map (retract hop) (e_candidates e), e_hold_next_hop := hop,
      e_hold_until_ms := now + kRouteHoldDownMs\<rparr>"
  have "entry_inv ?e"
    by (rule entry_inv_map [where e = e and f = "retract hop"])
      (use assms in \<open>simp_all add: entry_ok_def retract_cand retract_cand_inv\<close>)
  with assms show "entry_ok (withdraw_entry t hop now e)"
    by (simp add: withdraw_entry_def entry_ok_evaluate)
  have "keeps e (evaluate_in t now (arm_tombstone w now (request_if_lost ?e)))" for w
    by (rule keepsI [where f = "retract hop"]) (simp_all add: retract_def split: if_splits)
  then show "keeps e (withdraw_entry t hop now e)"
    by (simp add: withdraw_entry_def)
qed

lemma entry_inv_drop [simp]: "entry_inv e \<Longrightarrow> entry_inv (drop_candidates P e)"
  by (rule entry_inv_map [where f = "\<lambda>c. if P c then RouteCandidate_new else c"])
    (auto simp: drop_candidates_def)

lemma drop_candidates_none: "\<not> list_ex P (e_candidates e) \<Longrightarrow> drop_candidates P e = e"
  by (simp add: drop_candidates_def list_ex_iff cong: map_cong)

lemma drop_candidates_frame [simp]:
  "e_destination (drop_candidates P e) = e_destination e"
  "e_generation (drop_candidates P e) = e_generation e"
  "e_feasible (drop_candidates P e) = e_feasible e"
  "e_hold_next_hop (drop_candidates P e) = e_hold_next_hop e"
  "e_candidates (drop_candidates P e) = map (\<lambda>c. if P c then RouteCandidate_new else c) (e_candidates e)"
  by (simp_all add: drop_candidates_def)

lemma keeps_drop:
  assumes "e_destination e' = e_destination e" "e_generation e' = e_generation e"
    "e_feasible e' = e_feasible e"
    "e_candidates e' = map (\<lambda>c. if P c then RouteCandidate_new else c) (e_candidates e)"
  shows "keeps e e'"
  using assms by (intro keepsI [where f = "\<lambda>c. if P c then RouteCandidate_new else c"])
    (simp_all split: if_splits)

lemma entry_ok_invalidate [entry_thms]:
  assumes "entry_ok e"
  shows "entry_ok (invalidate_entry t hop now hold e)" "keeps e (invalidate_entry t hop now hold e)"
proof -
  let ?d = "drop_candidates (via hop) e"
  have inv: "entry_inv ?d" using assms by (simp add: entry_ok_def)
  have hold: "entry_inv (e'\<lparr>e_hold_next_hop := h, e_hold_until_ms := u\<rparr>) = entry_inv e'" for e' h u
    by (simp add: entry_inv_def has_candidates_def)
  show "entry_ok (invalidate_entry t hop now hold e)"
  proof (cases "list_ex (via hop) (e_candidates e)")
    case True
    with inv show ?thesis by (simp add: invalidate_entry_def Let_def entry_ok_evaluate hold)
  next
    case False
    have "entry_ok (e\<lparr>e_hold_next_hop := h, e_hold_until_ms := u\<rparr>) = entry_ok e" for h u
      by (rule entry_ok_cong) simp_all
    with False assms show ?thesis by (simp add: invalidate_entry_def Let_def drop_candidates_none)
  qed
  show "keeps e (invalidate_entry t hop now hold e)"
    by (rule keeps_drop [where P = "via hop"]) (simp_all add: invalidate_entry_def Let_def)
qed

lemma entry_ok_expire [entry_thms]:
  assumes "entry_ok e"
  shows "entry_ok (expire_entry t now e)" "keeps e (expire_entry t now e)"
proof -
  have inv: "entry_inv (drop_candidates (lapsed now) e)" using assms by (simp add: entry_ok_def)
  show "entry_ok (expire_entry t now e)"
  proof (cases "list_ex (lapsed now) (e_candidates e)")
    case True
    with inv show ?thesis by (simp add: expire_entry_def Let_def entry_ok_evaluate)
  next
    case False
    have "settled (arm_tombstone w now e) = settled e" for w by (rule settled_cong) simp_all
    with False assms show ?thesis
      by (simp add: expire_entry_def Let_def drop_candidates_none entry_ok_def)
  qed
  show "keeps e (expire_entry t now e)"
    by (rule keeps_drop [where P = "lapsed now"]) (simp_all add: expire_entry_def Let_def)
qed

lemma entry_ok_evaluate_in [entry_thms]: "entry_ok e \<Longrightarrow> entry_ok (evaluate_in t now e)"
  "keeps e (evaluate_in t now e)"
  by (simp add: entry_ok_evaluate entry_okD) (auto simp: keeps_def)

lemma settled_empty:
  assumes "\<forall>c \<in> set (e_candidates e). \<not> rc_valid c" "e_committed_next_hop e = kInvalidNodeId"
  shows "settled e"
proof (rule settled_commit)
  show "e_committed_next_hop e = kInvalidNodeId \<longrightarrow> best_candidate e kInvalidNodeId = None"
    using assms best_candidate_sound [of e kInvalidNodeId]
    by (cases "best_candidate e kInvalidNodeId") (auto simp: eligible_def)
qed (use assms in simp)

lemma entry_ok_new: "d \<noteq> kInvalidNodeId \<Longrightarrow> entry_ok (Entry_new\<lparr>e_destination := d\<rparr>)"
  by (auto simp: entry_ok_def entry_inv_def intro!: settled_empty) (auto simp: Entry_new_def)

lemma entry_ok_generation:
  assumes "entry_ok e"
  shows "entry_ok (new_generation g e)"
proof -
  have c: "e_candidates (new_generation g e) = map (\<lambda>_. RouteCandidate_new) (e_candidates e)"
    by (simp add: new_generation_def)
  have "cands_inv (e_candidates (new_generation g e))"
    unfolding c using assms by (intro cands_inv_map) (auto simp: entry_ok_def entry_inv_def)
  moreover have "settled (new_generation g e)"
    by (rule settled_empty) (auto simp: new_generation_def)
  ultimately show ?thesis using assms by (simp add: entry_ok_def entry_inv_def new_generation_def)
qed

text \<open>The entry after \<^verbatim>\<open>consider\<close> recorded an advertisement.\<close>

definition recorded ::
  "RouteAdvertisement \<Rightarrow> NodeId \<Rightarrow> RouteMetric \<Rightarrow> MonotonicMs \<Rightarrow> MonotonicMs \<Rightarrow> Entry \<Rightarrow> RouteCandidate" where
  "recorded ad hop link now life e =
     \<lparr>rc_next_hop = hop, rc_expires_at_ms = now + life, rc_sequence = ra_sequence ad,
      rc_metric = route_metric_add (ra_metric ad) link, rc_advertised = ra_metric ad,
      rc_feasible = route_metric_add (ra_metric ad) link \<noteq> kInfiniteRouteMetric \<and>
        feasible e (ra_sequence ad) (ra_metric ad), rc_valid = True\<rparr>"

lemma recorded_inv: "hop \<noteq> kInvalidNodeId \<Longrightarrow> link \<noteq> 0 \<Longrightarrow> cand_inv (recorded ad hop link now life e)"
  by (simp add: cand_inv_def recorded_def route_metric_add_gt)

lemma learn_cases:
  obtains (held) "learn t ad hop link now life e = (HeldDown, e)"
      "hop = e_hold_next_hop e" "now < e_hold_until_ms e"
  | (stored) r b where "learn t ad hop link now life e =
      (r, evaluate_in t now (e\<lparr>e_candidates := (e_candidates e)[candidate_slot e hop := recorded ad hop link now life e],
        e_tombstone_expires_at_ms := 0, e_sequence_request_needed := b\<rparr>))"
      "r = (if rc_feasible (recorded ad hop link now life e)
            then if via hop (e_candidates e ! candidate_slot e hop) then Updated else Accepted
            else Infeasible)"
      "\<not> (hop = e_hold_next_hop e \<and> now < e_hold_until_ms e)"
proof (cases "hop = e_hold_next_hop e \<and> now < e_hold_until_ms e")
  case True
  with held show ?thesis by (simp add: learn_def)
next
  case False
  note False [unfolded de_Morgan_conj]
  show ?thesis
  proof (cases "rc_feasible (recorded ad hop link now life e)")
    case True
    then have "learn t ad hop link now life e = (if via hop (e_candidates e ! candidate_slot e hop)
          then Updated else Accepted,
        evaluate_in t now (e\<lparr>e_candidates := (e_candidates e)[candidate_slot e hop := recorded ad hop link now life e],
          e_tombstone_expires_at_ms := 0, e_sequence_request_needed := False\<rparr>))"
      unfolding learn_def Let_def if_not_P [OF False] recorded_def by simp
    from stored [OF this _ False] True show ?thesis by simp
  next
    case infeasible: False
    let ?e = "e\<lparr>e_candidates := (e_candidates e)[candidate_slot e hop := recorded ad hop link now life e],
          e_tombstone_expires_at_ms := 0\<rparr>"
    from infeasible have "learn t ad hop link now life e = (Infeasible,
        evaluate_in t now (?e\<lparr>e_sequence_request_needed := \<not> rs_valid (select ?e)\<rparr>))"
      unfolding learn_def Let_def if_not_P [OF False] recorded_def by auto
    from stored [OF this _ False] infeasible show ?thesis by simp
  qed
qed

lemma entry_ok_learn:
  assumes "entry_ok e" "hop \<noteq> kInvalidNodeId" "link \<noteq> 0"
  shows "entry_ok (snd (learn t ad hop link now life e))"
proof (cases rule: learn_cases [of t ad hop link now life e])
  case (stored r b)
  have "cands_inv ((e_candidates e)[candidate_slot e hop := recorded ad hop link now life e])"
    using cands_inv_store [of e "recorded ad hop link now life e"] assms recorded_inv [of hop link]
    by (simp add: entry_ok_def entry_inv_def recorded_def)
  with assms(1) have "entry_inv (e\<lparr>e_candidates := (e_candidates e)[candidate_slot e hop :=
      recorded ad hop link now life e], e_tombstone_expires_at_ms := 0, e_sequence_request_needed := b\<rparr>)"
    by (simp add: entry_ok_def entry_inv_def)
  then show ?thesis by (simp add: stored entry_ok_evaluate)
qed (use assms in simp)

text \<open>An advertised distance \<open>(s, m)\<close> is strictly better than a feasible distance.\<close>

definition fd_better :: "RouteSequence \<Rightarrow> RouteMetric \<Rightarrow> FeasibleDistance \<Rightarrow> bool" where
  "fd_better s m fd \<longleftrightarrow> seq_newer s (fd_sequence fd) \<or> s = fd_sequence fd \<and> m < fd_metric fd"

lemma feasible_better: "fd_valid (e_feasible e) \<Longrightarrow> feasible e s m \<longleftrightarrow> fd_better s m (e_feasible e)"
  by (simp add: feasible_valid_iff fd_better_def)

lemma mark_entry_frame [simp]:
  "e_destination (mark_entry e) = e_destination e" "e_candidates (mark_entry e) = e_candidates e"
  "e_generation (mark_entry e) = e_generation e"
  "e_tombstone_expires_at_ms (mark_entry e) = e_tombstone_expires_at_ms e"
  "e_committed_next_hop (mark_entry e) = e_committed_next_hop e"
  "has_candidates (mark_entry e) = has_candidates e"
  by (simp_all add: mark_entry_def Let_def has_candidates_def)

lemma mark_entry_fd:
  "e_feasible (mark_entry e) =
     (if \<not> fd_valid (e_feasible e) \<or> fd_better (rs_sequence (select e)) (rs_metric (select e)) (e_feasible e)
      then \<lparr>fd_sequence = rs_sequence (select e), fd_metric = rs_metric (select e), fd_valid = True\<rparr>
      else e_feasible e)"
proof -
  have amb: "seq_ambiguous a b \<Longrightarrow> a \<noteq> b" for a b by (auto simp: route_sequence_newer_def)
  have upd: "fd_valid fd \<Longrightarrow> fd\<lparr>fd_sequence := s, fd_metric := m\<rparr> =
      \<lparr>fd_sequence = s, fd_metric = m, fd_valid = True\<rparr>" for fd :: FeasibleDistance and s m
    by (cases fd) simp
  show ?thesis
    unfolding mark_entry_def Let_def fd_better_def
    using amb [of "rs_sequence (select e)" "fd_sequence (e_feasible e)"] by (auto simp: upd)
qed

lemma entry_ok_mark:
  assumes "entry_ok e" "chosen e = Some c"
  shows "entry_ok (mark_entry e)"
proof -
  from assms have sel: "selectable e (e_committed_next_hop e) = Some c"
    by (simp add: entry_ok_def settled_def)
  note c = selectable_Some [OF sel]
  with assms(1) have "rc_advertised c < rc_metric c"
    by (auto simp: entry_ok_def entry_inv_def cands_inv_def cand_inv_def eligible_def)
  have "eligible (mark_entry e) c"
  proof (cases "e_feasible (mark_entry e) = e_feasible e")
    case True
    from eligible_cong [OF this] c(2) show ?thesis by simp
  next
    case False
    then have "e_feasible (mark_entry e) =
        \<lparr>fd_sequence = rc_sequence c, fd_metric = rc_metric c, fd_valid = True\<rparr>"
      using select_chosen [OF assms(2)] by (simp add: mark_entry_fd split: if_splits)
    with c(2) \<open>rc_advertised c < rc_metric c\<close> show ?thesis by (simp add: eligible_def feasible_valid_iff)
  qed
  with c have "settled (mark_entry e)" by (intro settled_commit) auto
  with assms(1) show ?thesis by (simp add: entry_ok_def entry_inv_def)
qed

lemma selected_change_entry:
  "entry_ok (fst (selected_change now e dl)) = entry_ok e"
  "keeps e (fst (selected_change now e dl))"
  "fst (selected_change now e dl) = fst (selected_change now e None)"
proof -
  have "entry_ok (e\<lparr>e_improvement_ad_ms := x, e_last_selected := y\<rparr>) = entry_ok e"
    "entry_ok (e\<lparr>e_last_selected := y\<rparr>) = entry_ok e" for x y
    by (rule entry_ok_cong; simp)+
  then show "entry_ok (fst (selected_change now e dl)) = entry_ok e"
    by (simp add: selected_change_def Let_def)
  show "keeps e (fst (selected_change now e dl))"
    by (auto simp: selected_change_def Let_def keeps_def)
  show "fst (selected_change now e dl) = fst (selected_change now e None)"
    by (auto simp: selected_change_def Let_def)
qed

subsection \<open>The table as a map from destinations to entries\<close>

definition table_ok :: "RouteTable \<Rightarrow> bool" where
  "table_ok t \<longleftrightarrow> pool_inv (rt_entries t) \<and> keyed e_destination (\<lambda>i. FixedPool_at i (rt_entries t)) \<and>
     (\<forall>i e. FixedPool_at i (rt_entries t) = Some e \<longrightarrow> entry_ok e) \<and>
     pool_inv (rt_busy_links t) \<and> keyed bl_next_hop (\<lambda>i. FixedPool_at i (rt_busy_links t))"

lemma entry_of_lookup: "entry_of t = fp.lookup e_destination (rt_entries t)"
  by (simp add: fun_eq_iff entry_of_def entry_slot_def fp.lookup_def)

lemma entry_of_iff:
  "table_ok t \<Longrightarrow> entry_of t d = Some e \<longleftrightarrow>
     e_destination e = d \<and> (\<exists>i. FixedPool_at i (rt_entries t) = Some e)"
  unfolding entry_of_lookup by (subst fp.lookup_Some_iff) (auto simp: table_ok_def ran_def)

lemma entry_of_ok: "table_ok t \<Longrightarrow> entry_of t d = Some e \<Longrightarrow> entry_ok e \<and> e_destination e = d"
  by (auto simp: entry_of_iff) (auto simp: table_ok_def)

lemma entry_slot_Some:
  assumes "entry_slot t d = Some i"
  shows "FixedPool_at i (rt_entries t) = Some (p_items (rt_entries t) ! i)"
    and "entry_of t d = Some (p_items (rt_entries t) ! i)"
    and "e_destination (p_items (rt_entries t) ! i) = d"
proof -
  from fp.find_Some [OF assms [unfolded entry_slot_def]]
  obtain e where "FixedPool_at i (rt_entries t) = Some e" "e_destination e = d" by auto
  then show "FixedPool_at i (rt_entries t) = Some (p_items (rt_entries t) ! i)"
    "entry_of t d = Some (p_items (rt_entries t) ! i)" "e_destination (p_items (rt_entries t) ! i) = d"
    using assms by (auto simp: entry_of_def)
qed

lemma entry_slot_None: "entry_slot t d = None \<longleftrightarrow> entry_of t d = None"
  using entry_slot_Some [of t d] by (cases "entry_slot t d") (auto simp: entry_of_def)

lemma for_each_table:
  assumes ok: "table_ok t" and fn: "\<And>e s. fst (fn e s) = f e"
    and f: "\<And>e. entry_ok e \<Longrightarrow> entry_ok (f e) \<and> e_destination (f e) = e_destination e"
    and t': "t' = t\<lparr>rt_entries := fst (FixedPool_for_each fn (rt_entries t) s)\<rparr>"
  shows "table_ok t'" "entry_of t' d = map_option f (entry_of t d)"
proof -
  have p: "pool_inv (rt_entries t)" and k: "keyed e_destination (\<lambda>i. FixedPool_at i (rt_entries t))"
    and e: "\<And>i e. FixedPool_at i (rt_entries t) = Some e \<Longrightarrow> entry_ok e"
    using ok by (auto simp: table_ok_def)
  have slots: "pool_inv (rt_entries t')"
    "\<And>i. FixedPool_at i (rt_entries t') = map_option f (FixedPool_at i (rt_entries t))"
    using FixedPool_for_each_slots [where fn = fn and f = f and s = s, OF p fn] by (simp_all add: t')
  show ok': "table_ok t'"
    using ok slots keyedD [OF k] f e
    by (auto simp: table_ok_def t' keyed_def)
  show "entry_of t' d = map_option f (entry_of t d)"
  proof (cases "entry_of t d")
    case None
    have "entry_of t' d \<noteq> Some x" for x
    proof
      assume "entry_of t' d = Some x"
      then obtain i y where "FixedPool_at i (rt_entries t) = Some y" "x = f y" "e_destination x = d"
        unfolding entry_of_iff [OF ok'] slots by blast
      with e f None show False using entry_of_iff [OF ok, of d y] by force
    qed
    with None show ?thesis by (cases "entry_of t' d") auto
  next
    case (Some x)
    then obtain i where i: "FixedPool_at i (rt_entries t) = Some x" "e_destination x = d"
      unfolding entry_of_iff [OF ok] by blast
    then have "FixedPool_at i (rt_entries t') = Some (f x)" by (simp only: slots option.map)
    with i e f Some show ?thesis using entry_of_iff [OF ok', of d "f x"] by force
  qed
qed

lemma put_entry_table:
  assumes ok: "table_ok t" and i: "FixedPool_at i (rt_entries t) = Some e"
    and e': "entry_ok e'" "e_destination e' = e_destination e"
  shows "table_ok (put_entry i e' t)"
    and "entry_of (put_entry i e' t) = (entry_of t)(e_destination e := Some e')"
proof -
  have p: "pool_inv (rt_entries t)" "keyed e_destination (\<lambda>i. FixedPool_at i (rt_entries t))"
    using ok by (auto simp: table_ok_def)
  note st = fp.store_slot [OF p(1) i, of e']
  have "entry_ok x" if "FixedPool_at j (FixedPool_store i e' (rt_entries t)) = Some x" for j x
    using that ok e'(1) fun_cong [OF conjunct1 [OF st], of j]
    by (cases "j = i") (auto simp: table_ok_def simp del: FixedPool_at_Some)
  then show "table_ok (put_entry i e' t)"
    using ok st fp.keyed_store [OF p i e'(2)]
    by (simp add: table_ok_def put_entry_def del: FixedPool_at_Some)
  show "entry_of (put_entry i e' t) = (entry_of t)(e_destination e := Some e')"
    using fp.lookup_store [OF p i e'(2)] by (simp add: entry_of_lookup put_entry_def)
qed

lemma find_or_allocate_table:
  assumes ok: "table_ok t" and res: "find_or_allocate d t = (Some i, t')"
  shows "table_ok t'" "entry_slot t' d = Some i"
    and "entry_of t' = (entry_of t)(d := Some (case entry_of t d of
      None \<Rightarrow> Entry_new\<lparr>e_destination := d\<rparr> | Some e \<Rightarrow> e))"
    and "rt_busy_links t' = rt_busy_links t" "rt_self_id t' = rt_self_id t"
    "rt_tombstone_dwell_ms t' = rt_tombstone_dwell_ms t"
proof -
  have p: "pool_inv (rt_entries t)" "keyed e_destination (\<lambda>i. FixedPool_at i (rt_entries t))"
    using ok by (auto simp: table_ok_def)
  have d: "d \<noteq> kInvalidNodeId" using res by (auto simp: find_or_allocate_def)
  let ?e = "Entry_new\<lparr>e_destination := d\<rparr>"
  have "table_ok t' \<and> entry_slot t' d = Some i \<and> entry_of t' = (entry_of t)(d := Some (case entry_of t d of
      None \<Rightarrow> ?e | Some e \<Rightarrow> e)) \<and> rt_busy_links t' = rt_busy_links t \<and> rt_self_id t' = rt_self_id t \<and>
      rt_tombstone_dwell_ms t' = rt_tombstone_dwell_ms t"
  proof (cases "entry_slot t d")
    case (Some j)
    with res d ok entry_slot_Some(2) [OF Some] show ?thesis
      by (auto simp: find_or_allocate_def fun_upd_idem)
  next
    case None
    with res d obtain pool where a: "FixedPool_allocate Entry_new (rt_entries t) = (Some i, pool)"
      "t' = put_entry i ?e (t\<lparr>rt_entries := pool\<rparr>)"
      by (auto simp: find_or_allocate_def split: prod.splits option.splits)
    have n: "FixedPool_find (\<lambda>x. e_destination x = e_destination ?e) (rt_entries t) = None"
      using None by (simp add: entry_slot_def)
    note al = fp.alloc_Some [OF p(1) a(1)]
    then have i: "FixedPool_at i pool = Some Entry_new" using fun_cong [of _ _ i] by fastforce
    have st: "(\<lambda>j. FixedPool_at j (FixedPool_store i ?e pool)) =
        (\<lambda>j. FixedPool_at j (rt_entries t))(i := Some ?e)" "pool_inv (FixedPool_store i ?e pool)"
      using fp.store_slot [of pool, OF _ i, of ?e] al by auto
    have "entry_ok x" if "FixedPool_at j (FixedPool_store i ?e pool) = Some x" for j x
      using that ok entry_ok_new [OF d] fun_cong [OF st(1), of j]
      by (cases "j = i") (auto simp: table_ok_def simp del: FixedPool_at_Some)
    then have ok': "table_ok t'"
      using ok fp.keyed_add [OF p n a(1)] st(2)
      by (simp add: table_ok_def a(2) put_entry_def del: FixedPool_at_Some)
    moreover have l: "entry_of t' = (entry_of t)(d := Some ?e)"
      using fp.lookup_add [OF p n a(1)] by (simp add: entry_of_lookup a(2) put_entry_def)
    moreover have "entry_slot t' d = Some i"
      using fp.lookup_unique [of e_destination "rt_entries t'" i ?e] ok' fun_cong [OF st(1), of i]
      by (simp add: table_ok_def entry_slot_def a(2) put_entry_def del: FixedPool_at_Some)
    ultimately show ?thesis using None by (auto simp: entry_slot_None a(2) put_entry_def)
  qed
  then show "table_ok t'" "entry_slot t' d = Some i"
    "entry_of t' = (entry_of t)(d := Some (case entry_of t d of None \<Rightarrow> ?e | Some e \<Rightarrow> e))"
    "rt_busy_links t' = rt_busy_links t" "rt_self_id t' = rt_self_id t"
    "rt_tombstone_dwell_ms t' = rt_tombstone_dwell_ms t" by blast+
qed

lemma find_or_allocate_None:
  "find_or_allocate d t = (None, t') \<Longrightarrow> t' = t"
  using fp.alloc_None [of Entry_new "rt_entries t"]
  by (auto simp: find_or_allocate_def split: if_splits option.splits prod.splits)

text \<open>How each operation changes the entry of a destination.\<close>

lemma entry_ops_destination [simp]:
  "e_destination (recost_entry t hop cost now e) = e_destination e"
  "e_destination (withdraw_entry t hop now e) = e_destination e"
  "e_destination (invalidate_entry t hop now hold e) = e_destination e"
  "e_destination (expire_entry t now e) = e_destination e"
  by (simp_all add: recost_entry_def withdraw_entry_def invalidate_entry_def expire_entry_def Let_def)

lemma entry_of_evaluate:
  assumes "table_ok t"
  shows "table_ok (fst (evaluate now dl t))"
    and "entry_of (fst (evaluate now dl t)) d = map_option (evaluate_in t now) (entry_of t d)"
  by (rule for_each_table [OF assms, where f = "evaluate_in t now"];
      auto simp: evaluate_def Let_def split_beta entry_thms)+

lemma entry_of_link_cost:
  assumes "table_ok t"
  shows "table_ok (snd (update_link_cost hop cost now t))"
    and "entry_of (snd (update_link_cost hop cost now t)) d =
      (if hop = kInvalidNodeId \<or> cost = 0 then entry_of t d
       else map_option (recost_entry t hop cost now) (entry_of t d))"
proof -
  have "table_ok (snd (update_link_cost hop cost now t)) \<and>
    entry_of (snd (update_link_cost hop cost now t)) d = map_option (recost_entry t hop cost now) (entry_of t d)"
    if "hop \<noteq> kInvalidNodeId" "cost \<noteq> 0"
  proof -
    note f = for_each_table [OF assms, where f = "recost_entry t hop cost now"]
    show ?thesis
      by (rule conjI; rule f; auto simp: that update_link_cost_def Let_def split_beta entry_thms)
  qed
  then show "table_ok (snd (update_link_cost hop cost now t))"
    "entry_of (snd (update_link_cost hop cost now t)) d =
      (if hop = kInvalidNodeId \<or> cost = 0 then entry_of t d
       else map_option (recost_entry t hop cost now) (entry_of t d))"
    using assms by (auto simp: update_link_cost_def)
qed

lemma entry_of_invalidate:
  assumes "table_ok t"
  shows "table_ok (invalidate_next_hop hop now hold t)"
    and "entry_of (invalidate_next_hop hop now hold t) d =
      map_option (invalidate_entry t hop now hold) (entry_of t d)"
  by (rule for_each_table [OF assms, where f = "invalidate_entry t hop now hold"];
      auto simp: invalidate_next_hop_def entry_thms) +

lemma entry_of_changes:
  assumes "table_ok t"
  shows "table_ok (fst (snd (for_each_selected_change now dl t)))"
    and "entry_of (fst (snd (for_each_selected_change now dl t))) d =
      map_option (\<lambda>e. fst (selected_change now e None)) (entry_of t d)"
proof -
  let ?fn = "\<lambda>e (out, dl). let (e, r, dl) = selected_change now e dl
      in (e, (out @ (case r of None \<Rightarrow> [] | Some r \<Rightarrow> [r])), dl)"
  note f = for_each_table [OF assms, where f = "\<lambda>e. fst (selected_change now e None)" and fn = ?fn]
  have dest: "e_destination (fst (selected_change now e None)) = e_destination e" for e
    using selected_change_entry(2) [of e now None] by (simp add: keeps_def)
  have fst: "fst (?fn e s) = fst (selected_change now e None)" for e s
    using selected_change_entry(3) [of now e "snd s"] by (simp add: split_beta Let_def)
  show "table_ok (fst (snd (for_each_selected_change now dl t)))"
    "entry_of (fst (snd (for_each_selected_change now dl t))) d =
      map_option (\<lambda>e. fst (selected_change now e None)) (entry_of t d)"
    by (rule f, rule fst, simp add: dest selected_change_entry(1),
        simp add: for_each_selected_change_def split_beta)+
qed

lemma put_slot_table:
  assumes "table_ok t" "entry_slot t d = Some i" "entry_ok e'" "e_destination e' = d"
  shows "table_ok (put_entry i e' t)" "entry_of (put_entry i e' t) = (entry_of t)(d := Some e')"
    "entry_slot (put_entry i e' t) d = Some i"
proof -
  note s = entry_slot_Some [OF assms(2)]
  note p = put_entry_table [OF assms(1) s(1) assms(3)]
  show ok: "table_ok (put_entry i e' t)" "entry_of (put_entry i e' t) = (entry_of t)(d := Some e')"
    using p assms(4) s(3) by simp_all
  have "FixedPool_at i (rt_entries (put_entry i e' t)) = Some e'"
    using assms(1) fp.store_slot [OF _ s(1), of e'] fun_cong [of _ _ i]
    by (fastforce simp: table_ok_def put_entry_def simp del: FixedPool_at_Some)
  then show "entry_slot (put_entry i e' t) d = Some i"
    using fp.lookup_unique [of e_destination "rt_entries (put_entry i e' t)" i e'] ok(1) assms(4)
    by (simp add: table_ok_def entry_slot_def del: FixedPool_at_Some)
qed

lemma entry_of_withdraw:
  assumes "table_ok t"
  shows "table_ok (snd (withdraw d hop now t))"
    and "entry_of (snd (withdraw d hop now t)) =
      (entry_of t)(d := map_option (withdraw_entry t hop now) (entry_of t d))"
proof -
  show "table_ok (snd (withdraw d hop now t))" "entry_of (snd (withdraw d hop now t)) =
      (entry_of t)(d := map_option (withdraw_entry t hop now) (entry_of t d))"
    using entry_slot_Some [of t d] entry_of_ok [OF assms, of d] entry_ok_withdraw [of _ t hop now]
      put_slot_table [OF assms, of d]
    by (auto simp: withdraw_def Let_def assms entry_slot_None keeps_def fun_upd_idem split: option.split)
qed

lemma entry_of_mark:
  assumes "table_ok t"
  shows "table_ok (snd (mark_advertised d t))"
    and "entry_of (snd (mark_advertised d t)) =
      (entry_of t)(d := map_option (\<lambda>e. if rs_valid (select e) then mark_entry e else e) (entry_of t d))"
  using entry_slot_Some [of t d] entry_of_ok [OF assms, of d] entry_ok_mark
    put_slot_table [OF assms, of d]
  by (auto simp: mark_advertised_def Let_def assms entry_slot_None select_valid_iff fun_upd_idem
      split: option.split)

lemma entry_of_announced:
  assumes "table_ok t"
  shows "table_ok (set_announced_up d b t)"
    and "entry_of (set_announced_up d b t) =
      (entry_of t)(d := map_option (\<lambda>e. e\<lparr>e_announced_up := b\<rparr>) (entry_of t d))"
proof -
  have "entry_ok (e\<lparr>e_announced_up := b\<rparr>) = entry_ok e" for e by (rule entry_ok_cong) simp_all
  then show "table_ok (set_announced_up d b t)" "entry_of (set_announced_up d b t) =
      (entry_of t)(d := map_option (\<lambda>e. e\<lparr>e_announced_up := b\<rparr>) (entry_of t d))"
    using entry_slot_Some [of t d] entry_of_ok [OF assms, of d] put_slot_table [OF assms, of d]
    by (auto simp: set_announced_up_def assms entry_slot_None fun_upd_idem split: option.split)
qed

lemma erase_table:
  assumes ok: "table_ok t"
    and t': "t' = t\<lparr>rt_entries := snd (FixedPool_erase_if Entry_new P (rt_entries t))\<rparr>"
  shows "table_ok t'"
    and "entry_of t' d = (case entry_of t d of None \<Rightarrow> None | Some e \<Rightarrow> if P e then None else Some e)"
proof -
  have p: "pool_inv (rt_entries t)" and k: "keyed e_destination (\<lambda>i. FixedPool_at i (rt_entries t))"
    and e: "\<And>i e. FixedPool_at i (rt_entries t) = Some e \<Longrightarrow> entry_ok e"
    using ok by (auto simp: table_ok_def)
  note er = FixedPool_erase_if_slots [where d = Entry_new and P = P, OF p]
  have slot: "FixedPool_at i (rt_entries t') = Some x \<longleftrightarrow> FixedPool_at i (rt_entries t) = Some x \<and> \<not> P x"
    for i x
    by (auto simp: t' er(3) simp del: FixedPool_at_Some split: option.splits)
  have "keyed e_destination (\<lambda>i. FixedPool_at i (rt_entries t'))"
    unfolding keyed_def slot using keyedD [OF k] by blast
  with ok er(1) e show ok': "table_ok t'"
    unfolding table_ok_def slot by (auto simp: t' simp del: FixedPool_at_Some)
  show "entry_of t' d = (case entry_of t d of None \<Rightarrow> None | Some e \<Rightarrow> if P e then None else Some e)"
  proof (rule option_eqI)
    fix x
    show "entry_of t' d = Some x \<longleftrightarrow>
        (case entry_of t d of None \<Rightarrow> None | Some e \<Rightarrow> if P e then None else Some e) = Some x"
      using entry_of_iff [OF ok', of d x] entry_of_iff [OF ok, of d x]
      by (auto simp: slot simp del: FixedPool_at_Some split: option.splits)
  qed
qed

lemma entry_of_expire:
  assumes "table_ok t"
  shows "table_ok (fst (snd (expire now dl t)))"
    and "entry_of (fst (snd (expire now dl t))) d =
      (case entry_of t d of None \<Rightarrow> None
       | Some e \<Rightarrow> if tombstone_due now e then None else Some (expire_entry t now e))"
proof -
  let ?t = "t\<lparr>rt_entries := snd (FixedPool_erase_if Entry_new (tombstone_due now) (rt_entries t))\<rparr>"
  note er = erase_table [OF assms, of ?t, OF refl]
  have ok: "table_ok (fst (snd (expire now dl t)))"
    and lk: "entry_of (fst (snd (expire now dl t))) d = map_option (expire_entry t now) (entry_of ?t d)"
    by (rule for_each_table [OF er(1), where f = "expire_entry t now"];
        auto simp: expire_def Let_def split_beta entry_thms)+
  from ok show "table_ok (fst (snd (expire now dl t)))" .
  from lk show "entry_of (fst (snd (expire now dl t))) d =
      (case entry_of t d of None \<Rightarrow> None
       | Some e \<Rightarrow> if tombstone_due now e then None else Some (expire_entry t now e))"
    by (simp add: er(2) split: option.split)
qed

text \<open>The oldest armed tombstone.\<close>

lemma oldest_tombstone_Some:
  assumes "oldest_tombstone p = Some i"
  shows "i < FixedPool_capacity p" "p_used p ! i" "e_tombstone_expires_at_ms (p_items p ! i) \<noteq> 0"
    and "\<And>j. j < FixedPool_capacity p \<Longrightarrow> p_used p ! j \<Longrightarrow> e_tombstone_expires_at_ms (p_items p ! j) \<noteq> 0 \<Longrightarrow>
      e_tombstone_expires_at_ms (p_items p ! i) \<le> e_tombstone_expires_at_ms (p_items p ! j)"
proof -
  let ?at = "\<lambda>j. e_tombstone_expires_at_ms (p_items p ! j)"
  let ?armed = "\<lambda>j. p_used p ! j \<and> ?at j \<noteq> 0"
  let ?step = "\<lambda>i oldest. if \<not> p_used p ! i \<or> ?at i = 0 then oldest
         else case oldest of None \<Rightarrow> Some i | Some j \<Rightarrow> if ?at i < ?at j then Some i else Some j"
  have "case fold ?step [0..<n] None of
      None \<Rightarrow> \<forall>j < n. \<not> ?armed j
    | Some i \<Rightarrow> i < n \<and> ?armed i \<and> (\<forall>j < n. ?armed j \<longrightarrow> ?at i \<le> ?at j)" for n
    by (induction n) (auto simp: less_Suc_eq split: option.splits)
  from this [of "FixedPool_capacity p"] assms
  show "i < FixedPool_capacity p" "p_used p ! i" "?at i \<noteq> 0"
    "\<And>j. j < FixedPool_capacity p \<Longrightarrow> p_used p ! j \<Longrightarrow> ?at j \<noteq> 0 \<Longrightarrow> ?at i \<le> ?at j"
    by (simp_all add: oldest_tombstone_def)
qed

lemma reclaim_cases:
  assumes ok: "table_ok t"
  obtains (none) "reclaim_tombstone t = (False, t)"
  | (freed) e where "fst (reclaim_tombstone t)" "entry_of t (e_destination e) = Some e"
      "e_tombstone_expires_at_ms e \<noteq> 0" "table_ok (snd (reclaim_tombstone t))"
      "entry_of (snd (reclaim_tombstone t)) = (entry_of t)(e_destination e := None)"
proof (cases "oldest_tombstone (rt_entries t)")
  case None
  then show ?thesis by (intro none) (simp add: reclaim_tombstone_def fp.release_None)
next
  case (Some i)
  note o = oldest_tombstone_Some [OF Some]
  let ?e = "p_items (rt_entries t) ! i"
  have p: "pool_inv (rt_entries t)" "keyed e_destination (\<lambda>i. FixedPool_at i (rt_entries t))"
    using ok by (auto simp: table_ok_def)
  from o have i: "FixedPool_at i (rt_entries t) = Some ?e" by simp
  obtain b q where q: "FixedPool_release Entry_new (Some i) (rt_entries t) = (b, q)" by fastforce
  note rel = fp.release_Some [OF p(1) i q]
  have r: "reclaim_tombstone t = (b, t\<lparr>rt_entries := q\<rparr>)" by (simp add: reclaim_tombstone_def Some q)
  have "entry_ok x" if "FixedPool_at j q = Some x" for j x
    using that ok rel fun_cong [of "\<lambda>j. FixedPool_at j q" _ j]
    by (cases "j = i") (auto simp: table_ok_def simp del: FixedPool_at_Some)
  then have "table_ok (snd (reclaim_tombstone t))"
    using ok rel fp.keyed_release [OF p i q] by (simp add: table_ok_def r del: FixedPool_at_Some)
  moreover have "entry_of t (e_destination ?e) = Some ?e"
    using i entry_of_iff [OF ok, of "e_destination ?e" ?e] by blast
  ultimately show ?thesis
    using o(3) rel fp.lookup_release [OF p i q] by (intro freed [of ?e]) (simp_all add: r entry_of_lookup)
qed

text \<open>\<^verbatim>\<open>consider\<close> on the entry of its destination.\<close>

definition consider_entry ::
  "RouteTable \<Rightarrow> RouteAdvertisement \<Rightarrow> NodeId \<Rightarrow> RouteMetric \<Rightarrow> MonotonicMs \<Rightarrow> MonotonicMs \<Rightarrow> Entry \<Rightarrow>
     RouteUpdateResult \<times> Entry" where
  "consider_entry t ad hop link now life e =
     (if ra_generation ad < e_generation e then (StaleGeneration, e)
      else let e = (if e_generation e < ra_generation ad then new_generation (ra_generation ad) e else e)
           in if ra_metric ad = kInfiniteRouteMetric
              then (if list_ex (via hop) (e_candidates e) then Withdrawn else Ignored, withdraw_entry t hop now e)
              else learn t ad hop link now life e)"

definition same_env :: "RouteTable \<Rightarrow> RouteTable \<Rightarrow> bool" where
  "same_env t t' \<longleftrightarrow> rt_busy_links t' = rt_busy_links t \<and> rt_self_id t' = rt_self_id t \<and>
     rt_tombstone_dwell_ms t' = rt_tombstone_dwell_ms t"

lemma same_env_put [simp]: "same_env t (put_entry i e t)"
  by (simp add: same_env_def put_entry_def)

lemma same_env_eval:
  assumes "same_env t t'"
  shows "evaluate_in t' = evaluate_in t" "learn t' = learn t" "withdraw_entry t' = withdraw_entry t"
    "consider_entry t' = consider_entry t"
proof -
  have "busy_link t' = busy_link t" "improvement_jitter t' = improvement_jitter t"
    using assms by (simp_all add: same_env_def fun_eq_iff busy_link_def improvement_jitter_def)
  then show e: "evaluate_in t' = evaluate_in t" by (intro ext) (simp add: evaluate_in_def)
  show l: "learn t' = learn t" unfolding learn_def fun_eq_iff e by simp
  show w: "withdraw_entry t' = withdraw_entry t"
    using assms unfolding withdraw_entry_def fun_eq_iff e by (simp add: same_env_def)
  show "consider_entry t' = consider_entry t"
    unfolding consider_entry_def fun_eq_iff l w by simp
qed

lemma entry_ok_consider:
  assumes "entry_ok e" "hop \<noteq> kInvalidNodeId" "link \<noteq> 0"
  shows "entry_ok (snd (consider_entry t ad hop link now life e))"
  using assms entry_ok_generation
  by (simp add: consider_entry_def Let_def entry_ok_learn entry_ok_withdraw)

lemma consider_entry_destination [simp]:
  "e_destination (snd (consider_entry t ad hop link now life e)) = e_destination e"
proof -
  have "e_destination (snd (learn t ad hop link now life e)) = e_destination e" for e
    by (cases rule: learn_cases [of t ad hop link now life e]) simp_all
  then show ?thesis by (simp add: consider_entry_def Let_def new_generation_def)
qed

lemma consider_at_entry:
  assumes ok: "table_ok t" and i: "entry_slot t (ra_destination ad) = Some i"
    and g: "hop \<noteq> kInvalidNodeId" "link \<noteq> 0"
  shows "table_ok (snd (consider_at i ad hop link now life t)) \<and>
    (\<exists>e. entry_of t (ra_destination ad) = Some e \<and>
      fst (consider_at i ad hop link now life t) = fst (consider_entry t ad hop link now life e) \<and>
      entry_of (snd (consider_at i ad hop link now life t)) =
        (entry_of t)(ra_destination ad := Some (snd (consider_entry t ad hop link now life e))))"
proof -
  let ?d = "ra_destination ad"
  let ?e = "p_items (rt_entries t) ! i"
  note s = entry_slot_Some [OF i]
  have oke: "entry_ok ?e" using entry_of_ok [OF ok s(2)] by simp
  define e1 where "e1 = (if e_generation ?e < ra_generation ad then new_generation (ra_generation ad) ?e else ?e)"
  have e1: "entry_ok e1" "e_destination e1 = ?d"
    using oke s(3) entry_ok_generation by (auto simp: e1_def new_generation_def)
  let ?t1 = "put_entry i e1 t"
  note t1 = put_slot_table [OF ok i e1]
  note env = same_env_eval [OF same_env_put [of t i e1]]
  show ?thesis
  proof (cases "ra_generation ad < e_generation ?e")
    case True
    with ok s show ?thesis by (auto simp: consider_at_def consider_entry_def Let_def fun_upd_idem)
  next
    case live: False
    show ?thesis
    proof (cases "ra_metric ad = kInfiniteRouteMetric")
      case True
      have "fst (withdraw ?d hop now ?t1) = list_ex (via hop) (e_candidates e1)"
        using t1 entry_slot_Some(2) [OF t1(3)] by (simp add: withdraw_def Let_def)
      with live True s(2) entry_of_withdraw [OF t1(1), of ?d hop now] t1(2) show ?thesis
        by (auto simp: consider_at_def consider_entry_def e1_def [symmetric] Let_def split_beta env)
    next
      case False
      have l: "entry_ok (snd (learn t ad hop link now life e1))"
        "e_destination (snd (learn t ad hop link now life e1)) = ?d"
        using entry_ok_learn [OF e1(1) g] e1(2)
        by (auto intro: learn_cases [of t ad hop link now life e1])
      show ?thesis
        using live False s(2) put_slot_table [OF t1(1,3) l] t1(2)
        by (auto simp: consider_at_def consider_entry_def e1_def [symmetric] Let_def split_beta env)
    qed
  qed
qed

text \<open>The three outcomes of \<^verbatim>\<open>consider\<close>: nothing happens, or the (possibly fresh) entry is updated.\<close>

lemma consider_route_cases:
  assumes ok: "table_ok t"
  obtains (noop) "snd (consider_route ad hop link now life t) = t"
      "fst (consider_route ad hop link now life t) \<in> {Ignored, RouteUpdate_NoCapacity}"
  | (entry) e where "ra_destination ad \<noteq> kInvalidNodeId" "hop \<noteq> kInvalidNodeId" "link \<noteq> 0" "life \<noteq> 0"
      "entry_of t (ra_destination ad) = Some e \<or>
        entry_of t (ra_destination ad) = None \<and> ra_metric ad \<noteq> kInfiniteRouteMetric \<and>
        e = Entry_new\<lparr>e_destination := ra_destination ad\<rparr>"
      "table_ok (snd (consider_route ad hop link now life t))"
      "fst (consider_route ad hop link now life t) = fst (consider_entry t ad hop link now life e)"
      "entry_of (snd (consider_route ad hop link now life t)) =
        (entry_of t)(ra_destination ad := Some (snd (consider_entry t ad hop link now life e)))"
proof (cases "ra_destination ad = kInvalidNodeId \<or> hop = kInvalidNodeId \<or> link = 0 \<or> life = 0")
  case True
  then show ?thesis by (intro noop) (simp_all add: consider_route_def)
next
  case g: False
  define find where "find = (if ra_metric ad = kInfiniteRouteMetric then (entry_slot t (ra_destination ad), t)
       else find_or_allocate (ra_destination ad) t)"
  obtain slot u where f: "find = (slot, u)" by fastforce
  have c: "consider_route ad hop link now life t = (case slot of
      None \<Rightarrow> (if ra_metric ad = kInfiniteRouteMetric then Ignored else RouteUpdate_NoCapacity, u)
    | Some i \<Rightarrow> consider_at i ad hop link now life u)"
    using g f unfolding consider_route_def find_def by simp
  show ?thesis
  proof (cases slot)
    case None
    with f have "u = t" by (auto simp: find_def dest: find_or_allocate_None split: if_splits)
    with c None show ?thesis by (intro noop) auto
  next
    case (Some i)
    let ?new = "Entry_new\<lparr>e_destination := ra_destination ad\<rparr>"
    have u: "table_ok u" "entry_slot u (ra_destination ad) = Some i" "same_env t u"
      "entry_of u = (entry_of t)(ra_destination ad := Some (case entry_of t (ra_destination ad) of
        None \<Rightarrow> ?new | Some e \<Rightarrow> e))"
      "ra_metric ad = kInfiniteRouteMetric \<longrightarrow> entry_of t (ra_destination ad) \<noteq> None"
      using f ok Some find_or_allocate_table [OF ok, of "ra_destination ad" i u]
        entry_slot_Some(2) [of t "ra_destination ad" i]
      by (auto simp: find_def same_env_def fun_upd_idem split: if_splits)
    from consider_at_entry [OF u(1,2), of hop link now life] g c Some
    obtain e where "table_ok (snd (consider_route ad hop link now life t))"
      "entry_of u (ra_destination ad) = Some e"
      "fst (consider_route ad hop link now life t) = fst (consider_entry t ad hop link now life e)"
      "entry_of (snd (consider_route ad hop link now life t)) =
        (entry_of u)(ra_destination ad := Some (snd (consider_entry t ad hop link now life e)))"
      by (auto simp: same_env_eval [OF u(3)])
    with u(4,5) g show ?thesis by (intro entry [of e]) (auto split: option.splits)
  qed
qed

subsection \<open>Every operation keeps the table well formed\<close>

lemma table_ok_busy:
  assumes "table_ok t"
  shows "table_ok (note_next_hop_busy hop since t)" "entry_of (note_next_hop_busy hop since t) = entry_of t"
proof -
  let ?l = "\<lparr>bl_next_hop = hop, bl_since_ms = since\<rparr>"
  have p: "pool_inv (rt_busy_links t)" "keyed bl_next_hop (\<lambda>i. FixedPool_at i (rt_busy_links t))"
    using assms by (auto simp: table_ok_def)
  have e: "rt_entries (note_next_hop_busy hop since t) = rt_entries t"
    by (simp add: note_next_hop_busy_def split: option.split prod.split)
  have "pool_inv (rt_busy_links (note_next_hop_busy hop since t)) \<and>
      keyed bl_next_hop (\<lambda>i. FixedPool_at i (rt_busy_links (note_next_hop_busy hop since t)))"
  proof (cases "FixedPool_find (\<lambda>l. bl_next_hop l = hop) (rt_busy_links t)")
    case (Some i)
    from fp.find_Some [OF Some] obtain x where x: "FixedPool_at i (rt_busy_links t) = Some x" "bl_next_hop x = hop"
      by blast
    from fp.store_slot [OF p(1) x(1), of ?l] fp.keyed_store [OF p x(1), of ?l] x(2) Some p show ?thesis
      by (simp add: note_next_hop_busy_def)
  next
    case None
    then have n: "FixedPool_find (\<lambda>l. bl_next_hop l = bl_next_hop ?l) (rt_busy_links t) = None" by simp
    obtain j q where a: "FixedPool_allocate BusyLink_new (rt_busy_links t) = (j, q)" by fastforce
    show ?thesis
    proof (cases j)
      case None
      with a fp.alloc_None [of BusyLink_new "rt_busy_links t" q] p n show ?thesis
        by (simp add: note_next_hop_busy_def)
    next
      case (Some i)
      note al = fp.alloc_Some [OF p(1) a [unfolded Some]]
      then have "FixedPool_at i q = Some BusyLink_new" using fun_cong [of "\<lambda>j. FixedPool_at j q" _ i] by simp
      with al fp.store_slot [of q i BusyLink_new ?l] fp.keyed_add [OF p n a [unfolded Some]] n p a Some
      show ?thesis by (simp add: note_next_hop_busy_def)
    qed
  qed
  with assms e show "table_ok (note_next_hop_busy hop since t)" by (simp add: table_ok_def)
  show "entry_of (note_next_hop_busy hop since t) = entry_of t" by (simp add: entry_of_lookup e)
qed

lemma table_ok_clear_busy:
  assumes "table_ok t"
  shows "table_ok (clear_next_hop_busy hop t)" "entry_of (clear_next_hop_busy hop t) = entry_of t"
proof -
  have p: "pool_inv (rt_busy_links t)" "keyed bl_next_hop (\<lambda>i. FixedPool_at i (rt_busy_links t))"
    using assms by (auto simp: table_ok_def)
  obtain b q where q: "FixedPool_release BusyLink_new
      (FixedPool_find (\<lambda>l. bl_next_hop l = hop) (rt_busy_links t)) (rt_busy_links t) = (b, q)" by fastforce
  have "pool_inv q \<and> keyed bl_next_hop (\<lambda>i. FixedPool_at i q)"
  proof (cases "FixedPool_find (\<lambda>l. bl_next_hop l = hop) (rt_busy_links t)")
    case (Some i)
    from fp.find_Some [OF Some] obtain x where x: "FixedPool_at i (rt_busy_links t) = Some x" by blast
    from fp.release_Some [OF p(1) x q [unfolded Some]] fp.keyed_release [OF p x q [unfolded Some]]
    show ?thesis by blast
  qed (use p q in \<open>simp add: fp.release_None\<close>)
  with assms q show "table_ok (clear_next_hop_busy hop t)" by (simp add: table_ok_def clear_next_hop_busy_def)
  show "entry_of (clear_next_hop_busy hop t) = entry_of t"
    by (simp add: entry_of_lookup clear_next_hop_busy_def)
qed

lemma table_ok_step: "table_ok t \<Longrightarrow> table_ok (route_step op t)"
proof (cases op)
  case (Op_consider ad hop link now life)
  assume ok: "table_ok t"
  then show ?thesis
    unfolding Op_consider route_step.simps
    by (rule consider_route_cases [of t ad hop link now life]) (simp_all add: ok)
next
  case Op_reclaim
  assume ok: "table_ok t"
  then show ?thesis unfolding Op_reclaim route_step.simps by (rule reclaim_cases) (simp_all add: ok)
next
  case (Op_self self)
  assume "table_ok t"
  then show ?thesis by (simp add: Op_self set_self_def table_ok_def)
next
  case (Op_dwell ms)
  assume "table_ok t"
  then show ?thesis by (simp add: Op_dwell set_tombstone_dwell_def table_ok_def)
qed (simp_all add: entry_of_withdraw entry_of_invalidate entry_of_link_cost entry_of_evaluate
      entry_of_expire table_ok_busy table_ok_clear_busy entry_of_mark entry_of_announced entry_of_changes)

lemma table_ok_new: "table_ok (RouteTable_new n m)"
  by (simp add: table_ok_def RouteTable_new_def del: FixedPool_at_Some)

lemma table_ok_run: "table_ok (run_routes n m ops)"
proof -
  have "table_ok t \<Longrightarrow> table_ok (fold route_step ops t)" for t
    by (induction ops arbitrary: t) (simp_all add: table_ok_step)
  then show ?thesis by (simp add: run_routes_def table_ok_new)
qed

text \<open>
  The four ways a step acts on the entry of one destination: it keeps it, forgets it, records
  an advertisement in it, or tightens its feasible distance.
\<close>

lemma keeps_announced: "keeps e (e\<lparr>e_announced_up := b\<rparr>)"
  by (auto simp: keeps_def)

inductive entry_change :: "RouteTable \<Rightarrow> route_op \<Rightarrow> NodeId \<Rightarrow> Entry option \<Rightarrow> Entry option \<Rightarrow> bool"
  for t op d where
  same: "entry_change t op d x x"
| kept: "keeps e e' \<Longrightarrow> entry_change t op d (Some e) (Some e')"
| gone: "e_tombstone_expires_at_ms e \<noteq> 0 \<Longrightarrow> entry_change t op d (Some e) None"
| heard: "op = Op_consider ad hop link now life \<Longrightarrow> ra_destination ad = d \<Longrightarrow>
    hop \<noteq> kInvalidNodeId \<Longrightarrow> link \<noteq> 0 \<Longrightarrow>
    x = Some e \<or> x = None \<and> ra_metric ad \<noteq> kInfiniteRouteMetric \<and> e = Entry_new\<lparr>e_destination := d\<rparr> \<Longrightarrow>
    entry_change t op d x (Some (snd (consider_entry t ad hop link now life e)))"
| marked: "op = Op_advertised d \<Longrightarrow> rs_valid (select e) \<Longrightarrow>
    entry_change t op d (Some e) (Some (mark_entry e))"

lemma entry_change_map:
  assumes "table_ok t" "x = map_option f (entry_of t d)" "\<And>e. entry_ok e \<Longrightarrow> keeps e (f e)"
  shows "entry_change t op d (entry_of t d) x"
  using assms entry_of_ok [OF assms(1), of d] by (cases "entry_of t d") (auto intro: entry_change.intros)

lemma entry_change_consider:
  assumes "table_ok t"
  shows "entry_change t (Op_consider ad hop link now life) d (entry_of t d)
    (entry_of (snd (consider_route ad hop link now life t)) d)"
proof (rule consider_route_cases [OF assms, of ad hop link now life], goal_cases noop entry)
  case noop
  then show ?case by (simp add: same)
next
  case (entry e)
  then show ?case
    by (cases "ra_destination ad = d") (auto intro: same heard)
qed

lemma entry_change_expire:
  assumes ok: "table_ok t"
  shows "entry_change t op d (entry_of t d) (entry_of (fst (snd (expire now dl t))) d)"
proof (cases "entry_of t d")
  case (Some e)
  with entry_ok_expire(2) [of e t now] entry_of_ok [OF ok Some] show ?thesis
    by (auto simp: entry_of_expire [OF ok] tombstone_due_def intro: entry_change.intros)
qed (simp add: entry_of_expire [OF ok] same)

lemma entry_change_reclaim:
  assumes ok: "table_ok t"
  shows "entry_change t op d (entry_of t d) (entry_of (snd (reclaim_tombstone t)) d)"
proof (rule reclaim_cases [OF ok], goal_cases none freed)
  case none
  then show ?case by (simp add: same)
next
  case (freed e)
  then show ?case by (cases "d = e_destination e") (auto intro: same gone)
qed

lemma entry_change_mark:
  assumes ok: "table_ok t"
  shows "entry_change t (Op_advertised d') d (entry_of t d) (entry_of (snd (mark_advertised d' t)) d)"
  by (cases "entry_of t d") (auto simp: entry_of_mark [OF ok] intro: same marked)

lemma entry_of_settings [simp]:
  "entry_of (set_self self t) = entry_of t" "entry_of (set_tombstone_dwell ms t) = entry_of t"
  by (simp_all add: entry_of_lookup set_self_def set_tombstone_dwell_def)

lemma entry_change_step:
  assumes ok: "table_ok t"
  shows "entry_change t op d (entry_of t d) (entry_of (route_step op t) d)"
proof (cases op)
  case (Op_withdraw d' hop now)
  then show ?thesis
    by (cases "d' = d")
      (simp_all add: entry_of_withdraw [OF ok] same entry_change_map [OF ok _ entry_ok_withdraw(2)])
next
  case (Op_link_cost hop cost now)
  then show ?thesis
    by (cases "hop = kInvalidNodeId \<or> cost = 0")
      (auto simp: entry_of_link_cost [OF ok] same intro: entry_change_map [OF ok _ entry_ok_recost(2)])
next
  case (Op_announced d' b)
  then show ?thesis
    by (cases "d' = d")
      (simp_all add: entry_of_announced [OF ok] same entry_change_map [OF ok _ keeps_announced])
next
  case (Op_invalidate hop now hold)
  show ?thesis
    by (simp add: Op_invalidate entry_of_invalidate [OF ok])
      (rule entry_change_map [OF ok refl entry_ok_invalidate(2)])
next
  case (Op_evaluate now)
  show ?thesis
    by (simp add: Op_evaluate entry_of_evaluate [OF ok])
      (rule entry_change_map [OF ok refl entry_ok_evaluate_in(2)])
next
  case (Op_changes now)
  show ?thesis
    by (simp add: Op_changes entry_of_changes [OF ok])
      (rule entry_change_map [OF ok refl selected_change_entry(2)])
qed (simp_all add: entry_change_consider [OF ok] entry_change_expire [OF ok] entry_change_reclaim [OF ok]
      entry_change_mark [OF ok] table_ok_busy [OF ok] table_ok_clear_busy [OF ok] same)

end
