(* ===== verification/Route_Safety.thy ===== *)
theory Route_Safety
  imports Route_Table
begin

text \<open>
  What the route table guarantees over every sequence of its operations: well-formedness,
  soundness and completeness of the route in use, optimality of the raw choice, monotonicity of
  the feasible distance, permanence of withdrawals, hold-down, and the expiry deadline.
\<close>

subsection \<open>Properties\<close>

text \<open>C9: Whatever the sequence of operations on a fresh route table, the table stays well
  formed: at most one entry per destination, at most three candidates with distinct neighbours,
  finite metrics above the advertised ones, no armed tombstone on an entry that still has a
  candidate, and the committed next hop is the route in use.\<close>

theorem route_table_invariant: "table_ok (run_routes n m ops)"
  by (rule table_ok_run)

lemma selection_valid_candidate:
  assumes "rs_valid (best (run_routes n m ops) d)"
  obtains e c where "entry_of (run_routes n m ops) d = Some e" "c \<in> set (e_candidates e)" "rc_valid c"
    "rs_next_hop (best (run_routes n m ops) d) = rc_next_hop c" "rc_next_hop c = e_committed_next_hop e"
    "rs_sequence (best (run_routes n m ops) d) = rc_sequence c"
    "rs_metric (best (run_routes n m ops) d) = rc_metric c"
    "rc_next_hop c \<noteq> kInvalidNodeId" "rc_metric c \<noteq> kInfiniteRouteMetric" "rc_advertised c < rc_metric c"
    "feasible e (rc_sequence c) (rc_advertised c)"
proof -
  let ?t = "run_routes n m ops"
  from assms obtain e c where e: "entry_of ?t d = Some e" "chosen e = Some c"
    by (auto simp: best_def select_valid_iff RouteSelection_new_def split: option.splits)
  with entry_of_ok [OF table_ok_run e(1)] have "entry_ok e" "selectable e (e_committed_next_hop e) = Some c"
    by (auto simp: entry_ok_def settled_def)
  moreover have "best ?t d = select e" using e by (simp add: best_def)
  ultimately show ?thesis
    using e(1) selectable_Some [of e "e_committed_next_hop e" c]
    by (intro that [of e c])
      (auto simp: select_chosen [OF e(2)] entry_ok_def entry_inv_def cands_inv_def cand_inv_def eligible_def)
qed

text \<open>C6: A route in use is sound: it leads to a live neighbour the entry has a candidate for, its
  metric is finite and exceeds what that neighbour advertised, the advertisement satisfies the
  feasibility condition against the entry's current feasible distance, and the neighbour is the
  one the switching discipline committed to.\<close>

theorem selection_sound:
  assumes "rs_valid (best (run_routes n m ops) d)"
  shows "\<exists>e. entry_of (run_routes n m ops) d = Some e \<and>
    rs_next_hop (best (run_routes n m ops) d) = e_committed_next_hop e \<and>
    (\<exists>c \<in> set (e_candidates e). rc_valid c \<and> rc_next_hop c \<noteq> kInvalidNodeId \<and>
      rs_next_hop (best (run_routes n m ops) d) = rc_next_hop c \<and>
      rs_sequence (best (run_routes n m ops) d) = rc_sequence c \<and>
      rs_metric (best (run_routes n m ops) d) = rc_metric c \<and>
      rc_metric c \<noteq> kInfiniteRouteMetric \<and> rc_advertised c < rc_metric c \<and>
      feasible e (rc_sequence c) (rc_advertised c))"
  by (rule selection_valid_candidate [OF assms]) (metis (no_types, lifting))

text \<open>One destination heard through two neighbours, advertised, then withdrawn by one of them.\<close>

definition example_ad :: "NodeId \<Rightarrow> RouteSequence \<Rightarrow> RouteMetric \<Rightarrow> RouteAdvertisement" where
  "example_ad d s m = \<lparr>ra_destination = d, ra_generation = 1, ra_sequence = s, ra_metric = m\<rparr>"

definition example_ops :: "route_op list" where
  "example_ops = [Op_self 1, Op_consider (example_ad 9 5 20) 2 10 100 5000,
     Op_consider (example_ad 9 5 25) 3 10 110 5000, Op_advertised 9, Op_withdraw 9 2 200]"

lemma example_best:
  "rs_valid (best (run_routes 4 4 example_ops) 9)" "rs_next_hop (best (run_routes 4 4 example_ops) 9) = 3"
  by code_simp+

theorem selection_sound_witness:
  "\<exists>e. entry_of (run_routes 4 4 example_ops) 9 = Some e \<and> e_committed_next_hop e = 3"
  using selection_sound [OF example_best(1)] by (auto simp: example_best(2))

text \<open>C20: A destination has a route exactly when its entry holds a candidate that is live, flagged
  feasible, of finite metric and feasible against the current feasible distance: the table
  never blackholes a destination it has an admissible route for.\<close>

theorem selection_complete:
  "rs_valid (best (run_routes n m ops) d) \<longleftrightarrow>
     (\<exists>e. entry_of (run_routes n m ops) d = Some e \<and> list_ex (eligible e) (e_candidates e))"
proof (cases "entry_of (run_routes n m ops) d")
  case None
  then show ?thesis by (simp add: best_def RouteSelection_new_def)
next
  case (Some e)
  have inv: "\<forall>c \<in> set (e_candidates e). cand_inv c"
    using entry_of_ok [OF table_ok_run Some] by (auto simp: entry_ok_def entry_inv_def cands_inv_def)
  have "rs_valid (best (run_routes n m ops) d) \<longleftrightarrow> chosen e \<noteq> None"
    by (simp add: best_def Some select_valid_iff)
  also have "\<dots> \<longleftrightarrow> list_ex (eligible e) (e_candidates e)"
    using chosen_sound [of e] chosen_None [OF _ inv] by (auto simp: list_ex_iff)
  finally show ?thesis using Some by simp
qed

text \<open>C21: Once the feasible distance of an entry is set, the raw choice among its candidates is the
  best one: no other admissible candidate has a newer sequence, and none of the same sequence has
  a smaller metric.\<close>

theorem best_candidate_optimal:
  assumes "fd_valid (e_feasible e)" "best_candidate e exclude = Some b"
    and "c \<in> set (e_candidates e)" "eligible e c" "rc_next_hop c \<noteq> exclude"
  shows "seq_newer (rc_sequence b) (rc_sequence c) \<or>
    rc_sequence b = rc_sequence c \<and> rc_metric b \<le> rc_metric c"
proof -
  have "in_window (fd_sequence (e_feasible e)) (rc_sequence x)" if "eligible e x" for x
    using that feasible_window [OF assms(1)] by (auto simp: eligible_def)
  from best_candidate_best [OF this assms(2-)] show ?thesis by (simp add: as_good_def)
qed

definition example_entry :: Entry where
  "example_entry = Entry_new\<lparr>e_destination := 9,
     e_candidates := [RouteCandidate_new\<lparr>rc_next_hop := 2, rc_sequence := 5, rc_metric := 40,
         rc_advertised := 10, rc_feasible := True, rc_valid := True\<rparr>,
       RouteCandidate_new\<lparr>rc_next_hop := 3, rc_sequence := 6, rc_metric := 90,
         rc_advertised := 80, rc_feasible := True, rc_valid := True\<rparr>, RouteCandidate_new],
     e_feasible := \<lparr>fd_sequence = 5, fd_metric = 30, fd_valid = True\<rparr>\<rparr>"

lemma example_entry_best:
  "fd_valid (e_feasible example_entry)"
  "map_option rc_next_hop (best_candidate example_entry 0) = Some 3"
  "list_all (\<lambda>c. rc_next_hop c = 2 \<longrightarrow> eligible example_entry c) (e_candidates example_entry)"
  "list_ex (\<lambda>c. rc_next_hop c = 2) (e_candidates example_entry)"
  by code_simp+

theorem best_candidate_optimal_witness:
  "\<exists>b c. best_candidate example_entry 0 = Some b \<and> c \<in> set (e_candidates example_entry) \<and>
     rc_next_hop c = 2 \<and> (seq_newer (rc_sequence b) (rc_sequence c) \<or>
       rc_sequence b = rc_sequence c \<and> rc_metric b \<le> rc_metric c)"
proof -
  from example_entry_best(2) obtain b where b: "best_candidate example_entry 0 = Some b" by auto
  from example_entry_best(3,4) obtain c where c: "c \<in> set (e_candidates example_entry)"
    "eligible example_entry c" "rc_next_hop c = 2" by (auto simp: list_ex_iff list_all_iff)
  then have "rc_next_hop c \<noteq> 0" by simp
  from best_candidate_optimal [OF example_entry_best(1) b c(1,2) this] b c show ?thesis by blast
qed

text \<open>C8: A feasible distance never loosens. Over any operation, an entry that survives either moves to
  a strictly newer generation, or keeps its feasible distance, or sets or strictly tightens it
  to a newer sequence or a smaller metric of the same sequence.\<close>

theorem feasible_distance_tightens:
  assumes "entry_of (run_routes n m ops) d = Some e"
    and "entry_of (route_step op (run_routes n m ops)) d = Some e'"
  shows "e_generation e < e_generation e' \<or> e_generation e' = e_generation e \<and>
    (e_feasible e' = e_feasible e \<or> \<not> fd_valid (e_feasible e) \<or>
     fd_better (fd_sequence (e_feasible e')) (fd_metric (e_feasible e')) (e_feasible e))"
  using entry_change_step [OF table_ok_run, of n m ops op d] unfolding assms
proof cases
  case kept
  then show ?thesis by (simp add: keeps_def)
next
  case (heard ad hop link now life e0)
  have "e_generation (snd (learn t ad hop link now life x)) = e_generation x \<and>
      e_feasible (snd (learn t ad hop link now life x)) = e_feasible x" for t x
    by (cases rule: learn_cases [of t ad hop link now life x]) simp_all
  moreover have "e_generation (withdraw_entry t hop now x) = e_generation x \<and>
      e_feasible (withdraw_entry t hop now x) = e_feasible x" for t x
    by (simp add: withdraw_entry_def)
  ultimately show ?thesis using heard
    by (auto simp: consider_entry_def Let_def new_generation_def)
next
  case marked
  then show ?thesis by (auto simp: mark_entry_fd)
qed simp

lemma example_mark:
  "map_option (\<lambda>e. fd_valid (e_feasible e)) (entry_of (run_routes 4 4 (take 3 example_ops)) 9) = Some False"
  "map_option (\<lambda>e. fd_valid (e_feasible e))
     (entry_of (route_step (Op_advertised 9) (run_routes 4 4 (take 3 example_ops))) 9) = Some True"
  by code_simp+

theorem feasible_distance_tightens_witness:
  "\<exists>e e'. entry_of (run_routes 4 4 (take 3 example_ops)) 9 = Some e \<and>
     entry_of (route_step (Op_advertised 9) (run_routes 4 4 (take 3 example_ops))) 9 = Some e' \<and>
     \<not> fd_valid (e_feasible e) \<and> fd_valid (e_feasible e') \<and> e_generation e \<le> e_generation e'"
proof -
  from example_mark obtain e e' where e: "entry_of (run_routes 4 4 (take 3 example_ops)) 9 = Some e"
    "entry_of (route_step (Op_advertised 9) (run_routes 4 4 (take 3 example_ops))) 9 = Some e'"
    "\<not> fd_valid (e_feasible e)" "fd_valid (e_feasible e')" by auto
  with feasible_distance_tightens [OF e(1,2)] show ?thesis by auto
qed

definition muted :: "NodeId \<Rightarrow> Entry \<Rightarrow> bool" where
  "muted hop e \<longleftrightarrow> (\<forall>c \<in> set (e_candidates e). via hop c \<longrightarrow> rc_advertised c = kInfiniteRouteMetric)"

lemma muted_entry_ops:
  "muted hop (new_generation g e)" "muted hop (Entry_new\<lparr>e_destination := d\<rparr>)"
  "muted hop (mark_entry e) = muted hop e" "muted hop e \<Longrightarrow> muted hop (withdraw_entry t h now e)"
  "muted hop (withdraw_entry t hop now e)"
  by (auto simp: muted_def new_generation_def Entry_new_def withdraw_entry_def retract_def via_def list_ex_iff
      split: if_splits)

lemma muted_keeps:
  assumes "keeps e e'" "muted hop e"
  shows "muted hop e'"
  unfolding muted_def
proof (intro ballI impI, rule ccontr)
  fix c assume c: "c \<in> set (e_candidates e')" "via hop c" "rc_advertised c \<noteq> kInfiniteRouteMetric"
  with assms(1) obtain c0 where "c0 \<in> set (e_candidates e)" "via hop c0" "rc_advertised c0 = rc_advertised c"
    unfolding keeps_def via_def by metis
  with assms(2) c show False by (simp add: muted_def)
qed

lemma muted_consider:
  assumes "muted hop e" "h \<noteq> hop"
  shows "muted hop (snd (consider_entry t ad h link now life e))"
proof -
  have "muted hop (snd (learn t ad h link now life x))" if "muted hop x" for x
    by (cases rule: learn_cases [of t ad h link now life x])
      (use that assms(2) in
        \<open>auto simp: muted_def via_def recorded_def dest!: set_update_subset_insert [THEN subsetD]\<close>)
  with assms(1) show ?thesis by (simp add: consider_entry_def Let_def muted_entry_ops)
qed

lemma muted_step:
  assumes ok: "table_ok t" and m: "pred_option (muted hop) (entry_of t d)"
    and op: "\<And>ad link now life. op = Op_consider ad hop link now life \<Longrightarrow> ra_destination ad \<noteq> d"
  shows "pred_option (muted hop) (entry_of (route_step op t) d)"
  using entry_change_step [OF ok, of op d]
proof cases
  case (heard ad h link now life e)
  then have "h \<noteq> hop" "muted hop e" using op m by (auto simp: muted_entry_ops)
  with muted_consider heard show ?thesis by simp
qed (use m muted_keeps in \<open>auto simp: muted_entry_ops\<close>)

text \<open>C7: A withdrawal cannot be undone by anything but a fresh advertisement from the same neighbour.
  After \<^verbatim>\<open>withdraw(d, hop)\<close>, whatever else happens (link-cost refreshes, load reports,
  evaluations, expiry, other neighbours' advertisements), \<open>d\<close> is never routed through \<open>hop\<close>.\<close>

theorem withdrawn_stays_withdrawn:
  assumes "\<forall>op \<in> set later. \<forall>ad link now life. op = Op_consider ad hop link now life \<longrightarrow> ra_destination ad \<noteq> d"
    and "rs_valid (best (run_routes n m (ops @ [Op_withdraw d hop now] @ later)) d)"
  shows "rs_next_hop (best (run_routes n m (ops @ [Op_withdraw d hop now] @ later)) d) \<noteq> hop"
proof -
  have run: "run_routes n m (ops @ [Op_withdraw d hop now] @ later) =
      fold route_step later (route_step (Op_withdraw d hop now) (run_routes n m ops))"
    by (simp add: run_routes_def)
  have "pred_option (muted hop) (entry_of (route_step (Op_withdraw d hop now) (run_routes n m ops)) d)"
    by (cases "entry_of (run_routes n m ops) d")
      (simp_all add: entry_of_withdraw [OF table_ok_run] muted_entry_ops)
  moreover have later: "table_ok t \<Longrightarrow> pred_option (muted hop) (entry_of t d) \<Longrightarrow>
      pred_option (muted hop) (entry_of (fold route_step ops' t) d)"
    if "set ops' \<subseteq> set later" for ops' t
    using that
  proof (induction ops' arbitrary: t)
    case (Cons op ops')
    then have "pred_option (muted hop) (entry_of (route_step op t) d)"
      using assms(1) by (intro muted_step) auto
    with Cons show ?case by (simp add: table_ok_step)
  qed simp
  ultimately have mu: "pred_option (muted hop) (entry_of (run_routes n m (ops @ [Op_withdraw d hop now] @ later)) d)"
    unfolding run by (intro later table_ok_step table_ok_run order_refl)
  show ?thesis
  proof (rule selection_valid_candidate [OF assms(2)])
    fix e c assume "entry_of (run_routes n m (ops @ [Op_withdraw d hop now] @ later)) d = Some e"
      "c \<in> set (e_candidates e)" "rc_valid c" "rc_advertised c < rc_metric c"
      "rs_next_hop (best (run_routes n m (ops @ [Op_withdraw d hop now] @ later)) d) = rc_next_hop c"
    with mu show ?thesis by (auto simp: muted_def via_def)
  qed
qed

theorem withdrawn_stays_withdrawn_witness:
  "rs_next_hop (best (run_routes 4 4 (take 4 example_ops @ [Op_withdraw 9 2 200] @
     [Op_link_cost 2 1 300, Op_evaluate 20000])) 9) \<noteq> 2"
proof (rule withdrawn_stays_withdrawn)
  show "\<forall>op \<in> set [Op_link_cost 2 1 300, Op_evaluate 20000]. \<forall>ad link now life.
      op = Op_consider ad 2 link now life \<longrightarrow> ra_destination ad \<noteq> 9" by simp
  show "rs_valid (best (run_routes 4 4 (take 4 example_ops @ [Op_withdraw 9 2 200] @
      [Op_link_cost 2 1 300, Op_evaluate 20000])) 9)" by code_simp
qed



lemma map_min_fold:
  fixes f :: "'a \<Rightarrow> 'b::linorder"
  shows "fold (\<lambda>x d. if P x then map_option (min (f x)) d else d) xs (Some a) = Some b \<Longrightarrow>
    b \<le> a \<and> (\<forall>x \<in> set xs. P x \<longrightarrow> b \<le> f x)"
  by (induction xs arbitrary: a) (fastforce split: if_splits)+

lemma fold_min_Some:
  "\<exists>b. fold (\<lambda>x d. if P x then map_option (min (f x)) d else d) xs (Some a) = Some b"
  by (induction xs arbitrary: a) auto

lemma entry_deadline_Some:
  "\<exists>b. entry_deadline e (Some a) = Some b \<and> b \<le> a \<and>
     (e_tombstone_expires_at_ms e \<noteq> 0 \<longrightarrow> b \<le> e_tombstone_expires_at_ms e) \<and>
     (\<forall>c \<in> set (e_candidates e). rc_valid c \<longrightarrow> b \<le> rc_expires_at_ms c)"
proof -
  let ?a = "if e_tombstone_expires_at_ms e \<noteq> 0 then min (e_tombstone_expires_at_ms e) a else a"
  have eq: "entry_deadline e (Some a) = fold (\<lambda>c d. if rc_valid c then map_option (min (rc_expires_at_ms c)) d else d)
      (e_candidates e) (Some ?a)" by (simp add: entry_deadline_def Let_def)
  from fold_min_Some obtain b where b: "entry_deadline e (Some a) = Some b" unfolding eq by blast
  from map_min_fold [OF b [unfolded eq]] b show ?thesis by (auto split: if_splits)
qed

lemma fold_entry_deadline:
  "\<exists>b. fold (\<lambda>e. entry_deadline (f e)) es (Some a) = Some b \<and> b \<le> a \<and> (\<forall>e \<in> set es.
     (e_tombstone_expires_at_ms (f e) \<noteq> 0 \<longrightarrow> b \<le> e_tombstone_expires_at_ms (f e)) \<and>
     (\<forall>c \<in> set (e_candidates (f e)). rc_valid c \<longrightarrow> b \<le> rc_expires_at_ms c))"
proof (induction es arbitrary: a)
  case (Cons e es)
  from entry_deadline_Some [of "f e" a] obtain a' where a': "entry_deadline (f e) (Some a) = Some a'" "a' \<le> a"
    "e_tombstone_expires_at_ms (f e) \<noteq> 0 \<longrightarrow> a' \<le> e_tombstone_expires_at_ms (f e)"
    "\<forall>c \<in> set (e_candidates (f e)). rc_valid c \<longrightarrow> a' \<le> rc_expires_at_ms c" by blast
  from Cons [of a'] a' show ?case by (fastforce intro: order_trans)
qed simp

text \<open>C23: The deadline \<^verbatim>\<open>expire\<close> reports never misses an event: it is no later than the one passed in,
  no later than any armed tombstone, and no later than the lease of any candidate that is left,
  and every lease left ends in the future.\<close>

theorem expire_deadline:
  "\<exists>work t' dl'. expire now (Some dl) (run_routes n m ops) = (work, t', Some dl') \<and> dl' \<le> dl \<and>
     (\<forall>d e. entry_of t' d = Some e \<longrightarrow>
        (e_tombstone_expires_at_ms e \<noteq> 0 \<longrightarrow> dl' \<le> e_tombstone_expires_at_ms e) \<and>
        (\<forall>c \<in> set (e_candidates e). rc_valid c \<longrightarrow> now < rc_expires_at_ms c \<and> dl' \<le> rc_expires_at_ms c))"
proof -
  let ?t = "run_routes n m ops"
  let ?p = "snd (FixedPool_erase_if Entry_new (tombstone_due now) (rt_entries ?t))"
  let ?fn = "\<lambda>e dl. let e = expire_entry ?t now e in (e, entry_deadline e dl)"
  have dl: "snd (snd (expire now (Some dl) ?t)) = fold (\<lambda>e. entry_deadline (expire_entry ?t now e))
      (FixedPool_live ?p) (Some dl)"
    using FixedPool_for_each_state [of ?fn ?p "Some dl"] by (simp add: expire_def Let_def split_beta)
  from fold_entry_deadline [of "expire_entry ?t now" "FixedPool_live ?p" dl] obtain dl' where
    dl': "snd (snd (expire now (Some dl) ?t)) = Some dl'" "dl' \<le> dl"
    "\<forall>e \<in> set (FixedPool_live ?p).
     (e_tombstone_expires_at_ms (expire_entry ?t now e) \<noteq> 0 \<longrightarrow> dl' \<le> e_tombstone_expires_at_ms (expire_entry ?t now e)) \<and>
     (\<forall>c \<in> set (e_candidates (expire_entry ?t now e)). rc_valid c \<longrightarrow> dl' \<le> rc_expires_at_ms c)"
    unfolding dl by blast
  have "(e_tombstone_expires_at_ms e \<noteq> 0 \<longrightarrow> dl' \<le> e_tombstone_expires_at_ms e) \<and>
        (\<forall>c \<in> set (e_candidates e). rc_valid c \<longrightarrow> now < rc_expires_at_ms c \<and> dl' \<le> rc_expires_at_ms c)"
    if "entry_of (fst (snd (expire now (Some dl) ?t))) d = Some e" for d e
  proof -
    from that obtain e0 where e0: "entry_of ?t d = Some e0" "\<not> tombstone_due now e0" "e = expire_entry ?t now e0"
      by (auto simp: entry_of_expire [OF table_ok_run] split: option.splits if_splits)
    then obtain i where "FixedPool_at i (rt_entries ?t) = Some e0"
      using entry_of_iff [OF table_ok_run, of n m ops d e0] by auto
    with e0(2) table_ok_run [of n m ops] have "FixedPool_at i ?p = Some e0"
      by (simp add: table_ok_def FixedPool_erase_if_slots del: FixedPool_at_Some)
    then have "e0 \<in> set (FixedPool_live ?p)" unfolding FixedPool_live_set by (rule ranI)
    moreover have "\<forall>c \<in> set (e_candidates e). rc_valid c \<longrightarrow> now < rc_expires_at_ms c"
      by (auto simp: e0(3) expire_entry_def Let_def lapsed_def not_le split: if_splits)
    ultimately show ?thesis using dl'(3) e0(3) by blast
  qed
  with dl'(1,2) show ?thesis by (metis prod.collapse)
qed

theorem expire_deadline_witness:
  "\<exists>work t' dl'. expire 300 (Some 100000) (run_routes 4 4 example_ops) = (work, t', Some dl') \<and>
     dl' \<le> 5100 \<and> rs_valid (best t' 9)"
proof -
  let ?r = "expire 300 (Some 100000) (run_routes 4 4 example_ops)"
  from expire_deadline [of 300 100000 4 4 example_ops] obtain work t' dl' where
    r: "?r = (work, t', Some dl')" "\<forall>d e. entry_of t' d = Some e \<longrightarrow>
        (e_tombstone_expires_at_ms e \<noteq> 0 \<longrightarrow> dl' \<le> e_tombstone_expires_at_ms e) \<and>
        (\<forall>c \<in> set (e_candidates e). rc_valid c \<longrightarrow> 300 < rc_expires_at_ms c \<and> dl' \<le> rc_expires_at_ms c)"
    by blast
  have "map_option (\<lambda>e. list_ex (\<lambda>c. rc_valid c \<and> rc_expires_at_ms c = 5100) (e_candidates e))
      (entry_of (fst (snd ?r)) 9) = Some True" by code_simp
  then obtain e c where "entry_of t' 9 = Some e" "c \<in> set (e_candidates e)" "rc_valid c" "rc_expires_at_ms c = 5100"
    by (auto simp: r(1) list_ex_iff)
  with r(2) have "dl' \<le> 5100" by force
  moreover have "rs_valid (best (fst (snd ?r)) 9)" by code_simp
  ultimately show ?thesis using r(1) by simp
qed

end
