(* ===== verification/Loop_Freedom.thy ===== *)
theory Loop_Freedom
  imports Route_Table
begin

text \<open>
  A network of nodes that run the route table of \<^verbatim>\<open>src/routing.cpp\<close>, seen for one destination
  \<open>d\<close>. Every advertisement ever sent stays available to every node, so messages may be
  delayed, reordered, duplicated or lost. A step of the network is
  \<^item> the origin sending its own record (metric 0, \<^verbatim>\<open>node_route.cpp:24\<close>; the direct-neighbour seed of
    \<^verbatim>\<open>node.cpp:200\<close> has the same form),
  \<^item> a node advertising its route in use: the record leaves and \<^verbatim>\<open>mark_advertised\<close> runs,
  \<^item> a node considering a record some neighbour sent, over a link of any cost, at any time,
  \<^item> any other operation of the table, retractions from anyone included, that does not forget
    the destination.

  Two assumptions are part of the step relation and not of the code: the sequences of one
  origin generation stay within half the sequence space, and a node does not drop the feasible
  distance of \<open>d\<close> while old advertisements of it are still about (the tombstone dwell).
\<close>

record network =
  nw_table :: "NodeId \<Rightarrow> RouteTable"
  nw_sent :: "(NodeId \<times> RouteAdvertisement) set"

definition initial :: "nat \<Rightarrow> nat \<Rightarrow> network" where
  "initial n m = \<lparr>nw_table = (\<lambda>_. RouteTable_new n m), nw_sent = {}\<rparr>"

definition selection_ad :: "RouteSelection \<Rightarrow> RouteAdvertisement" where
  "selection_ad s = \<lparr>ra_destination = rs_destination s, ra_generation = rs_generation s,
     ra_sequence = rs_sequence s, ra_metric = rs_metric s\<rparr>"

definition local_op :: "NodeId \<Rightarrow> route_op \<Rightarrow> bool" where
  "local_op d op \<longleftrightarrow> op \<noteq> Op_advertised d \<and>
     (\<forall>ad hop link now life. op = Op_consider ad hop link now life \<longrightarrow> ra_destination ad = d \<longrightarrow>
        ra_metric ad = kInfiniteRouteMetric)"

inductive net_step :: "(RouteGeneration \<Rightarrow> RouteSequence) \<Rightarrow> NodeId \<Rightarrow> network \<Rightarrow> network \<Rightarrow> bool"
  for base d where
  originate: "in_window (base g) s \<Longrightarrow>
    net_step base d N (N\<lparr>nw_sent := insert (d, \<lparr>ra_destination = d, ra_generation = g,
      ra_sequence = s, ra_metric = 0\<rparr>) (nw_sent N)\<rparr>)"
| advertise: "k \<noteq> d \<Longrightarrow> rs_valid (best (nw_table N k) d) \<Longrightarrow>
    net_step base d N (N\<lparr>nw_table := (nw_table N)(k := snd (mark_advertised d (nw_table N k))),
      nw_sent := insert (k, selection_ad (best (nw_table N k) d)) (nw_sent N)\<rparr>)"
| receive: "k \<noteq> d \<Longrightarrow> (j, ad) \<in> nw_sent N \<Longrightarrow>
    net_step base d N (N\<lparr>nw_table := (nw_table N)(k :=
      snd (consider_route ad j link now life (nw_table N k)))\<rparr>)"
| internal: "local_op d op \<Longrightarrow>
    (entry_of (nw_table N k) d \<noteq> None \<longrightarrow> entry_of (route_step op (nw_table N k)) d \<noteq> None) \<Longrightarrow>
    net_step base d N (N\<lparr>nw_table := (nw_table N)(k := route_step op (nw_table N k))\<rparr>)"

inductive reachable :: "(RouteGeneration \<Rightarrow> RouteSequence) \<Rightarrow> NodeId \<Rightarrow> network \<Rightarrow> bool"
  for base d where
  start: "reachable base d (initial n m)"
| step: "reachable base d N \<Longrightarrow> net_step base d N N' \<Longrightarrow> reachable base d N'"

text \<open>The forwarding graph towards \<open>d\<close>, and following it with a bounded number of hops.\<close>

definition next_hops :: "NodeId \<Rightarrow> network \<Rightarrow> (NodeId \<times> NodeId) set" where
  "next_hops d N = {(k, j). k \<noteq> d \<and> rs_valid (best (nw_table N k) d) \<and>
     rs_next_hop (best (nw_table N k) d) = j}"

datatype outcome = Delivered | Dropped NodeId

fun forward :: "nat \<Rightarrow> NodeId \<Rightarrow> network \<Rightarrow> NodeId \<Rightarrow> outcome option" where
  "forward 0 d N k = None"
| "forward (Suc hops) d N k =
     (if k = d then Some Delivered
      else if rs_valid (best (nw_table N k) d) then forward hops d N (rs_next_hop (best (nw_table N k) d))
      else Some (Dropped k))"

subsection \<open>The invariant\<close>

text \<open>
  The feasible distance of \<open>e\<close> covers the advertisement \<open>ad\<close>: a later generation, or the same
  generation and a distance no worse than the advertised one.
\<close>

definition covers :: "(RouteGeneration \<Rightarrow> RouteSequence) \<Rightarrow> Entry \<Rightarrow> RouteAdvertisement \<Rightarrow> bool" where
  "covers base e ad \<longleftrightarrow> ra_generation ad < e_generation e \<or>
     ra_generation ad = e_generation e \<and> fd_valid (e_feasible e) \<and>
     (seq_off (base (e_generation e)) (ra_sequence ad) <
        seq_off (base (e_generation e)) (fd_sequence (e_feasible e)) \<or>
      ra_sequence ad = fd_sequence (e_feasible e) \<and> fd_metric (e_feasible e) \<le> ra_metric ad)"

definition heard_from :: "NodeId \<Rightarrow> (NodeId \<times> RouteAdvertisement) set \<Rightarrow> Entry \<Rightarrow> bool" where
  "heard_from d sent e \<longleftrightarrow> (\<forall>c \<in> set (e_candidates e). rc_valid c \<and> rc_advertised c \<noteq> kInfiniteRouteMetric \<longrightarrow>
     (rc_next_hop c, \<lparr>ra_destination = d, ra_generation = e_generation e, ra_sequence = rc_sequence c,
        ra_metric = rc_advertised c\<rparr>) \<in> sent)"

definition fd_window :: "(RouteGeneration \<Rightarrow> RouteSequence) \<Rightarrow> Entry \<Rightarrow> bool" where
  "fd_window base e \<longleftrightarrow> (fd_valid (e_feasible e) \<longrightarrow> in_window (base (e_generation e)) (fd_sequence (e_feasible e)))"

definition sent_ok :: "(RouteGeneration \<Rightarrow> RouteSequence) \<Rightarrow> NodeId \<Rightarrow> network \<Rightarrow> bool" where
  "sent_ok base d N \<longleftrightarrow> (\<forall>(j, ad) \<in> nw_sent N. ra_destination ad = d \<and> ra_metric ad \<noteq> kInfiniteRouteMetric \<and>
     in_window (base (ra_generation ad)) (ra_sequence ad) \<and>
     (j \<noteq> d \<longrightarrow> (\<exists>e. entry_of (nw_table N j) d = Some e \<and> covers base e ad)))"

definition net_inv :: "(RouteGeneration \<Rightarrow> RouteSequence) \<Rightarrow> NodeId \<Rightarrow> network \<Rightarrow> bool" where
  "net_inv base d N \<longleftrightarrow> sent_ok base d N \<and> (\<forall>k. table_ok (nw_table N k)) \<and>
     (\<forall>k e. k \<noteq> d \<longrightarrow> entry_of (nw_table N k) d = Some e \<longrightarrow> heard_from d (nw_sent N) e \<and> fd_window base e)"

text \<open>An entry moves forward: its generation grows, or its feasible distance does not loosen.\<close>

definition advances :: "(RouteGeneration \<Rightarrow> RouteSequence) \<Rightarrow> Entry \<Rightarrow> Entry \<Rightarrow> bool" where
  "advances base e e' \<longleftrightarrow> e_generation e < e_generation e' \<or> e_generation e' = e_generation e \<and>
     (e_feasible e' = e_feasible e \<or> fd_valid (e_feasible e') \<and> (fd_valid (e_feasible e) \<longrightarrow>
        seq_off (base (e_generation e)) (fd_sequence (e_feasible e)) <
          seq_off (base (e_generation e)) (fd_sequence (e_feasible e')) \<or>
        fd_sequence (e_feasible e') = fd_sequence (e_feasible e) \<and>
        fd_metric (e_feasible e') \<le> fd_metric (e_feasible e)))"

lemma covers_advances: "covers base e ad \<Longrightarrow> advances base e e' \<Longrightarrow> covers base e' ad"
  by (auto simp: covers_def advances_def)

text \<open>A step of node \<open>k\<close> keeps the invariant when its entry moves forward on records that were sent.\<close>

lemma net_inv_node:
  assumes inv: "net_inv base d N" and ok: "table_ok t'"
    and N': "N' = N\<lparr>nw_table := (nw_table N)(k := t'), nw_sent := sent'\<rparr>" and sent: "nw_sent N \<subseteq> sent'"
    and new: "\<And>j ad. (j, ad) \<in> sent' - nw_sent N \<Longrightarrow> j = k \<and> ra_destination ad = d \<and>
      ra_metric ad \<noteq> kInfiniteRouteMetric \<and> in_window (base (ra_generation ad)) (ra_sequence ad) \<and>
      (\<exists>e. entry_of t' d = Some e \<and> covers base e ad)"
    and adv: "\<And>e. entry_of (nw_table N k) d = Some e \<Longrightarrow> \<exists>e'. entry_of t' d = Some e' \<and> advances base e e'"
    and good: "\<And>e'. k \<noteq> d \<Longrightarrow> entry_of t' d = Some e' \<Longrightarrow> heard_from d sent' e' \<and> fd_window base e'"
  shows "net_inv base d N'"
proof -
  have "sent_ok base d N'"
    unfolding sent_ok_def
  proof safe
    fix j ad assume m: "(j, ad) \<in> nw_sent N'"
    have c: "ra_destination ad = d \<and> ra_metric ad \<noteq> kInfiniteRouteMetric \<and>
        in_window (base (ra_generation ad)) (ra_sequence ad) \<and>
        (j \<noteq> d \<longrightarrow> (\<exists>e. entry_of (nw_table N' j) d = Some e \<and> covers base e ad))"
    proof (cases "(j, ad) \<in> nw_sent N")
      case True
      with inv have old: "ra_destination ad = d" "ra_metric ad \<noteq> kInfiniteRouteMetric"
        "in_window (base (ra_generation ad)) (ra_sequence ad)"
        "j \<noteq> d \<longrightarrow> (\<exists>e. entry_of (nw_table N j) d = Some e \<and> covers base e ad)"
        by (auto simp: net_inv_def sent_ok_def)
      have "\<exists>e. entry_of (nw_table N' j) d = Some e \<and> covers base e ad" if "j \<noteq> d"
      proof -
        from that old(4) obtain e where "entry_of (nw_table N j) d = Some e" "covers base e ad" by blast
        with adv [of e] covers_advances show ?thesis by (cases "j = k") (auto simp: N')
      qed
      with old show ?thesis by blast
    next
      case False
      with m new [of j ad] show ?thesis by (auto simp: N')
    qed
    then show "ra_destination ad = d" "in_window (base (ra_generation ad)) (ra_sequence ad)"
      "ra_metric ad = kInfiniteRouteMetric \<Longrightarrow> False"
      "j \<noteq> d \<Longrightarrow> \<exists>e. entry_of (nw_table N' j) d = Some e \<and> covers base e ad" by auto
  qed
  moreover have "heard_from d sent' e" if "heard_from d (nw_sent N) e" for e
    using that sent by (auto simp: heard_from_def)
  ultimately show ?thesis
    using inv ok good by (auto simp: net_inv_def N')
qed

subsection \<open>Steps of one node\<close>

definition follows ::
  "(RouteGeneration \<Rightarrow> RouteSequence) \<Rightarrow> NodeId \<Rightarrow> (NodeId \<times> RouteAdvertisement) set \<Rightarrow> Entry \<Rightarrow> Entry \<Rightarrow> bool" where
  "follows base d sent e e' \<longleftrightarrow> advances base e e' \<and>
     (heard_from d sent e \<longrightarrow> heard_from d sent e') \<and> (fd_window base e \<longrightarrow> fd_window base e')"

lemma follows_refl: "follows base d sent e e"
  by (simp add: follows_def advances_def)

lemma follows_keeps:
  assumes "keeps e e'"
  shows "follows base d sent e e'"
proof -
  have "heard_from d sent e'" if "heard_from d sent e"
    unfolding heard_from_def
  proof (intro ballI impI)
    fix c assume c: "c \<in> set (e_candidates e')" "rc_valid c \<and> rc_advertised c \<noteq> kInfiniteRouteMetric"
    with assms obtain c0 where "c0 \<in> set (e_candidates e)" "rc_valid c0" "rc_next_hop c0 = rc_next_hop c"
      "rc_sequence c0 = rc_sequence c" "rc_advertised c0 = rc_advertised c"
      unfolding keeps_def by metis
    with that c assms show "(rc_next_hop c, \<lparr>ra_destination = d, ra_generation = e_generation e',
        ra_sequence = rc_sequence c, ra_metric = rc_advertised c\<rparr>) \<in> sent"
      unfolding heard_from_def keeps_def by metis
  qed
  with assms show ?thesis by (simp add: follows_def advances_def fd_window_def keeps_def)
qed

lemma follows_generation:
  assumes "follows base d sent (new_generation g e) e'" "e_generation e < g"
  shows "follows base d sent e e'"
proof -
  have "heard_from d sent (new_generation g e)" "fd_window base (new_generation g e)"
    by (auto simp: heard_from_def fd_window_def new_generation_def FeasibleDistance_new_def)
  with assms show ?thesis by (auto simp: follows_def advances_def new_generation_def)
qed

lemma follows_learn:
  assumes "ra_generation ad = e_generation e" "ra_destination ad = d" "(hop, ad) \<in> sent"
  shows "follows base d sent e (snd (learn t ad hop link now life e))"
proof (cases rule: learn_cases [of t ad hop link now life e])
  case held
  then show ?thesis by (simp add: follows_refl)
next
  case (stored r b)
  have ad: "ad = \<lparr>ra_destination = d, ra_generation = e_generation e, ra_sequence = ra_sequence ad,
      ra_metric = ra_metric ad\<rparr>" using assms by (cases ad) simp
  have "heard_from d sent (snd (learn t ad hop link now life e))" if "heard_from d sent e"
    using that assms(3) ad
    by (auto simp: stored heard_from_def recorded_def dest!: set_update_subset_insert [THEN subsetD])
  then show ?thesis by (simp add: follows_def stored advances_def fd_window_def)
qed

lemma follows_consider:
  assumes "entry_ok e" "ra_destination ad = d" "ra_metric ad = kInfiniteRouteMetric \<or> (hop, ad) \<in> sent"
  shows "follows base d sent e (snd (consider_entry t ad hop link now life e))"
proof -
  have same: "follows base d sent x (if ra_metric ad = kInfiniteRouteMetric then withdraw_entry t hop now x
      else snd (learn t ad hop link now life x))" if "entry_ok x" "ra_generation ad = e_generation x" for x
    using that assms by (auto intro: follows_keeps follows_learn entry_ok_withdraw)
  show ?thesis
  proof (cases "e_generation e" "ra_generation ad" rule: linorder_cases)
    case less
    have "follows base d sent (new_generation (ra_generation ad) e)
        (snd (consider_entry t ad hop link now life e))"
      using same [of "new_generation (ra_generation ad) e"] entry_ok_generation [OF assms(1)] less
      by (auto simp: consider_entry_def Let_def new_generation_def)
    then show ?thesis using less by (rule follows_generation)
  next
    case equal
    then show ?thesis using same [OF assms(1)] by (simp add: consider_entry_def Let_def if_distrib)
  next
    case greater
    then show ?thesis by (simp add: consider_entry_def follows_refl)
  qed
qed

lemma new_entry_good:
  "heard_from d sent (Entry_new\<lparr>e_destination := d\<rparr>)" "fd_window base (Entry_new\<lparr>e_destination := d\<rparr>)"
  by (auto simp: heard_from_def fd_window_def Entry_new_def FeasibleDistance_new_def)

lemma follows_step:
  assumes ok: "table_ok t" and op: "op \<noteq> Op_advertised d"
    and ad: "\<And>ad hop link now life. op = Op_consider ad hop link now life \<Longrightarrow> ra_destination ad = d \<Longrightarrow>
      ra_metric ad = kInfiniteRouteMetric \<or> (hop, ad) \<in> sent"
    and mem: "entry_of t d \<noteq> None \<longrightarrow> entry_of (route_step op t) d \<noteq> None"
  shows "entry_of t d = Some e \<Longrightarrow> \<exists>e'. entry_of (route_step op t) d = Some e' \<and> follows base d sent e e'"
    and "entry_of t d = None \<Longrightarrow> entry_of (route_step op t) d = Some e' \<Longrightarrow>
      heard_from d sent e' \<and> fd_window base e'"
proof -
  note ch = entry_change_step [OF ok, of op d]
  show "\<exists>e'. entry_of (route_step op t) d = Some e' \<and> follows base d sent e e'" if e: "entry_of t d = Some e"
    using ch
  proof cases
    case (heard ad hop link now life e0)
    with e have "e0 = e" by auto
    with heard entry_of_ok [OF ok e] ad [of ad hop link now life] show ?thesis
      by (auto intro: follows_consider)
  qed (use e op mem in \<open>auto intro: follows_refl follows_keeps\<close>)
  show "heard_from d sent e' \<and> fd_window base e'"
    if n: "entry_of t d = None" and e': "entry_of (route_step op t) d = Some e'"
    using ch
  proof cases
    case (heard ad hop link now life e0)
    with n have e0: "e0 = Entry_new\<lparr>e_destination := d\<rparr>" by auto
    have "entry_ok e0"
    proof (cases "d = kInvalidNodeId")
      case True
      with heard e' n have False
        by (auto simp: consider_route_def entry_of_lookup)
      then show ?thesis ..
    qed (simp add: e0 entry_ok_new)
    with heard ad [of ad hop link now life] have "follows base d sent e0 e'"
      using e' by (auto intro: follows_consider)
    then show ?thesis using new_entry_good by (simp add: follows_def e0)
  qed (use n e' in auto)
qed

lemma consider_remembers:
  assumes "table_ok t" "entry_of t d \<noteq> None"
  shows "entry_of (snd (consider_route ad hop link now life t)) d \<noteq> None"
  by (rule consider_route_cases [OF assms(1), of ad hop link now life]) (use assms(2) in auto)

text \<open>Advertising: the feasible distance afterwards covers the record that leaves.\<close>

lemma advertise_follows:
  assumes "fd_window base e" "in_window (base (e_generation e)) (rs_sequence (select e))"
  shows "follows base d sent e (mark_entry e)" "rs_valid (select e) \<Longrightarrow> covers base (mark_entry e) (selection_ad (select e))"
proof -
  let ?b = "base (e_generation e)"
  have better: "fd_better (rs_sequence (select e)) (rs_metric (select e)) (e_feasible e) \<longleftrightarrow>
      seq_off ?b (fd_sequence (e_feasible e)) < seq_off ?b (rs_sequence (select e)) \<or>
      rs_sequence (select e) = fd_sequence (e_feasible e) \<and> rs_metric (select e) < fd_metric (e_feasible e)"
    if "fd_valid (e_feasible e)"
    using assms that by (auto simp: fd_better_def fd_window_def window_newer)
  show "follows base d sent e (mark_entry e)"
    using assms better by (auto simp: follows_def advances_def mark_entry_fd fd_window_def heard_from_def)
  have gen: "rs_generation (select e) = e_generation e" if "rs_valid (select e)"
    using that by (auto simp: select_valid_iff select_chosen)
  show "covers base (mark_entry e) (selection_ad (select e))" if "rs_valid (select e)"
  proof (cases "\<not> fd_valid (e_feasible e) \<or> fd_better (rs_sequence (select e)) (rs_metric (select e)) (e_feasible e)")
    case True
    then show ?thesis using gen [OF that] by (simp add: covers_def mark_entry_fd selection_ad_def)
  next
    case False
    then have "seq_off ?b (rs_sequence (select e)) \<le> seq_off ?b (fd_sequence (e_feasible e))"
      "rs_sequence (select e) = fd_sequence (e_feasible e) \<longrightarrow> fd_metric (e_feasible e) \<le> rs_metric (select e)"
      using better by auto
    then show ?thesis
      using False gen [OF that] seq_off_inj [of ?b "rs_sequence (select e)" "fd_sequence (e_feasible e)"]
      by (auto simp: covers_def mark_entry_fd selection_ad_def)
  qed
qed

subsection \<open>The invariant holds\<close>

lemma net_inv_initial: "net_inv base d (initial n m)"
proof -
  have "entry_of (RouteTable_new n m) d = None"
    using entry_of_iff [OF table_ok_new, of n m d] by (cases "entry_of (RouteTable_new n m) d")
      (auto simp: RouteTable_new_def simp del: FixedPool_at_Some)
  then show ?thesis by (simp add: net_inv_def sent_ok_def initial_def table_ok_new)
qed

text \<open>The route in use was sent by its next hop, and is feasible.\<close>

lemma route_in_use:
  assumes inv: "net_inv base d N" and k: "k \<noteq> d" and v: "rs_valid (best (nw_table N k) d)"
  obtains e c where "entry_of (nw_table N k) d = Some e" "best (nw_table N k) d = select e"
    "chosen e = Some c" "rc_next_hop c = rs_next_hop (select e)" "rc_sequence c = rs_sequence (select e)"
    "rs_metric (select e) \<noteq> kInfiniteRouteMetric" "rs_destination (select e) = d"
    "rs_generation (select e) = e_generation e" "feasible e (rc_sequence c) (rc_advertised c)"
    "(rc_next_hop c, \<lparr>ra_destination = d, ra_generation = e_generation e, ra_sequence = rc_sequence c,
        ra_metric = rc_advertised c\<rparr>) \<in> nw_sent N"
    "in_window (base (e_generation e)) (rc_sequence c)" "fd_window base e"
proof -
  have ok: "table_ok (nw_table N k)" using inv by (simp add: net_inv_def)
  from v obtain e c where e: "entry_of (nw_table N k) d = Some e" "chosen e = Some c"
    by (auto simp: best_def select_valid_iff RouteSelection_new_def split: option.splits)
  note c = chosen_sound [OF e(2)] and eok = entry_of_ok [OF ok e(1)]
  from c eok have "rc_advertised c < rc_metric c" "rc_valid c"
    by (auto simp: entry_ok_def entry_inv_def cands_inv_def cand_inv_def eligible_def)
  then have "rc_advertised c \<noteq> kInfiniteRouteMetric" by auto
  have "heard_from d (nw_sent N) e" "fd_window base e" using inv k e(1) by (auto simp: net_inv_def)
  with c(1) \<open>rc_valid c\<close> \<open>rc_advertised c \<noteq> kInfiniteRouteMetric\<close>
  have m: "(rc_next_hop c, \<lparr>ra_destination = d, ra_generation = e_generation e, ra_sequence = rc_sequence c,
        ra_metric = rc_advertised c\<rparr>) \<in> nw_sent N" by (auto simp: heard_from_def)
  then have "in_window (base (e_generation e)) (rc_sequence c)"
    using inv by (fastforce simp: net_inv_def sent_ok_def)
  moreover have "best (nw_table N k) d = select e" "feasible e (rc_sequence c) (rc_advertised c)"
    "rc_metric c \<noteq> kInfiniteRouteMetric"
    using e(1) c(2) by (simp_all add: best_def eligible_def)
  ultimately show ?thesis
    using e m \<open>fd_window base e\<close> eok select_chosen [OF e(2)] by (intro that [of e c]) simp_all
qed

lemma net_inv_local:
  assumes inv: "net_inv base d N" and N': "N' = N\<lparr>nw_table := (nw_table N)(k := route_step op (nw_table N k))\<rparr>"
    and op: "op \<noteq> Op_advertised d"
    and ad: "\<And>ad hop link now life. op = Op_consider ad hop link now life \<Longrightarrow> ra_destination ad = d \<Longrightarrow>
      ra_metric ad = kInfiniteRouteMetric \<or> (hop, ad) \<in> nw_sent N"
    and mem: "entry_of (nw_table N k) d \<noteq> None \<longrightarrow> entry_of (route_step op (nw_table N k)) d \<noteq> None"
  shows "net_inv base d N'"
proof -
  have ok: "table_ok (nw_table N k)" using inv by (simp add: net_inv_def)
  have f1: "\<exists>e'. entry_of (route_step op (nw_table N k)) d = Some e' \<and> follows base d (nw_sent N) e e'"
    if "entry_of (nw_table N k) d = Some e" for e
    by (rule follows_step(1) [OF ok op _ mem that]) (rule ad)
  have f2: "heard_from d (nw_sent N) e' \<and> fd_window base e'"
    if "entry_of (nw_table N k) d = None" "entry_of (route_step op (nw_table N k)) d = Some e'" for e'
    by (rule follows_step(2) [OF ok op _ mem that]) (rule ad)
  show ?thesis
  proof (rule net_inv_node [OF inv table_ok_step [OF ok]])
    show "N' = N\<lparr>nw_table := (nw_table N)(k := route_step op (nw_table N k)), nw_sent := nw_sent N\<rparr>"
      by (simp add: N')
    show "\<exists>e'. entry_of (route_step op (nw_table N k)) d = Some e' \<and> advances base e e'"
      if "entry_of (nw_table N k) d = Some e" for e
      using f1 [OF that] by (auto simp: follows_def)
    show "heard_from d (nw_sent N) e' \<and> fd_window base e'"
      if "k \<noteq> d" "entry_of (route_step op (nw_table N k)) d = Some e'" for e'
    proof (cases "entry_of (nw_table N k) d")
      case None
      from f2 [OF this that(2)] show ?thesis .
    next
      case (Some e)
      have "heard_from d (nw_sent N) e" "fd_window base e" using inv that(1) Some by (auto simp: net_inv_def)
      with f1 [OF Some] that(2) show ?thesis by (auto simp: follows_def)
    qed
  qed auto
qed

lemma net_inv_step:
  assumes "net_step base d N N'" and inv: "net_inv base d N"
  shows "net_inv base d N'"
  using assms(1)
proof cases
  case (originate g s)
  then show ?thesis
    using inv by (auto simp: net_inv_def sent_ok_def heard_from_def)
next
  case (advertise k)
  from route_in_use [OF inv advertise(2,3)] obtain e c where
    e: "entry_of (nw_table N k) d = Some e" "best (nw_table N k) d = select e"
      "in_window (base (e_generation e)) (rs_sequence (select e))" "fd_window base e"
      "rs_metric (select e) \<noteq> kInfiniteRouteMetric" "rs_destination (select e) = d"
      "rs_generation (select e) = e_generation e" by metis
  have ok: "table_ok (nw_table N k)" using inv by (simp add: net_inv_def)
  have v: "rs_valid (select e)" using advertise(3) e(2) by simp
  have e': "entry_of (snd (mark_advertised d (nw_table N k))) d = Some (mark_entry e)"
    by (simp add: entry_of_mark [OF ok] e(1) v)
  note f = advertise_follows [OF e(4,3)]
  let ?sent = "insert (k, selection_ad (select e)) (nw_sent N)"
  have "heard_from d ?sent e" using inv advertise(2) e(1) by (auto simp: net_inv_def heard_from_def)
  then have good: "heard_from d ?sent (mark_entry e) \<and> fd_window base (mark_entry e)"
    using f(1) [of d ?sent] e(4) by (simp add: follows_def)
  show ?thesis
  proof (rule net_inv_node [OF inv entry_of_mark(1) [OF ok]])
    show "N' = N\<lparr>nw_table := (nw_table N)(k := snd (mark_advertised d (nw_table N k))), nw_sent := ?sent\<rparr>"
      by (simp add: advertise(1) e(2))
    show "nw_sent N \<subseteq> ?sent" by blast
    show "j = k \<and> ra_destination ad = d \<and> ra_metric ad \<noteq> kInfiniteRouteMetric \<and>
        in_window (base (ra_generation ad)) (ra_sequence ad) \<and>
        (\<exists>e. entry_of (snd (mark_advertised d (nw_table N k))) d = Some e \<and> covers base e ad)"
      if "(j, ad) \<in> ?sent - nw_sent N" for j ad
      using that e e' f(2) [OF v] by (auto simp: selection_ad_def)
    show "\<exists>e'. entry_of (snd (mark_advertised d (nw_table N k))) d = Some e' \<and> advances base e0 e'"
      if "entry_of (nw_table N k) d = Some e0" for e0
      using that e(1) e' f(1) [of d ?sent] by (simp add: follows_def)
    show "heard_from d ?sent x \<and> fd_window base x"
      if "entry_of (snd (mark_advertised d (nw_table N k))) d = Some x" for x
      using that e' good by simp
  qed
next
  case (receive k j ad link now life)
  let ?op = "Op_consider ad j link now life"
  have ok: "table_ok (nw_table N k)" using inv by (simp add: net_inv_def)
  show ?thesis
    by (rule net_inv_local [OF inv, where op = ?op and k = k])
      (use receive consider_remembers [OF ok] in auto)
next
  case (internal op k)
  then show ?thesis
    by (intro net_inv_local [OF inv, where op = op and k = k]) (auto simp: local_op_def)
qed

lemma net_inv_reachable: "reachable base d N \<Longrightarrow> net_inv base d N"
  by (induction rule: reachable.induct) (auto intro: net_inv_initial net_inv_step)

subsection \<open>Ranks decrease towards the destination\<close>

definition rank :: "(RouteGeneration \<Rightarrow> RouteSequence) \<Rightarrow> NodeId \<Rightarrow> network \<Rightarrow> NodeId \<Rightarrow> nat \<times> nat \<times> nat" where
  "rank base d N k =
     (if k = d then (0, 0, 0)
      else case entry_of (nw_table N k) d of
          None \<Rightarrow> (2 ^ 32, 0, 0)
        | Some e \<Rightarrow> (2 ^ 32 - unat (e_generation e),
            if fd_valid (e_feasible e)
            then (2 ^ 16 - seq_off (base (e_generation e)) (fd_sequence (e_feasible e)),
                  unat (fd_metric (e_feasible e)))
            else (2 ^ 16 + 1, 0)))"

lemma seq_off_less: "seq_off b s < 2 ^ 16"
  using unsigned_less [of "s - b", where ?'a = nat] by (simp add: seq_off_def)

lemma rank_decreases:
  assumes inv: "net_inv base d N" and edge: "(k, j) \<in> next_hops d N"
  shows "(rank base d N j, rank base d N k) \<in> less_than <*lex*> less_than <*lex*> less_than"
proof -
  from edge have k: "k \<noteq> d" "rs_valid (best (nw_table N k) d)" "j = rs_next_hop (best (nw_table N k) d)"
    by (auto simp: next_hops_def)
  from route_in_use [OF inv k(1,2)] obtain e and c :: RouteCandidate where e: "entry_of (nw_table N k) d = Some e"
    "best (nw_table N k) d = select e" "rc_next_hop c = rs_next_hop (select e)"
    "feasible e (rc_sequence c) (rc_advertised c)"
    "(rc_next_hop c, \<lparr>ra_destination = d, ra_generation = e_generation e, ra_sequence = rc_sequence c,
        ra_metric = rc_advertised c\<rparr>) \<in> nw_sent N" (is "(_, ?ad) \<in> _")
    "in_window (base (e_generation e)) (rc_sequence c)" "fd_window base e"
    by metis
  have j: "rc_next_hop c = j" using k(3) e(2,3) by simp
  have gen: "unat g < 2 ^ 32" for g :: RouteGeneration
    using unsigned_less [of g, where ?'a = nat] by simp
  let ?b = "base (e_generation e)"
  have fe: "fd_valid (e_feasible e) \<Longrightarrow> seq_off ?b (fd_sequence (e_feasible e)) < seq_off ?b (rc_sequence c) \<or>
      rc_sequence c = fd_sequence (e_feasible e) \<and> rc_advertised c < fd_metric (e_feasible e)"
    using e(4,6,7) by (auto simp: feasible_valid_iff fd_window_def window_newer)
  show ?thesis
  proof (cases "j = d")
    case True
    with k(1) e(1) gen [of "e_generation e"] show ?thesis by (simp add: rank_def)
  next
    case False
    with inv e(5) j obtain f where f: "entry_of (nw_table N j) d = Some f" "covers base f ?ad"
      by (fastforce simp: net_inv_def sent_ok_def)
    note rk = rank_def [of base d N k] rank_def [of base d N j]
    from f(2) consider (newer) "e_generation e < e_generation f"
      | (same) "e_generation f = e_generation e" "fd_valid (e_feasible f)"
        "seq_off ?b (rc_sequence c) < seq_off ?b (fd_sequence (e_feasible f)) \<or>
         rc_sequence c = fd_sequence (e_feasible f) \<and> fd_metric (e_feasible f) \<le> rc_advertised c"
      by (auto simp: covers_def)
    then show ?thesis
    proof cases
      case newer
      then have "unat (e_generation e) < unat (e_generation f)" by (simp add: word_less_nat_alt)
      with k(1) False gen [of "e_generation f"] show ?thesis by (simp add: rk e(1) f(1) diff_less_mono2)
    next
      case same
      have off: "seq_off ?b x < 65536" for x using seq_off_less [of ?b x] by simp
      show ?thesis
      proof (cases "fd_valid (e_feasible e)")
        case True
        from fe [OF True] same(3) off [of "fd_sequence (e_feasible f)"] show ?thesis
          using k(1) False True same(1,2)
          by (auto simp: rk e(1) f(1) word_less_nat_alt word_le_nat_alt diff_less_mono2)
      qed (use k(1) False same in \<open>simp add: rk e(1) f(1)\<close>)
    qed
  qed
qed

subsection \<open>Properties\<close>

text \<open>C1: The forwarding graph towards a destination never contains a cycle, in any state a network of
  route tables can reach, whatever messages are delayed, duplicated, reordered or lost, whatever
  links cost, fail or get busy.\<close>

theorem loop_freedom:
  assumes "reachable base d N"
  shows "acyclic (next_hops d N)"
proof -
  let ?r = "inv_image (less_than <*lex*> less_than <*lex*> less_than) (rank base d N)"
  have "wf ?r" by auto
  moreover have "(next_hops d N)\<inverse> \<subseteq> ?r"
    using rank_decreases [OF net_inv_reachable [OF assms]] by auto
  ultimately have "wf ((next_hops d N)\<inverse>)" by (rule wf_subset)
  then show ?thesis by (rule wf_acyclic [THEN acyclic_converse [THEN iffD1]])
qed

text \<open>Origin 9 is heard by node 2, which advertises to node 3.\<close>

definition chain_origin :: network where
  "chain_origin = (initial 4 4)\<lparr>nw_sent := insert (9, \<lparr>ra_destination = 9, ra_generation = 1,
     ra_sequence = 5, ra_metric = 0\<rparr>) (nw_sent (initial 4 4))\<rparr>"

definition chain_heard :: network where
  "chain_heard = chain_origin\<lparr>nw_table := (nw_table chain_origin)(2 := snd (consider_route
     \<lparr>ra_destination = 9, ra_generation = 1, ra_sequence = 5, ra_metric = 0\<rparr> 9 10 100 5000
     (nw_table chain_origin 2)))\<rparr>"

definition chain_told :: network where
  "chain_told = chain_heard\<lparr>nw_table := (nw_table chain_heard)(2 := snd (mark_advertised 9 (nw_table chain_heard 2))),
     nw_sent := insert (2, selection_ad (best (nw_table chain_heard 2) 9)) (nw_sent chain_heard)\<rparr>"

definition chain_net :: network where
  "chain_net = chain_told\<lparr>nw_table := (nw_table chain_told)(3 := snd (consider_route
     (selection_ad (best (nw_table chain_heard 2) 9)) 2 10 150 5000 (nw_table chain_told 3)))\<rparr>"

lemma chain_eval:
  "rs_valid (best (nw_table chain_heard 2) 9)"
  "rs_valid (best (nw_table chain_net 2) 9)" "rs_next_hop (best (nw_table chain_net 2) 9) = 9"
  "rs_valid (best (nw_table chain_net 3) 9)" "rs_next_hop (best (nw_table chain_net 3) 9) = 2"
  by code_simp+

lemma chain_reachable: "reachable (\<lambda>_. 0) 9 chain_net"
proof -
  have "in_window 0 5" by code_simp
  then have "reachable (\<lambda>_. 0) 9 chain_origin"
    unfolding chain_origin_def by (rule step [OF start originate])
  then have "reachable (\<lambda>_. 0) 9 chain_heard"
    unfolding chain_heard_def by (rule step) (rule receive; simp add: chain_origin_def)
  then have "reachable (\<lambda>_. 0) 9 chain_told"
    unfolding chain_told_def by (rule step) (rule advertise; simp add: chain_eval)
  then show ?thesis
    unfolding chain_net_def by (rule step) (rule receive; simp add: chain_told_def)
qed

theorem loop_freedom_witness:
  "acyclic (next_hops 9 chain_net) \<and> {(3, 2), (2, 9)} \<subseteq> next_hops 9 chain_net"
  using loop_freedom [OF chain_reachable] by (simp add: next_hops_def chain_eval)


lemma forward_mono: "forward h d N k = Some r \<Longrightarrow> h \<le> h' \<Longrightarrow> forward h' d N k = Some r"
proof (induction h arbitrary: k h')
  case (Suc h)
  then show ?case by (cases h') (auto split: if_splits)
qed simp


end
