(* ===== verification/Usb_Codec.thy ===== *)
theory Usb_Codec
  imports Byte_IO
begin

text \<open>
  The serial framing of \<^verbatim>\<open>src/usb_codec.cpp\<close> and \<^verbatim>\<open>include/routeloom/usb_codec.hpp\<close>: COBS byte
  stuffing, the framed header with its CRC, the resynchronising stream decoder and the
  cumulative credit.

  \<^verbatim>\<open>cobs_decode\<close> is used with an output that aliases its input, so its loop runs over one memory
  in which input and output are address ranges; distinct buffers are the case where the ranges
  do not meet.
\<close>

abbreviation kHeaderSize :: nat where "kHeaderSize \<equiv> 26"
abbreviation kCrcSize :: nat where "kCrcSize \<equiv> 4"
abbreviation kMaxDecodedFrame :: nat where "kMaxDecodedFrame \<equiv> 4096"
abbreviation kMaxBodySize :: nat where "kMaxBodySize \<equiv> kMaxDecodedFrame - kHeaderSize - kCrcSize"
abbreviation kMaxPendingEncoded :: nat where "kMaxPendingEncoded \<equiv> kMaxDecodedFrame + 64"
abbreviation kPartialFrameTimeoutMs :: MonotonicMs where "kPartialFrameTimeoutMs \<equiv> 1000"
abbreviation kMagic :: u32 where "kMagic \<equiv> 0x524C5531"
abbreviation kProtocolVersion :: u8 where "kProtocolVersion \<equiv> 2"

definition encoded_frame_bound :: "nat \<Rightarrow> nat" where
  "encoded_frame_bound decoded = decoded + decoded div 254 + 2"

subsection \<open>COBS\<close>

text \<open>The locals of the encoder loop.\<close>

record cobs_state =
  ce_out :: bytes
  ce_code_index :: nat
  ce_length :: nat
  ce_code :: u8

definition cobs_close :: "cobs_state \<Rightarrow> cobs_state" where
  "cobs_close s = \<lparr>ce_out = (ce_out s)[ce_code_index s := ce_code s], ce_code_index = ce_length s,
     ce_length = ce_length s + 1, ce_code = 1\<rparr>"

definition cobs_step :: "u8 \<Rightarrow> cobs_state \<Rightarrow> cobs_state" where
  "cobs_step byte s =
     (if byte = 0 then cobs_close s
      else let s = s\<lparr>ce_out := (ce_out s)[ce_length s := byte], ce_length := ce_length s + 1,
                     ce_code := ce_code s + 1\<rparr>
           in if ce_code s = 0xFF then cobs_close s else s)"

definition cobs_encode :: "ByteView \<Rightarrow> ByteView \<Rightarrow> (bytes \<times> nat) result" where
  "cobs_encode input out =
     and_then (fail_if (view_null out) (Error InvalidArgument ''null cobs output'')) (\<lambda>_.
     and_then (fail_if (0 < view_size input \<and> view_null input) (Error InvalidArgument ''null cobs input'')) (\<lambda>_.
     and_then (fail_if (view_size out < view_size input + view_size input div 254 + 1)
       (Error NoCapacity ''cobs output too small'')) (\<lambda>_.
     let s = fold cobs_step (view_bytes input)
               \<lparr>ce_out = view_bytes out, ce_code_index = 0, ce_length = 1, ce_code = 1\<rparr>
     in Inr ((ce_out s)[ce_code_index s := ce_code s], ce_length s))))"

text \<open>
  The decoder loop: the input is the range \<open>inp ..< inp + n\<close> and the output the range
  \<open>outp ..< outp + cap\<close> of \<open>mem\<close>. It returns the status, \<open>written\<close> and the memory.
\<close>

function cobs_decode_loop ::
  "nat \<Rightarrow> nat \<Rightarrow> nat \<Rightarrow> nat \<Rightarrow> nat \<Rightarrow> nat \<Rightarrow> bytes \<Rightarrow> unit result \<times> nat \<times> bytes" where
  "cobs_decode_loop inp n outp cap index written mem =
     (if n \<le> index then (Inr (), written, mem)
      else
        let code = mem ! (inp + index)
        in if code = 0 then (Inl (Error ProtocolError ''INVALID_COBS''), written, mem)
           else
             let start = index + 1; stop = start + unat code - 1
             in if n < stop then (Inl (Error ProtocolError ''INVALID_COBS''), written, mem)
                else
                  let chunk = stop - start; implicit_zero = (code \<noteq> 0xFF \<and> stop < n)
                  in if cap < written + chunk + (if implicit_zero then 1 else 0)
                     then (Inl (Error NoCapacity ''cobs decode overflow''), written, mem)
                     else
                       let mem = blit (outp + written) (take chunk (drop (inp + start) mem)) mem;
                           written = written + chunk
                       in if implicit_zero
                          then cobs_decode_loop inp n outp cap stop (written + 1) (mem[outp + written := 0])
                          else cobs_decode_loop inp n outp cap stop written mem)"
  by auto
termination
  by (relation "measure (\<lambda>(inp, n, outp, cap, index, written, mem). n - index)")
    (auto simp: Let_def unat_gt_0 intro!: diff_less_mono2)

declare cobs_decode_loop.simps [simp del]

text \<open>A null pointer is \<open>None\<close>.\<close>

definition cobs_decode ::
  "nat option \<Rightarrow> nat \<Rightarrow> nat option \<Rightarrow> nat \<Rightarrow> bytes \<Rightarrow> unit result \<times> nat \<times> bytes" where
  "cobs_decode inp n outp cap mem =
     (case outp of
        None \<Rightarrow> (Inl (Error InvalidArgument ''null cobs output''), 0, mem)
      | Some outp \<Rightarrow>
          (case inp of
             None \<Rightarrow> (if 0 < n then Inl (Error InvalidArgument ''null cobs input'') else Inr (), 0, mem)
           | Some inp \<Rightarrow>
               if 0 \<in> set (take n (drop inp mem)) then (Inl (Error ProtocolError ''INVALID_COBS''), 0, mem)
               else cobs_decode_loop inp n outp cap 0 0 mem))"

subsection \<open>Frames\<close>

definition known_kind :: "u8 \<Rightarrow> bool" where
  "known_kind k = (k \<in> {1, 2, 16, 17, 18, 19, 32, 33, 34, 35})"

definition is_control_kind :: "u8 \<Rightarrow> bool" where
  "is_control_kind k = (k = 1 \<or> k = 2 \<or> k = 32 \<or> k = 35 \<or> k = 34)"

record UsbFrame =
  uf_kind :: u8
  uf_flags :: u16
  uf_session :: u64
  uf_request :: u64
  uf_body :: bytes

text \<open>The header fields both encoders write.\<close>

definition write_usb_header :: "u8 \<Rightarrow> u16 \<Rightarrow> u64 \<Rightarrow> u64 \<Rightarrow> nat \<Rightarrow> ByteWriter \<Rightarrow> ByteWriter result" where
  "write_usb_header kind flags session request body_size w =
     and_then (write_u32 kMagic w) (\<lambda>w.
     and_then (write_u8 kProtocolVersion w) (\<lambda>w.
     and_then (write_u8 kind w) (\<lambda>w.
     and_then (write_u16 flags w) (\<lambda>w.
     and_then (write_u64 session w) (\<lambda>w.
     and_then (write_u64 request w) (\<lambda>w.
     write_u16 (of_nat body_size) w))))))"

text \<open>\<^verbatim>\<open>out.data[encoded++] = 0\<close> after the stuffing.\<close>

definition cobs_terminate :: "ByteView \<Rightarrow> ByteView \<Rightarrow> (bytes \<times> nat) result" where
  "cobs_terminate input out =
     and_then (cobs_encode input out) (\<lambda>(buf, encoded). Inr (buf[encoded := 0], encoded + 1))"

definition encode_frame ::
  "u8 \<Rightarrow> u16 \<Rightarrow> u64 \<Rightarrow> u64 \<Rightarrow> ByteView \<Rightarrow> ByteView \<Rightarrow> ByteView \<Rightarrow> (bytes \<times> nat) result" where
  "encode_frame kind flags session request body scratch out =
     (let decoded_need = kHeaderSize + view_size body + kCrcSize in
     and_then (fail_if (kMaxBodySize < view_size body \<or> 0xFFFF < view_size body)
       (Error InvalidArgument ''FRAME_TOO_LARGE'')) (\<lambda>_.
     and_then (fail_if (view_null out \<or> view_size out < encoded_frame_bound decoded_need)
       (Error NoCapacity ''frame output too small'')) (\<lambda>_.
     and_then (fail_if (view_null scratch \<or> view_size scratch < decoded_need)
       (Error NoCapacity ''frame scratch too small'')) (\<lambda>_.
     and_then (write_usb_header kind flags session request (view_size body)
       (ByteWriter_new (View (take decoded_need (view_bytes scratch))))) (\<lambda>w.
     and_then (write_bytes body w) (\<lambda>w.
     and_then (write_u32 (crc32_iso_hdlc (take (bw_offset w) (view_bytes (bw_target w)))) w) (\<lambda>w.
     cobs_terminate (View (take (bw_offset w) (view_bytes (bw_target w)))) out)))))))"

text \<open>The body lies at offset 0 of \<open>buffer\<close> and is moved behind the header in place.\<close>

definition encode_frame_inplace ::
  "u8 \<Rightarrow> u16 \<Rightarrow> u64 \<Rightarrow> u64 \<Rightarrow> ByteView \<Rightarrow> nat \<Rightarrow> ByteView \<Rightarrow> (bytes \<times> nat) result" where
  "encode_frame_inplace kind flags session request buffer body_size out =
     (let decoded_need = kHeaderSize + body_size + kCrcSize in
     and_then (fail_if (kMaxBodySize < body_size \<or> 0xFFFF < body_size)
       (Error InvalidArgument ''FRAME_TOO_LARGE'')) (\<lambda>_.
     and_then (fail_if (view_null buffer \<or> view_size buffer < decoded_need \<or> view_null out \<or>
         view_size out < encoded_frame_bound decoded_need)
       (Error NoCapacity ''frame buffer too small'')) (\<lambda>_.
     let buf = blit kHeaderSize (take body_size (view_bytes buffer)) (view_bytes buffer) in
     and_then (write_usb_header kind flags session request body_size
       (ByteWriter_new (View (take kHeaderSize buf)))) (\<lambda>w.
     let buf = view_bytes (bw_target w) @ drop kHeaderSize buf;
         crc = crc32_iso_hdlc (take (kHeaderSize + body_size) buf);
         buf = blit (kHeaderSize + body_size)
           [ucast (drop_bit 24 crc), ucast (drop_bit 16 crc), ucast (drop_bit 8 crc), ucast crc] buf
     in cobs_terminate (View (take decoded_need buf)) out))))"

text \<open>A field read whose status the code ignores: the variable keeps its initial value 0.\<close>

definition read_or ::
  "(ByteReader \<Rightarrow> ('a::zero \<times> ByteReader) result) \<Rightarrow> ByteReader \<Rightarrow> 'a \<times> ByteReader" where
  "read_or rd r = (case rd r of Inl _ \<Rightarrow> (0, r) | Inr x \<Rightarrow> x)"

definition decode_frame :: "ByteView \<Rightarrow> UsbFrame result" where
  "decode_frame decoded =
     and_then (fail_if (view_size decoded < kHeaderSize + kCrcSize) (Error ProtocolError ''FRAME_TOO_SHORT'')) (\<lambda>_.
     and_then (fail_if (kMaxDecodedFrame < view_size decoded) (Error ProtocolError ''FRAME_TOO_LARGE'')) (\<lambda>_.
     case read_u32 (ByteReader_new decoded) of
       Inl _ \<Rightarrow> Inl (Error ProtocolError ''INVALID_MAGIC'')
     | Inr (magic, r) \<Rightarrow>
     and_then (fail_if (magic \<noteq> kMagic) (Error ProtocolError ''INVALID_MAGIC'')) (\<lambda>_.
     let (version, r) = read_or read_u8 r in
     and_then (fail_if (version \<noteq> kProtocolVersion) (Error Unsupported ''UNSUPPORTED_VERSION'')) (\<lambda>_.
     let (kind, r) = read_or read_u8 r in
     and_then (fail_if (\<not> known_kind kind) (Error ProtocolError ''UNKNOWN_KIND'')) (\<lambda>_.
     let (flags, r) = read_or read_u16 r;
         (session, r) = read_or read_u64 r;
         (request, r) = read_or read_u64 r;
         (body_len, r) = read_or read_u16 r in
     and_then (fail_if (view_size decoded \<noteq> kHeaderSize + unat body_len + kCrcSize)
       (Error ProtocolError ''INVALID_LENGTH'')) (\<lambda>_.
     let crc_offset = view_size decoded - kCrcSize;
         expected = crc32_iso_hdlc (take crc_offset (view_bytes decoded));
         actual = get_be 0 (take kCrcSize (drop crc_offset (view_bytes decoded))) in
     and_then (fail_if (expected \<noteq> actual) (Error IntegrityError ''CRC_MISMATCH'')) (\<lambda>_.
     Inr \<lparr>uf_kind = kind, uf_flags = flags, uf_session = session, uf_request = request,
          uf_body = take (unat body_len) (drop kHeaderSize (view_bytes decoded))\<rparr>)))))))"

subsection \<open>The stream decoder\<close>

text \<open>Calls to the sink are events; a state is followed by the events it caused, oldest first.\<close>

datatype usb_event = On_frame UsbFrame | On_stream_error status

record StreamDecoder =
  sd_pending :: bytes
  sd_pending_size :: nat
  sd_last_byte_ms :: MonotonicMs
  sd_discarding :: bool

definition StreamDecoder_new :: StreamDecoder where
  "StreamDecoder_new = \<lparr>sd_pending = replicate kMaxPendingEncoded 0, sd_pending_size = 0,
     sd_last_byte_ms = 0, sd_discarding = False\<rparr>"

definition finish_segment :: "StreamDecoder \<Rightarrow> StreamDecoder \<times> usb_event list" where
  "finish_segment d =
     (let (status, decoded_size, mem) = cobs_decode (Some 0) (sd_pending_size d) (Some 0) kMaxDecodedFrame (sd_pending d);
          d = d\<lparr>sd_pending := mem, sd_pending_size := 0\<rparr>
      in case status of
           Inl err \<Rightarrow> (d, [On_stream_error err])
         | Inr _ \<Rightarrow>
             (case decode_frame (View (take decoded_size mem)) of
                Inl err \<Rightarrow> (d, [On_stream_error err])
              | Inr frame \<Rightarrow> (d, [On_frame frame])))"

definition push_byte :: "MonotonicMs \<Rightarrow> u8 \<Rightarrow> StreamDecoder \<Rightarrow> StreamDecoder \<times> usb_event list" where
  "push_byte now_ms byte d =
     (let d = d\<lparr>sd_last_byte_ms := now_ms\<rparr>
      in if byte = 0
         then (if sd_discarding d then (d\<lparr>sd_discarding := False\<rparr>, [])
               else if 0 < sd_pending_size d then finish_segment d
               else (d, []))
         else if sd_discarding d then (d, [])
         else if length (sd_pending d) \<le> sd_pending_size d
         then (d\<lparr>sd_pending_size := 0, sd_discarding := True\<rparr>,
               [On_stream_error (Error ProtocolError ''FRAME_TOO_LARGE'')])
         else (d\<lparr>sd_pending := (sd_pending d)[sd_pending_size d := byte],
                 sd_pending_size := sd_pending_size d + 1\<rparr>, []))"

primrec push_bytes :: "MonotonicMs \<Rightarrow> bytes \<Rightarrow> StreamDecoder \<Rightarrow> StreamDecoder \<times> usb_event list" where
  "push_bytes now_ms [] d = (d, [])"
| "push_bytes now_ms (b # bs) d =
     (let (d, ev) = push_byte now_ms b d; (d, evs) = push_bytes now_ms bs d in (d, ev @ evs))"

definition stream_push :: "ByteView \<Rightarrow> MonotonicMs \<Rightarrow> StreamDecoder \<Rightarrow> StreamDecoder \<times> usb_event list" where
  "stream_push input now_ms d =
     (if 0 < view_size input \<and> view_null input
      then (d, [On_stream_error (Error InvalidArgument ''null stream input'')])
      else push_bytes now_ms (view_bytes input) d)"

definition stream_poll :: "MonotonicMs \<Rightarrow> StreamDecoder \<Rightarrow> StreamDecoder \<times> usb_event list" where
  "stream_poll now_ms d =
     (if sd_pending_size d = 0 \<and> \<not> sd_discarding d then (d, [])
      else if kPartialFrameTimeoutMs \<le> now_ms - sd_last_byte_ms d
      then (d\<lparr>sd_pending_size := 0, sd_discarding := False\<rparr>,
            if 0 < sd_pending_size d then [On_stream_error (Error ProtocolError ''PARTIAL_FRAME_TIMEOUT'')] else [])
      else (d, []))"

definition stream_reset :: "StreamDecoder \<Rightarrow> StreamDecoder" where
  "stream_reset d = d\<lparr>sd_pending_size := 0, sd_discarding := False\<rparr>"

subsection \<open>Credit\<close>

record CumulativeCredit =
  cc_session :: u64
  cc_grant_frames :: u64
  cc_grant_bytes :: u64
  cc_consumed_frames :: u64
  cc_consumed_bytes :: u64

definition credit_reset :: "u64 \<Rightarrow> CumulativeCredit" where
  "credit_reset session = \<lparr>cc_session = session, cc_grant_frames = 0, cc_grant_bytes = 0,
     cc_consumed_frames = 0, cc_consumed_bytes = 0\<rparr>"

definition credit_update :: "u64 \<Rightarrow> u64 \<Rightarrow> u64 \<Rightarrow> CumulativeCredit \<Rightarrow> unit result \<times> CumulativeCredit" where
  "credit_update session grant_frames grant_bytes c =
     (if session \<noteq> cc_session c then (Inl (Error ProtocolError ''CREDIT_SESSION_MISMATCH''), c)
      else (Inr (), c\<lparr>cc_grant_frames := (if cc_grant_frames c < grant_frames then grant_frames else cc_grant_frames c),
                      cc_grant_bytes := (if cc_grant_bytes c < grant_bytes then grant_bytes else cc_grant_bytes c)\<rparr>))"

definition credit_consume :: "u64 \<Rightarrow> CumulativeCredit \<Rightarrow> unit result \<times> CumulativeCredit" where
  "credit_consume decoded_len c =
     (if cc_grant_frames c \<le> cc_consumed_frames c \<or> cc_grant_bytes c < cc_consumed_bytes c \<or>
         cc_grant_bytes c - cc_consumed_bytes c < decoded_len
      then (Inl (Error WouldBlock ''CREDIT_EXHAUSTED''), c)
      else (Inr (), c\<lparr>cc_consumed_frames := cc_consumed_frames c + 1,
                      cc_consumed_bytes := cc_consumed_bytes c + decoded_len\<rparr>))"

definition available_frames :: "CumulativeCredit \<Rightarrow> u64" where
  "available_frames c = cc_grant_frames c - cc_consumed_frames c"

definition available_bytes :: "CumulativeCredit \<Rightarrow> u64" where
  "available_bytes c = cc_grant_bytes c - cc_consumed_bytes c"

subsection \<open>COBS as a function on byte lists\<close>

text \<open>\<open>cobs_enc xs blk\<close> stuffs \<open>xs\<close> with \<open>blk\<close> already in the open block.\<close>

primrec cobs_enc :: "bytes \<Rightarrow> bytes \<Rightarrow> bytes" where
  "cobs_enc [] blk = of_nat (length blk + 1) # blk"
| "cobs_enc (x # xs) blk =
     (if x = 0 then of_nat (length blk + 1) # blk @ cobs_enc xs []
      else if length blk = 253 then 0xFF # blk @ x # cobs_enc xs []
      else cobs_enc xs (blk @ [x]))"

fun cobs_dec :: "bytes \<Rightarrow> bytes option" where
  "cobs_dec [] = Some []"
| "cobs_dec (code # ys) =
     (let chunk = take (unat code - 1) ys; rest = drop (unat code - 1) ys
      in if code = 0 \<or> length ys < unat code - 1 then None
         else map_option (\<lambda>d. chunk @ (if code \<noteq> 0xFF \<and> rest \<noteq> [] then [0] else []) @ d) (cobs_dec rest))"

lemma unat_code: "n < 255 \<Longrightarrow> unat (of_nat (Suc n) :: u8) = Suc n"
  by (simp add: unat_of_nat del: of_nat_Suc)

lemma code_eq: "n < 255 \<Longrightarrow> (of_nat (Suc n) :: u8) = 0 \<longleftrightarrow> False"
  "n < 255 \<Longrightarrow> (of_nat (Suc n) :: u8) = 0xFF \<longleftrightarrow> n = 254"
  by (simp_all add: word_unat_eq_iff unat_code del: of_nat_Suc)

lemma cobs_enc_not_Nil [simp]: "cobs_enc xs blk \<noteq> []"
  by (induction xs arbitrary: blk) auto

lemma cobs_enc_ge: "Suc (length blk) \<le> length (cobs_enc xs blk)"
proof (induction xs arbitrary: blk)
  case (Cons x xs)
  then show ?case using Cons.IH [of "blk @ [x]"] by auto
qed simp

lemma drop_enc [simp]: "drop (length (cobs_enc xs b)) (t # u) = drop (length (cobs_enc xs b) - Suc 0) u"
  using cobs_enc_ge [of b xs] by (cases "length (cobs_enc xs b)") auto

lemma cobs_dec_enc: "length blk < 254 \<Longrightarrow> cobs_dec (cobs_enc xs blk) = Some (blk @ xs)"
proof (induction xs arbitrary: blk)
  case Nil
  then show ?case by (simp add: unat_code code_eq del: of_nat_Suc)
next
  case (Cons x xs)
  show ?case
  proof (cases "x = 0")
    case True
    with Cons show ?thesis by (simp add: unat_code code_eq del: of_nat_Suc)
  next
    case False
    with Cons show ?thesis
      by (cases "length blk = 253") simp_all
  qed
qed

lemma cobs_enc_no_zero: "length blk < 254 \<Longrightarrow> 0 \<notin> set blk \<Longrightarrow> 0 \<notin> set (cobs_enc xs blk)"
proof (induction xs arbitrary: blk)
  case Nil
  then show ?case using code_eq(1) [of "length blk"] by auto
next
  case (Cons x xs)
  then show ?case using code_eq(1) [of "length blk"] by auto
qed

lemma cobs_enc_length:
  "length blk < 254 \<Longrightarrow> length (cobs_enc xs blk) \<le>
     length blk + length xs + (length blk + length xs) div 254 + 1"
proof (induction xs arbitrary: blk)
  case (Cons x xs)
  show ?case
  proof (cases "x \<noteq> 0 \<and> length blk = 253")
    case True
    then show ?thesis using Cons.IH [of "[]"] by (simp add: div_add_self1)
  next
    case False
    have "length xs div 254 \<le> (length blk + Suc (length xs)) div 254" by (rule div_le_mono) simp
    then show ?thesis
      using False Cons.IH [of "[]"] Cons.IH [of "blk @ [x]"] Cons.prems by (cases "x = 0") simp_all
  qed
qed simp

subsection \<open>The encoder loop stuffs its input\<close>

lemma list_update_middle: "(xs @ y # zs)[length xs := v] = xs @ v # zs"
  by simp

lemma cobs_fold:
  assumes "length blk < 254" "length (cobs_enc xs blk) \<le> Suc (length blk + length tail)"
  shows "let s = fold cobs_step xs \<lparr>ce_out = pre @ z # blk @ tail, ce_code_index = length pre,
           ce_length = Suc (length pre + length blk), ce_code = of_nat (Suc (length blk))\<rparr>
         in (ce_out s)[ce_code_index s := ce_code s] =
              pre @ cobs_enc xs blk @ drop (length (cobs_enc xs blk) - Suc (length blk)) tail \<and>
            ce_length s = length pre + length (cobs_enc xs blk)"
  using assms
proof (induction xs arbitrary: pre z blk tail)
  case Nil
  then show ?case by simp
next
  case (Cons x xs)
  have close: "cobs_close \<lparr>ce_out = pre @ z # b @ t # u, ce_code_index = length pre,
      ce_length = Suc (length pre + length b), ce_code = c\<rparr> =
    \<lparr>ce_out = (pre @ c # b) @ t # [] @ u, ce_code_index = length (pre @ c # b),
      ce_length = Suc (length (pre @ c # b) + length ([] :: bytes)), ce_code = of_nat (Suc (length ([] :: bytes)))\<rparr>"
    for b t u c by (simp add: cobs_close_def)
  show ?case
  proof (cases "x = 0")
    case True
    with Cons.prems obtain t u where tail: "tail = t # u" by (cases tail) (auto simp: Suc_le_eq)
    show ?thesis
      using Cons.IH [of "[]" u "pre @ of_nat (Suc (length blk)) # blk" t] Cons.prems True
      by (simp add: cobs_step_def tail close Let_def del: of_nat_Suc)
  next
    case False
    then have "length (cobs_enc (x # xs) blk) \<ge> Suc (Suc (length blk))"
      using cobs_enc_ge [of "blk @ [x]" xs] by simp
    with Cons.prems obtain t u where tail: "tail = t # u" by (cases tail) auto
    let ?c = "of_nat (Suc (Suc (length blk))) :: u8"
    let ?s = "\<lparr>ce_out = pre @ z # (blk @ [x]) @ u, ce_code_index = length pre,
        ce_length = Suc (length pre + length (blk @ [x])), ce_code = ?c\<rparr>"
    have upd: "(pre @ z # blk @ t # u)[Suc (length pre + length blk) := x] = pre @ z # blk @ x # u"
      using list_update_append [of "pre @ z # blk" "t # u" "length (pre @ z # blk)" x] by simp
    let ?old = "\<lparr>ce_out = pre @ z # blk @ tail, ce_code_index = length pre,
        ce_length = Suc (length pre + length blk), ce_code = of_nat (Suc (length blk))\<rparr>"
    have step: "cobs_step x ?old =
        (if length blk = 253 then cobs_close ?s else ?s)"
    proof -
      have "(ce_out ?old)[ce_length ?old := x] = ce_out ?s"
        by (simp only: cobs_state.select_convs tail upd append_assoc append_Cons append_Nil)
      moreover have "ce_length ?old + 1 = ce_length ?s" by simp
      moreover have "ce_code ?old + 1 = ce_code ?s" by simp
      ultimately have "?old\<lparr>ce_out := (ce_out ?old)[ce_length ?old := x], ce_length := ce_length ?old + 1,
          ce_code := ce_code ?old + 1\<rparr> = ?s" by simp
      moreover have "ce_code ?s = 0xFF \<longleftrightarrow> length blk = 253"
        using code_eq(2) [of "Suc (length blk)"] Cons.prems(1) by (simp del: of_nat_Suc)
      ultimately show ?thesis
        unfolding cobs_step_def Let_def if_not_P [OF False] by (simp only:)
    qed
    show ?thesis
    proof (cases "length blk = 253")
      case True
      with Cons.prems False have "u \<noteq> []" using cobs_enc_not_Nil [of xs "[]"]
        by (auto simp: tail Suc_le_eq)
      then obtain v w where u: "u = v # w" by (cases u) auto
      have full: "fold cobs_step (x # xs) ?old = fold cobs_step xs (cobs_close ?s)"
        by (simp only: fold_simps step if_P [OF True])
      have c: "?c = 0xFF" using True by simp
      have room: "length (cobs_enc xs []) \<le> Suc (length ([] :: bytes) + length w)"
        using Cons.prems True False by (simp add: tail u)
      show ?thesis
        unfolding full unfolding u close unfolding c
        using Cons.IH [OF _ room, of "pre @ 0xFF # blk @ [x]" v] True False
        by (simp add: Let_def tail u)
    next
      case notfull: False
      have part: "fold cobs_step (x # xs) ?old = fold cobs_step xs ?s"
        by (simp only: fold_simps step if_not_P [OF notfull])
      have enc: "cobs_enc (x # xs) blk = cobs_enc xs (blk @ [x])" using False notfull by simp
      obtain m where m: "length (cobs_enc xs (blk @ [x])) = Suc (Suc (length blk)) + m"
        using le_Suc_ex [OF cobs_enc_ge [of "blk @ [x]" xs]] by auto
      have room: "length (blk @ [x]) < 254"
        "length (cobs_enc xs (blk @ [x])) \<le> Suc (length (blk @ [x]) + length u)"
        using Cons.prems notfull False by (simp_all add: tail)
      show ?thesis
        unfolding part enc using Cons.IH [OF room, of pre z] by (simp add: Let_def m tail)
    qed
  qed
qed

lemma cobs_encode_enc:
  assumes "length xs + length xs div 254 + 1 \<le> length buf"
  shows "cobs_encode (View xs) (View buf) =
    Inr (cobs_enc xs [] @ drop (length (cobs_enc xs [])) buf, length (cobs_enc xs []))"
proof -
  from assms obtain z tail where buf: "buf = z # tail" by (cases buf) auto
  have len: "length (cobs_enc xs []) \<le> Suc (length tail)"
    using cobs_enc_length [of "[]" xs] assms by (simp add: buf)
  with cobs_fold [of "[]" xs tail "[]" z] assms show ?thesis
    by (simp add: cobs_encode_def buf Let_def)
qed

subsection \<open>The decoder loop inverts the stuffing, in place too\<close>

text \<open>
  Writing at \<open>a\<close> never disturbs input still to be read at \<open>b\<close> or later: it ends before, or
  lies behind the whole input.
\<close>

lemma drop_blit_before: "a + length d \<le> b \<Longrightarrow> b \<le> length mem \<Longrightarrow> drop b (blit a d mem) = drop b mem"
  by (simp add: blit_def)

lemma take_drop_blit_after: "b + k \<le> a \<Longrightarrow> a + length d \<le> length mem \<Longrightarrow>
    take k (drop b (blit a d mem)) = take k (drop b mem)"
  by (simp add: blit_def min_def take_drop add.commute)

lemma blit_snoc:
  "a + length c < length mem \<Longrightarrow> (blit a c mem)[a + length c := x] = blit a (c @ [x]) mem"
  using blit_append [of a c "[x]" mem] by (simp add: blit_single)

definition unread :: "nat \<Rightarrow> nat \<Rightarrow> nat \<Rightarrow> bytes \<Rightarrow> bytes" where
  "unread inp n index mem = take (n - index) (drop (inp + index) mem)"

lemma unread_blit:
  assumes "a + length d \<le> inp + index \<or> inp + n \<le> a" "a + length d \<le> length mem"
    "inp + n \<le> length mem" "index \<le> n"
  shows "unread inp n index (blit a d mem) = unread inp n index mem"
  using assms drop_blit_before [of a d "inp + index" mem] take_drop_blit_after [of "inp + index" "n - index" a d mem]
  by (auto simp: unread_def)

lemma unread_step:
  assumes "index < n" "inp + n \<le> length mem"
  shows "unread inp n index mem = mem ! (inp + index) # unread inp n (index + 1) mem"
  using assms by (simp add: unread_def Cons_nth_drop_Suc [symmetric] take_Cons' Suc_diff_Suc)

lemma unread_skip: "index + k \<le> n \<Longrightarrow> drop k (unread inp n index mem) = unread inp n (index + k) mem"
  by (simp add: unread_def drop_take ac_simps)

lemma decode_loop_step:
  assumes "index < n" "mem ! (inp + index) = code" "code \<noteq> 0" "unat code = k + 1" "index + 1 + k \<le> n"
    and "iz = (code \<noteq> 0xFF \<and> index + 1 + k < n)" "written + k + (if iz then 1 else 0) \<le> cap"
  shows "cobs_decode_loop inp n outp cap index written mem =
    (let m = blit (outp + written) (take k (drop (inp + (index + 1)) mem)) mem
     in if iz then cobs_decode_loop inp n outp cap (index + 1 + k) (written + k + 1) (m[outp + (written + k) := 0])
        else cobs_decode_loop inp n outp cap (index + 1 + k) (written + k) m)"
proof -
  have s: "index + 1 + unat code - 1 = index + 1 + k" "index + 1 + k - (index + 1) = k"
    using assms(4) by simp_all
  have "\<not> n \<le> index" "\<not> n < index + 1 + k" "\<not> cap < written + k + (if iz then 1 else 0)" using assms by auto
  with assms(3) show ?thesis
    unfolding cobs_decode_loop.simps [of inp n outp cap index written mem] Let_def assms(2) s
      assms(6) [symmetric] by (simp only: if_False)
qed

lemma decode_loop:
  assumes "inp + n \<le> length mem" "outp + cap \<le> length mem" "index \<le> n" "written \<le> cap"
    and "outp + written \<le> inp + index \<or> inp + n \<le> outp"
  shows "case cobs_dec (unread inp n index mem) of
      None \<Rightarrow> \<exists>e. fst (cobs_decode_loop inp n outp cap index written mem) = Inl e
    | Some d \<Rightarrow>
        if written + length d \<le> cap
        then cobs_decode_loop inp n outp cap index written mem =
          (Inr (), written + length d, blit (outp + written) d mem)
        else fst (cobs_decode_loop inp n outp cap index written mem) =
          Inl (Error NoCapacity ''cobs decode overflow'')"
  using assms
proof (induction "n - index" arbitrary: index written mem rule: less_induct)
  case less
  show ?case
  proof (cases "n \<le> index")
    case True
    then have "unread inp n index mem = []" by (simp add: unread_def)
    with True less.prems show ?thesis by (subst (1 2) cobs_decode_loop.simps) simp
  next
    case False
    define code where "code = mem ! (inp + index)"
    define ys where "ys = unread inp n (index + 1) mem"
    have split: "unread inp n index mem = code # ys"
      using False less.prems by (simp add: unread_step code_def ys_def)
    have lys: "length ys = n - index - 1" using less.prems by (simp add: ys_def unread_def)
    define k where "k = unat code - 1"
    show ?thesis
    proof (cases "code = 0 \<or> length ys < k")
      case True
      have "fst (cobs_decode_loop inp n outp cap index written mem) = Inl (Error ProtocolError ''INVALID_COBS'')"
        using True False lys by (subst cobs_decode_loop.simps) (auto simp: Let_def code_def [symmetric] k_def)
      with True split show ?thesis by (auto simp: k_def)
    next
      case ok: False
      then have stop: "index + 1 + unat code - 1 = index + 1 + k" "0 < unat code"
        by (auto simp: k_def unat_gt_0)
      define iz where "iz = (code \<noteq> 0xFF \<and> index + 1 + k < n)"
      define chunk where "chunk = take k ys"
      have lk: "length chunk = k" using ok by (simp add: chunk_def)
      have chunk_mem: "chunk = take k (drop (inp + (index + 1)) mem)"
        using ok lys by (simp add: chunk_def ys_def unread_def min_def)
      have rest: "drop k ys = unread inp n (index + 1 + k) mem" "drop k ys \<noteq> [] \<longleftrightarrow> index + 1 + k < n"
        using ok lys False unread_skip [of "index + 1" k n inp mem] by (auto simp: ys_def)
      let ?z = "if iz then [0] else [] :: bytes"
      define mem' where "mem' = blit (outp + written) (chunk @ ?z) mem"
      have dec: "cobs_dec (unread inp n index mem) =
          map_option (\<lambda>d. chunk @ ?z @ d) (cobs_dec (unread inp n (index + 1 + k) mem))"
        unfolding split cobs_dec.simps Let_def k_def [symmetric] if_not_P [OF ok] rest(2) iz_def [symmetric]
        by (simp add: chunk_def rest(1))
      show ?thesis
      proof (cases "cap < written + k + length ?z")
        case True
        have "fst (cobs_decode_loop inp n outp cap index written mem) = Inl (Error NoCapacity ''cobs decode overflow'')"
          using True ok False lys stop
          by (subst cobs_decode_loop.simps) (auto simp: Let_def code_def [symmetric] iz_def k_def [symmetric] split: if_splits)
        with True show ?thesis by (auto simp: dec lk split: option.split)
      next
        case fits: False
        have "cobs_decode_loop inp n outp cap index written mem =
            cobs_decode_loop inp n outp cap (index + 1 + k) (written + k + length ?z) mem'"
        proof -
          have "cobs_decode_loop inp n outp cap index written mem =
            (let m = blit (outp + written) chunk mem
             in if iz then cobs_decode_loop inp n outp cap (index + 1 + k) (written + k + 1) (m[outp + (written + k) := 0])
                else cobs_decode_loop inp n outp cap (index + 1 + k) (written + k) m)"
            unfolding chunk_mem
            by (rule decode_loop_step [where code = code]) (use False stop ok lys fits in \<open>auto simp: code_def iz_def k_def\<close>)
          then show ?thesis
            using blit_snoc [of "outp + written" chunk mem 0] fits less.prems
            by (cases iz) (simp_all add: mem'_def lk add.assoc Let_def)
        qed
        moreover have "unread inp n (index + 1 + k) mem' = unread inp n (index + 1 + k) mem"
          unfolding mem'_def using less.prems fits ok lys False
          by (intro unread_blit) (auto simp: lk)
        moreover have "blit (outp + (written + k + length ?z)) d mem' = blit (outp + written) (chunk @ ?z @ d) mem"
          if "written + k + length ?z + length d \<le> cap" for d
          using blit_append [of "outp + written" "chunk @ ?z" d mem] that less.prems by (simp add: mem'_def lk add.assoc)
        moreover have "length mem' = length mem" unfolding mem'_def
          using fits less.prems by (intro length_blit) (simp add: lk)
        moreover have "length ?z \<le> 1" by simp
        ultimately show ?thesis
          using less.hyps [of "index + 1 + k" mem' "written + k + length ?z"] less.prems fits ok lys False
          unfolding dec by (auto simp: lk add.assoc split: option.splits if_splits)
      qed
    qed
  qed
qed

lemma decode_loop_length:
  "outp + cap \<le> length mem \<Longrightarrow> inp + n \<le> length mem \<Longrightarrow>
   length (snd (snd (cobs_decode_loop inp n outp cap index written mem))) = length mem"
proof (induction "n - index" arbitrary: index written mem rule: less_induct)
  case less
  let ?code = "mem ! (inp + index)"
  let ?k = "unat ?code - 1"
  let ?iz = "?code \<noteq> 0xFF \<and> index + 1 + ?k < n"
  show ?case
  proof (cases "index < n \<and> ?code \<noteq> 0 \<and> index + 1 + ?k \<le> n \<and> written + ?k + (if ?iz then 1 else 0) \<le> cap")
    case True
    then have u: "unat ?code = ?k + 1" using unat_gt_0 [of ?code] by simp
    let ?m = "blit (outp + written) (take ?k (drop (inp + (index + 1)) mem)) mem"
    have "length ?m = length mem"
      using True less.prems by (intro length_blit) (auto split: if_splits)
    moreover have "n - (index + 1 + ?k) < n - index" using True by (intro diff_less_mono2) auto
    ultimately show ?thesis
      using less True decode_loop_step [of index n mem inp ?code ?k ?iz written cap outp, OF _ refl _ u]
      by (auto simp: Let_def)
  next
    case False
    then show ?thesis
      using unat_gt_0 [of ?code]
      by (subst cobs_decode_loop.simps) (auto simp: Let_def split: if_splits)
  qed
qed

lemma cobs_decode_length:
  "n \<le> length mem \<Longrightarrow> cap \<le> length mem \<Longrightarrow> length (snd (snd (cobs_decode (Some 0) n (Some 0) cap mem))) = length mem"
  by (simp add: cobs_decode_def decode_loop_length)

lemma cobs_decode_enc:
  assumes "take n (drop inp mem) = cobs_enc xs []" "inp + n \<le> length mem" "outp + cap \<le> length mem"
    and "length xs \<le> cap" "outp \<le> inp \<or> inp + n \<le> outp"
  shows "cobs_decode (Some inp) n (Some outp) cap mem = (Inr (), length xs, blit outp xs mem)"
  using decode_loop [of inp n mem outp cap 0 0] assms cobs_dec_enc [of "[]" xs] cobs_enc_no_zero [of "[]" xs]
  by (simp add: cobs_decode_def unread_def)

subsection \<open>Frames round trip\<close>

definition usb_header_bytes :: "u8 \<Rightarrow> u16 \<Rightarrow> u64 \<Rightarrow> u64 \<Rightarrow> nat \<Rightarrow> bytes" where
  "usb_header_bytes kind flags session request n =
     put_be 4 kMagic @ [kProtocolVersion, kind] @ put_be 2 flags @ put_be 8 session @ put_be 8 request @
     put_be 2 (of_nat n :: u16)"

definition usb_frame_bytes :: "UsbFrame \<Rightarrow> bytes" where
  "usb_frame_bytes f =
     (let bs = usb_header_bytes (uf_kind f) (uf_flags f) (uf_session f) (uf_request f) (length (uf_body f)) @ uf_body f
      in bs @ put_be 4 (crc32_iso_hdlc bs))"

definition usb_valid :: "UsbFrame \<Rightarrow> bool" where
  "usb_valid f \<longleftrightarrow> known_kind (uf_kind f) \<and> length (uf_body f) \<le> kMaxBodySize"

lemma usb_header_length [simp]: "length (usb_header_bytes kind flags session request n) = kHeaderSize"
  by (simp add: usb_header_bytes_def)

lemma usb_frame_length [simp]: "length (usb_frame_bytes f) = kHeaderSize + length (uf_body f) + kCrcSize"
  by (simp add: usb_frame_bytes_def Let_def)

lemma write_usb_header_bytes:
  "kHeaderSize \<le> length tail \<Longrightarrow>
   write_usb_header kind flags session request n (writer out tail) =
     Inr (writer (out @ usb_header_bytes kind flags session request n) (drop kHeaderSize tail))"
  by (auto simp: write_usb_header_def codec usb_header_bytes_def)

definition usb_wire :: "UsbFrame \<Rightarrow> bytes" where
  "usb_wire f = cobs_enc (usb_frame_bytes f) [] @ [0]"

lemma cobs_terminate_enc:
  assumes "encoded_frame_bound (length xs) \<le> length out"
  shows "cobs_terminate (View xs) (View out) =
    Inr (cobs_enc xs [] @ 0 # drop (Suc (length (cobs_enc xs []))) out, Suc (length (cobs_enc xs [])))"
proof -
  have len: "Suc (length (cobs_enc xs [])) \<le> length out"
    using cobs_enc_length [of "[]" xs] assms by (simp add: encoded_frame_bound_def)
  then obtain t u where "drop (length (cobs_enc xs [])) out = t # u"
    by (cases "drop (length (cobs_enc xs [])) out") auto
  moreover from this have "drop (Suc (length (cobs_enc xs []))) out = u"
    by (metis drop_Suc_Cons drop_0 drop_drop plus_1_eq_Suc add.commute One_nat_def)
  ultimately show ?thesis
    using assms by (simp add: cobs_terminate_def cobs_encode_enc encoded_frame_bound_def)
qed

lemma encode_frame_wire:
  assumes "length body \<le> kMaxBodySize" "kHeaderSize + length body + kCrcSize \<le> length scratch"
    and "encoded_frame_bound (kHeaderSize + length body + kCrcSize) \<le> length out"
    and f: "f = \<lparr>uf_kind = kind, uf_flags = flags, uf_session = session, uf_request = request, uf_body = body\<rparr>"
  shows "encode_frame kind flags session request (View body) (View scratch) (View out) =
    Inr (usb_wire f @ drop (length (usb_wire f)) out, length (usb_wire f))"
  using assms cobs_terminate_enc [of "usb_frame_bytes f" out]
  by (simp add: encode_frame_def write_usb_header_bytes write_bytes_def codec usb_frame_bytes_def usb_wire_def Let_def)

lemma put_be_4: "put_be 4 (v :: u32) = [ucast (drop_bit 24 v), ucast (drop_bit 16 v), ucast (drop_bit 8 v), ucast v]"
proof -
  have four: "(4 :: nat) = Suc (Suc (Suc (Suc 0)))" by simp
  show ?thesis unfolding four by (simp add: ucast_and_255)
qed

lemma encode_frame_inplace_wire:
  assumes "length body \<le> kMaxBodySize" "kHeaderSize + length body + kCrcSize \<le> length (body @ room)"
    and "encoded_frame_bound (kHeaderSize + length body + kCrcSize) \<le> length out"
    and f: "f = \<lparr>uf_kind = kind, uf_flags = flags, uf_session = session, uf_request = request, uf_body = body\<rparr>"
  shows "encode_frame_inplace kind flags session request (View (body @ room)) (length body) (View out) =
    Inr (usb_wire f @ drop (length (usb_wire f)) out, length (usb_wire f))"
proof -
  let ?h = "usb_header_bytes kind flags session request (length body)"
  let ?buf = "blit kHeaderSize body (body @ room)"
  have buf: "length (take kHeaderSize ?buf) = kHeaderSize" "drop kHeaderSize ?buf = body @ drop (kHeaderSize + length body) (body @ room)"
    using assms(2) by (simp_all add: blit_def)
  have w: "write_usb_header kind flags session request (length body) (writer [] (take kHeaderSize ?buf)) = Inr (writer ?h [])"
    using write_usb_header_bytes [of "take kHeaderSize ?buf" kind flags session request "length body" "[]"] buf(1) by simp
  have fb: "take (kHeaderSize + length body + kCrcSize) (blit (kHeaderSize + length body) (put_be 4 (crc32_iso_hdlc (?h @ body)))
      (?h @ body @ drop (kHeaderSize + length body) (body @ room))) = usb_frame_bytes f"
    using assms(2) by (simp add: blit_def usb_frame_bytes_def f Let_def)
  show ?thesis
    using assms cobs_terminate_enc [of "usb_frame_bytes f" out] fb
    by (simp add: encode_frame_inplace_def Let_def w buf(2) put_be_4 [symmetric] usb_wire_def f)
qed

lemma decode_frame_bytes:
  assumes "usb_valid f"
  shows "decode_frame (View (usb_frame_bytes f)) = Inr f"
proof -
  let ?h = "usb_header_bytes (uf_kind f) (uf_flags f) (uf_session f) (uf_request f) (length (uf_body f))"
  have n: "unat (of_nat (length (uf_body f)) :: u16) = length (uf_body f)"
    using assms by (simp add: usb_valid_def unat_of_nat)
  let ?crc = "crc32_iso_hdlc (?h @ uf_body f)"
  have fb: "usb_frame_bytes f = ?h @ uf_body f @ put_be 4 ?crc" by (simp add: usb_frame_bytes_def Let_def)
  have rd: "reader [] (usb_frame_bytes f) = reader [] (put_be 4 kMagic @ kProtocolVersion # uf_kind f #
      put_be 2 (uf_flags f) @ put_be 8 (uf_session f) @ put_be 8 (uf_request f) @
      put_be 2 (of_nat (length (uf_body f)) :: u16) @ uf_body f @ put_be 4 ?crc)"
    unfolding fb by (simp add: usb_header_bytes_def)
  have parts: "take (kHeaderSize + length (uf_body f)) (usb_frame_bytes f) = ?h @ uf_body f"
    "take kCrcSize (drop (kHeaderSize + length (uf_body f)) (usb_frame_bytes f)) = put_be 4 ?crc"
    "take (length (uf_body f)) (drop kHeaderSize (usb_frame_bytes f)) = uf_body f"
    unfolding fb by simp_all
  show ?thesis
    using assms n parts
    by (simp add: decode_frame_def usb_valid_def rd read_or_def codec get_be_put_be)
qed

text \<open>The decoder accepts nothing but encodings of valid frames.\<close>

lemma split_be:
  assumes "n \<le> length bs" "8 * n = LENGTH('a)"
  obtains v :: "'a::len word" and rest where "bs = put_be n v @ rest"
proof -
  have "put_be n (get_be 0 (take n bs) :: 'a word) = take n bs" using assms by (intro put_be_get_be) auto
  with that [of "get_be 0 (take n bs)" "drop n bs"] show thesis by simp
qed

lemma split_usb_header:
  assumes "kHeaderSize \<le> length bs"
  obtains magic :: u32 and version kind and flags :: u16 and session request :: u64 and n :: u16 and rest
  where "bs = put_be 4 magic @ version # kind # put_be 2 flags @ put_be 8 session @ put_be 8 request @ put_be 2 n @ rest"
proof -
  have w: "8 * 4 = LENGTH(32)" "8 * 2 = LENGTH(16)" "8 * 8 = LENGTH(64)" by simp_all
  obtain magic :: u32 and r1 where r1: "bs = put_be 4 magic @ r1" by (rule split_be [OF _ w(1), of bs]) (use assms in simp)
  then have "\<exists>version kind r2. r1 = version # kind # r2" using assms by (cases r1; cases "tl r1") auto
  then obtain version kind r2 where r2: "r1 = version # kind # r2" by blast
  have "20 \<le> length r2" using assms r1 r2 by simp
  obtain flags :: u16 and r3 where r3: "r2 = put_be 2 flags @ r3"
    by (rule split_be [OF _ w(2), of r2]) (use \<open>20 \<le> length r2\<close> in simp)
  obtain session :: u64 and r4 where r4: "r3 = put_be 8 session @ r4"
    by (rule split_be [OF _ w(3), of r3]) (use \<open>20 \<le> length r2\<close> r3 in simp)
  obtain request :: u64 and r5 where r5: "r4 = put_be 8 request @ r5"
    by (rule split_be [OF _ w(3), of r4]) (use \<open>20 \<le> length r2\<close> r3 r4 in simp)
  obtain n :: u16 and r6 where "r5 = put_be 2 n @ r6"
    by (rule split_be [OF _ w(2), of r5]) (use \<open>20 \<le> length r2\<close> r3 r4 r5 in simp)
  with r1 r2 r3 r4 r5 that show thesis by simp
qed

lemma decode_frame_Inr:
  assumes "decode_frame (View bs) = Inr f"
  shows "usb_valid f \<and> bs = usb_frame_bytes f"
proof -
  have len: "kHeaderSize + kCrcSize \<le> length bs" "length bs \<le> kMaxDecodedFrame"
    using assms by (auto simp: decode_frame_def split: if_splits)
  obtain magic :: u32 and version kind and flags :: u16 and session request :: u64 and n :: u16 and rest
    where bs: "bs = put_be 4 magic @ version # kind # put_be 2 flags @ put_be 8 session @ put_be 8 request @ put_be 2 n @ rest"
    by (rule split_usb_header [of bs]) (use len in simp)
  let ?h = "put_be 4 magic @ version # kind # put_be 2 flags @ put_be 8 session @ put_be 8 request @ put_be 2 n"
  have bs': "bs = ?h @ rest" "length ?h = kHeaderSize" by (simp_all add: bs)
  have rd: "reader [] bs = reader [] (?h @ rest)" by (simp add: bs)
  have parts: "take (kHeaderSize + unat n) bs = ?h @ take (unat n) rest"
    "drop (kHeaderSize + unat n) bs = drop (unat n) rest" "drop kHeaderSize bs = rest"
    unfolding bs'(1) take_append drop_append bs'(2) using bs'(2) by simp_all
  have chk: "magic = kMagic" "version = kProtocolVersion" "known_kind kind" "length rest = unat n + kCrcSize"
    and crc: "crc32_iso_hdlc (?h @ take (unat n) rest) = get_be 0 (drop (unat n) rest)"
    and f: "f = \<lparr>uf_kind = kind, uf_flags = flags, uf_session = session, uf_request = request, uf_body = take (unat n) rest\<rparr>"
    using assms len parts by (auto simp: decode_frame_def rd read_or_def codec split: if_splits)
  have "put_be 4 (crc32_iso_hdlc (?h @ take (unat n) rest)) = drop (unat n) rest"
    unfolding crc by (rule put_be_get_be) (use chk(4) in auto)
  then show ?thesis
    using len chk by (simp add: bs f min_def usb_valid_def usb_frame_bytes_def usb_header_bytes_def Let_def)
qed

subsection \<open>The stream decoder\<close>

definition stream_inv :: "StreamDecoder \<Rightarrow> bool" where
  "stream_inv d \<longleftrightarrow> length (sd_pending d) = kMaxPendingEncoded \<and> sd_pending_size d \<le> kMaxPendingEncoded \<and>
     (sd_discarding d \<longrightarrow> sd_pending_size d = 0)"

definition stream_idle :: "StreamDecoder \<Rightarrow> bool" where
  "stream_idle d \<longleftrightarrow> stream_inv d \<and> sd_pending_size d = 0 \<and> \<not> sd_discarding d"

lemma finish_segment_inv:
  assumes "stream_inv d" "\<not> sd_discarding d"
  shows "stream_idle (fst (finish_segment d))"
proof -
  obtain st n mem where dec: "cobs_decode (Some 0) (sd_pending_size d) (Some 0) kMaxDecodedFrame (sd_pending d) = (st, n, mem)"
    by (metis prod_cases3)
  have "length mem = length (sd_pending d)"
    using cobs_decode_length [of "sd_pending_size d" "sd_pending d" kMaxDecodedFrame] assms dec
    by (simp add: stream_inv_def)
  with assms show ?thesis
    by (auto simp: finish_segment_def dec Let_def stream_idle_def stream_inv_def split: sum.split)
qed

lemma push_byte_inv: "stream_inv d \<Longrightarrow> stream_inv (fst (push_byte now b d))"
  using finish_segment_inv [of "d\<lparr>sd_last_byte_ms := now\<rparr>"]
  by (auto simp: push_byte_def Let_def stream_idle_def stream_inv_def)

lemma push_bytes_inv: "stream_inv d \<Longrightarrow> stream_inv (fst (push_bytes now bs d))"
proof (induction bs arbitrary: d)
  case (Cons b bs)
  from Cons.IH [OF push_byte_inv [OF Cons.prems, of now b]] show ?case by (simp add: split_beta)
qed simp

lemma push_bytes_append:
  "push_bytes now (xs @ ys) d =
     (let (d, ev) = push_bytes now xs d; (d, ev') = push_bytes now ys d in (d, ev @ ev'))"
  by (induction xs arbitrary: d) (auto simp: split_beta)

text \<open>A delimiter leaves the decoder idle.\<close>

lemma push_delimiter:
  assumes "stream_inv d"
  shows "stream_idle (fst (push_byte now 0 d))"
  using assms finish_segment_inv [of "d\<lparr>sd_last_byte_ms := now\<rparr>"]
  by (auto simp: push_byte_def Let_def stream_idle_def stream_inv_def)

text \<open>Bytes of a segment accumulate in the buffer.\<close>

lemma push_segment:
  assumes "stream_inv d" "\<not> sd_discarding d" "0 \<notin> set bs" "sd_pending_size d + length bs \<le> kMaxPendingEncoded"
  shows "\<exists>t. push_bytes now bs d = (d\<lparr>sd_pending := blit (sd_pending_size d) bs (sd_pending d),
    sd_pending_size := sd_pending_size d + length bs, sd_last_byte_ms := t\<rparr>, [])"
  using assms
proof (induction bs arbitrary: d)
  case Nil
  then show ?case by (intro exI [of _ "sd_last_byte_ms d"]) (simp add: stream_inv_def)
next
  case (Cons b bs)
  let ?d = "d\<lparr>sd_pending := (sd_pending d)[sd_pending_size d := b], sd_pending_size := sd_pending_size d + 1,
      sd_last_byte_ms := now\<rparr>"
  have step: "push_byte now b d = (?d, [])" using Cons.prems by (simp add: push_byte_def stream_inv_def)
  have "stream_inv ?d" using push_byte_inv [OF Cons.prems(1), of now b] step by simp
  with Cons obtain t where "push_bytes now bs ?d = (?d\<lparr>sd_pending := blit (sd_pending_size ?d) bs (sd_pending ?d),
    sd_pending_size := sd_pending_size ?d + length bs, sd_last_byte_ms := t\<rparr>, [])" by fastforce
  moreover have "blit (sd_pending_size d + 1) bs ((sd_pending d)[sd_pending_size d := b]) =
      blit (sd_pending_size d) (b # bs) (sd_pending d)"
    using blit_append [of "sd_pending_size d" "[b]" bs "sd_pending d"] Cons.prems
    by (simp add: blit_single stream_inv_def)
  ultimately show ?case by (intro exI [of _ t]) (simp add: step)
qed

lemma usb_wire_fits:
  "usb_valid f \<Longrightarrow> length (cobs_enc (usb_frame_bytes f) []) \<le> kMaxPendingEncoded"
proof -
  assume "usb_valid f"
  then have n: "length (usb_frame_bytes f) \<le> 4096" by (simp add: usb_valid_def)
  then have "length (usb_frame_bytes f) div 254 \<le> 4096 div 254" by (rule div_le_mono)
  with n cobs_enc_length [of "[]" "usb_frame_bytes f"] show ?thesis by simp
qed

lemma push_frame:
  assumes "stream_idle d" "usb_valid f"
  shows "\<exists>d'. push_bytes now (usb_wire f) d = (d', [On_frame f]) \<and> stream_idle d'"
proof -
  let ?enc = "cobs_enc (usb_frame_bytes f) []"
  have inv: "stream_inv d" "\<not> sd_discarding d" "sd_pending_size d = 0" using assms(1) by (auto simp: stream_idle_def)
  have fits: "length ?enc \<le> kMaxPendingEncoded" by (rule usb_wire_fits [OF assms(2)])
  from push_segment [OF inv(1,2), of ?enc now] cobs_enc_no_zero [of "[]"] fits inv(3)
  obtain t where seg: "push_bytes now ?enc d = (d\<lparr>sd_pending := blit 0 ?enc (sd_pending d),
    sd_pending_size := length ?enc, sd_last_byte_ms := t\<rparr>, [])" (is "_ = (?d, [])") by fastforce
  have inv': "stream_inv ?d" using push_bytes_inv [OF inv(1), of now ?enc] seg by simp
  have dec: "cobs_decode (Some 0) (length ?enc) (Some 0) kMaxDecodedFrame (sd_pending ?d) =
      (Inr (), length (usb_frame_bytes f), blit 0 (usb_frame_bytes f) (sd_pending ?d))"
    using inv' fits assms(2) inv(1) by (intro cobs_decode_enc) (auto simp: stream_inv_def usb_valid_def blit_def)
  have "length ?enc > 0" by simp
  have fin: "snd (push_byte now 0 ?d) = [On_frame f]"
    using inv(2) dec \<open>length ?enc > 0\<close> decode_frame_bytes [OF assms(2)]
    by (simp add: push_byte_def finish_segment_def blit_def)
  show ?thesis
    using push_delimiter [OF inv', of now] fin
    by (simp add: usb_wire_def push_bytes_append seg split_beta)
qed

text \<open>Any use of the decoder keeps the invariant.\<close>

datatype stream_op = Push ByteView MonotonicMs | Poll MonotonicMs | Reset

primrec stream_step :: "stream_op \<Rightarrow> StreamDecoder \<Rightarrow> StreamDecoder \<times> usb_event list" where
  "stream_step (Push input now) d = stream_push input now d"
| "stream_step (Poll now) d = stream_poll now d"
| "stream_step Reset d = (stream_reset d, [])"

primrec run_stream :: "stream_op list \<Rightarrow> StreamDecoder \<Rightarrow> StreamDecoder" where
  "run_stream [] d = d"
| "run_stream (opn # ops) d = run_stream ops (fst (stream_step opn d))"

lemma stream_step_inv: "stream_inv d \<Longrightarrow> stream_inv (fst (stream_step opn d))"
proof (cases opn)
  case (Push input now)
  then show "stream_inv d \<Longrightarrow> ?thesis" by (simp add: stream_push_def push_bytes_inv)
qed (auto simp: stream_poll_def stream_reset_def stream_inv_def)

lemma run_stream_inv: "stream_inv d \<Longrightarrow> stream_inv (run_stream ops d)"
  by (induction ops arbitrary: d) (simp_all add: stream_step_inv)

lemma stream_new_inv: "stream_inv StreamDecoder_new"
  by (simp add: stream_inv_def StreamDecoder_new_def)

lemma encode_frame_Inr:
  assumes "encode_frame kind flags session request (View body) (View scratch) (View out) = Inr (buf, n)"
  shows "length body \<le> kMaxBodySize \<and> take n buf =
    usb_wire \<lparr>uf_kind = kind, uf_flags = flags, uf_session = session, uf_request = request, uf_body = body\<rparr>"
proof -
  have sizes: "length body \<le> kMaxBodySize" "kHeaderSize + length body + kCrcSize \<le> length scratch"
    "encoded_frame_bound (kHeaderSize + length body + kCrcSize) \<le> length out"
    using assms by (auto simp: encode_frame_def Let_def not_le [symmetric] split: if_splits)
  from encode_frame_wire [OF this refl, of kind flags session request] assms sizes(1) show ?thesis by auto
qed

subsection \<open>Credit\<close>

datatype credit_op = Grant u64 u64 u64 | Consume u64

text \<open>The lengths charged so far, and the state.\<close>

primrec credit_step :: "credit_op \<Rightarrow> u64 list \<times> CumulativeCredit \<Rightarrow> u64 list \<times> CumulativeCredit" where
  "credit_step (Grant session frames bytes) s = (fst s, snd (credit_update session frames bytes (snd s)))"
| "credit_step (Consume n) s =
     (case credit_consume n (snd s) of (Inr _, c) \<Rightarrow> (n # fst s, c) | (Inl _, c) \<Rightarrow> (fst s, c))"

definition run_credit :: "u64 \<Rightarrow> credit_op list \<Rightarrow> u64 list \<times> CumulativeCredit" where
  "run_credit session ops = fold credit_step ops ([], credit_reset session)"

text \<open>The largest grant notified for the session.\<close>

definition granted_frames :: "u64 \<Rightarrow> credit_op list \<Rightarrow> nat" where
  "granted_frames session ops = fold (\<lambda>opn g. case opn of Grant s f b \<Rightarrow> if s = session then max g (unat f) else g | _ \<Rightarrow> g) ops 0"

definition granted_bytes :: "u64 \<Rightarrow> credit_op list \<Rightarrow> nat" where
  "granted_bytes session ops = fold (\<lambda>opn g. case opn of Grant s f b \<Rightarrow> if s = session then max g (unat b) else g | _ \<Rightarrow> g) ops 0"

lemma granted_snoc [simp]:
  "granted_frames session (ops @ [Grant s f b]) =
     (if s = session then max (granted_frames session ops) (unat f) else granted_frames session ops)"
  "granted_bytes session (ops @ [Grant s f b]) =
     (if s = session then max (granted_bytes session ops) (unat b) else granted_bytes session ops)"
  "granted_frames session (ops @ [Consume n]) = granted_frames session ops"
  "granted_bytes session (ops @ [Consume n]) = granted_bytes session ops"
  by (simp_all add: granted_frames_def granted_bytes_def)

lemma consume_iff:
  assumes "cc_consumed_bytes c \<le> cc_grant_bytes c"
  shows "fst (credit_consume n c) = Inr () \<longleftrightarrow>
    unat (cc_consumed_frames c) < unat (cc_grant_frames c) \<and>
    unat (cc_consumed_bytes c) + unat n \<le> unat (cc_grant_bytes c)"
  using assms by (auto simp: credit_consume_def not_less word_le_nat_alt word_less_nat_alt unat_sub)

lemma unat_add_within: "unat a + unat b \<le> unat g \<Longrightarrow> unat (a + b) = unat a + unat (b :: u64)" for g :: u64
  using unat_add_lem [of a b] unsigned_less [of g, where ?'a = nat] by simp

lemma credit_run:
  "let (charged, c) = run_credit session ops in
     cc_session c = session \<and> unat (cc_grant_frames c) = granted_frames session ops \<and>
     unat (cc_grant_bytes c) = granted_bytes session ops \<and>
     unat (cc_consumed_frames c) = length charged \<and> unat (cc_consumed_bytes c) = sum_list (map unat charged) \<and>
     length charged \<le> granted_frames session ops \<and> sum_list (map unat charged) \<le> granted_bytes session ops"
proof (induction ops rule: rev_induct)
  case Nil
  then show ?case by (simp add: run_credit_def credit_reset_def granted_frames_def granted_bytes_def)
next
  case (snoc opn ops)
  obtain charged c where run: "run_credit session ops = (charged, c)" by fastforce
  note IH = snoc.IH [unfolded run Let_def prod.case]
  have step: "run_credit session (ops @ [opn]) = credit_step opn (charged, c)"
    using run by (simp add: run_credit_def)
  show ?case
  proof (cases opn)
    case (Grant s f b)
    from IH show ?thesis unfolding Grant step [unfolded Grant]
      by (simp add: credit_update_def word_less_nat_alt max_def)
  next
    case (Consume n)
    have le: "cc_consumed_bytes c \<le> cc_grant_bytes c" using IH by (simp add: word_le_nat_alt)
    show ?thesis
    proof (cases "fst (credit_consume n c) = Inr ()")
      case True
      note within = iffD1 [OF consume_iff [OF le] True]
      have "credit_consume n c = (Inr (), c\<lparr>cc_consumed_frames := cc_consumed_frames c + 1,
          cc_consumed_bytes := cc_consumed_bytes c + n\<rparr>)"
        using True by (auto simp: credit_consume_def split: if_splits)
      moreover have "unat (cc_consumed_frames c + 1) = unat (cc_consumed_frames c) + 1"
        using unat_add_within [of "cc_consumed_frames c" 1 "cc_grant_frames c"] within by simp
      ultimately show ?thesis
        using IH within unat_add_within [of "cc_consumed_bytes c" n "cc_grant_bytes c"]
        unfolding Consume step [unfolded Consume] by simp
    next
      case False
      then have "\<exists>e. credit_consume n c = (Inl e, c)" by (auto simp: credit_consume_def split: if_splits)
      with IH show ?thesis unfolding Consume step [unfolded Consume] by auto
    qed
  qed
qed

subsection \<open>Properties\<close>

text \<open>C24: Consistent overhead byte stuffing is exact. The encoder never fails on an output of the
  documented bound, its output is free of zero bytes and at most one byte in 254 longer than
  the input plus one, and the decoder returns the input from it, wherever in memory the encoding
  and the output buffer lie as long as the output does not start inside the encoding after its
  first byte; decoding in place is the case \<open>outp = inp\<close>.\<close>

theorem cobs_roundtrip:
  assumes "length xs + length xs div 254 + 1 \<le> length out"
  shows "\<exists>enc. cobs_encode (View xs) (View out) = Inr (enc @ drop (length enc) out, length enc) \<and>
    0 \<notin> set enc \<and> length enc \<le> length xs + length xs div 254 + 1 \<and>
    (\<forall>mem inp outp cap. take (length enc) (drop inp mem) = enc \<longrightarrow> outp + cap \<le> length mem \<longrightarrow>
       length xs \<le> cap \<longrightarrow> outp \<le> inp \<or> inp + length enc \<le> outp \<longrightarrow>
       cobs_decode (Some inp) (length enc) (Some outp) cap mem = (Inr (), length xs, blit outp xs mem))"
proof (intro exI conjI allI impI)
  let ?enc = "cobs_enc xs []"
  show "cobs_encode (View xs) (View out) = Inr (?enc @ drop (length ?enc) out, length ?enc)"
    using assms by (rule cobs_encode_enc)
  show "0 \<notin> set ?enc" by (rule cobs_enc_no_zero) simp_all
  show "length ?enc \<le> length xs + length xs div 254 + 1" using cobs_enc_length [of "[]" xs] by simp
  fix mem inp outp cap
  assume "take (length ?enc) (drop inp mem) = ?enc" "outp + cap \<le> length mem" "length xs \<le> cap"
    and "outp \<le> inp \<or> inp + length ?enc \<le> outp"
  moreover from this(1) have "inp + length ?enc \<le> length mem"
    by (metis add.commute cobs_enc_not_Nil drop_all le_diff_conv2 length_drop nat_le_linear take_all_iff take_eq_Nil2 length_take min.absorb_iff2 diff_is_0_eq list.size(3) length_0_conv)
  ultimately show "cobs_decode (Some inp) (length ?enc) (Some outp) cap mem = (Inr (), length xs, blit outp xs mem)"
    by (intro cobs_decode_enc)
qed

theorem cobs_roundtrip_witness:
  "\<exists>enc. cobs_encode (View [0x11, 0x22, 0, 0x33]) (View (replicate 6 0xEE)) = Inr (enc @ drop (length enc) (replicate 6 0xEE), length enc)"
  using cobs_roundtrip [of "[0x11, 0x22, 0, 0x33]" "replicate 6 0xEE"] by auto

text \<open>C25: The frame decoder inverts the frame layout exactly: it returns a frame if and only if the
  bytes are the header, body and CRC of that frame, the kind is registered and the body fits.
  Hence no two byte strings decode to the same frame, and every valid frame is decoded.\<close>

theorem usb_decode_exact:
  "decode_frame (View bs) = Inr f \<longleftrightarrow> usb_valid f \<and> bs = usb_frame_bytes f"
  using decode_frame_Inr decode_frame_bytes by blast

text \<open>C26: Encoding in place is encoding through a scratch buffer: with the body at the front of a
  buffer that has room for header and CRC, both encoders leave the same output.\<close>

theorem usb_encoders_agree:
  assumes "kHeaderSize + length body + kCrcSize \<le> length scratch"
    and "kHeaderSize + length body + kCrcSize \<le> length (body @ room)"
    and "encoded_frame_bound (kHeaderSize + length body + kCrcSize) \<le> length out"
  shows "encode_frame_inplace kind flags session request (View (body @ room)) (length body) (View out) =
    encode_frame kind flags session request (View body) (View scratch) (View out)"
proof (cases "length body \<le> kMaxBodySize")
  case True
  with encode_frame_wire [OF True assms(1,3) refl] encode_frame_inplace_wire [OF True assms(2,3) refl]
  show ?thesis by simp
next
  case False
  then show ?thesis by (simp add: encode_frame_def encode_frame_inplace_def)
qed

theorem usb_encoders_agree_witness:
  "encode_frame_inplace 19 0 7 9 (View ([1, 2, 3] @ replicate 30 0)) (length [1, 2, 3 :: u8]) (View (replicate 40 0)) =
    encode_frame 19 0 7 9 (View [1, 2, 3]) (View (replicate 33 0)) (View (replicate 40 0))"
  using usb_encoders_agree [of "[1, 2, 3]" "replicate 33 0" "replicate 30 0" "replicate 40 0" 19 0 7 9]
  by (simp add: encoded_frame_bound_def)

text \<open>C27: The stream decoder resynchronises at the next delimiter. Whatever was pushed, polled or
  reset before, and whatever bytes precede the delimiter, a frame of a registered kind produced
  by the encoder is the last event the sink sees, and the decoder is idle afterwards.\<close>

theorem usb_stream_resync:
  assumes enc: "encode_frame kind flags session request (View body) (View scratch) (View out) = Inr (buf, n)"
    and "known_kind kind"
  shows "\<exists>d ev. stream_push (View (junk @ [0] @ take n buf)) now (run_stream ops StreamDecoder_new) =
    (d, ev @ [On_frame \<lparr>uf_kind = kind, uf_flags = flags, uf_session = session, uf_request = request, uf_body = body\<rparr>]) \<and>
    sd_pending_size d = 0 \<and> \<not> sd_discarding d"
proof -
  let ?f = "\<lparr>uf_kind = kind, uf_flags = flags, uf_session = session, uf_request = request, uf_body = body\<rparr>"
  let ?d = "run_stream ops StreamDecoder_new"
  obtain d1 ev1 where junk: "push_bytes now junk ?d = (d1, ev1)" by fastforce
  then have "stream_inv d1" using push_bytes_inv [OF run_stream_inv [OF stream_new_inv], of now junk ops] by simp
  moreover obtain d2 ev2 where zero: "push_byte now 0 d1 = (d2, ev2)" by fastforce
  ultimately have "stream_idle d2" using push_delimiter [of d1 now] by simp
  then obtain d3 where "push_bytes now (usb_wire ?f) d2 = (d3, [On_frame ?f])" "stream_idle d3"
    using push_frame [of d2 ?f now] encode_frame_Inr [OF enc] assms(2) by (auto simp: usb_valid_def)
  then show ?thesis
    using encode_frame_Inr [OF enc] junk zero
    by (intro exI [of _ d3] exI [of _ "ev1 @ ev2"]) (simp add: stream_push_def push_bytes_append stream_idle_def)
qed

theorem usb_stream_resync_witness:
  "\<exists>buf n d ev. encode_frame 1 0 7 9 (View [1, 2, 3]) (View (replicate 33 0)) (View (replicate 40 0)) = Inr (buf, n) \<and>
     stream_push (View ([0xFF, 0xFF] @ [0] @ take n buf)) 10 (run_stream [Poll 4] StreamDecoder_new) =
       (d, ev @ [On_frame \<lparr>uf_kind = 1, uf_flags = 0, uf_session = 7, uf_request = 9, uf_body = [1, 2, 3]\<rparr>])"
proof -
  obtain buf n where "encode_frame 1 0 7 9 (View [1, 2, 3]) (View (replicate 33 0)) (View (replicate 40 0)) = Inr (buf, n)"
    using encode_frame_wire [of "[1, 2, 3]" "replicate 33 0" "replicate 40 0" _ 1 0 7 9, OF _ _ _ refl]
    by (simp add: encoded_frame_bound_def)
  with usb_stream_resync [OF this, of "[0xFF, 0xFF]" 10 "[Poll 4]"] show ?thesis
    by (auto simp: known_kind_def)
qed

text \<open>C28: Credit is exact. Over any sequence of grant notices and charges in a session the frames
  and bytes charged never exceed the largest ceilings notified for the session, whatever stale,
  reordered or foreign notices arrive and without wrap-around, and the next charge is accepted
  precisely when it stays within both ceilings.\<close>

theorem credit_exact:
  "let (charged, c) = run_credit session ops in
     length charged \<le> granted_frames session ops \<and> sum_list (map unat charged) \<le> granted_bytes session ops \<and>
     (fst (credit_consume n c) = Inr () \<longleftrightarrow>
        length charged < granted_frames session ops \<and>
        sum_list (map unat charged) + unat n \<le> granted_bytes session ops)"
  using credit_run [of session ops] consume_iff [of "snd (run_credit session ops)" n]
  by (auto simp: split_beta Let_def word_le_nat_alt)

end
