(* ===== verification/Replay_Window.thy ===== *)
theory Replay_Window
  imports Wire_Frame
begin

text \<open>
  The 64-counter sliding window of the anti-replay code, as \<^verbatim>\<open>ReplayGuard::accept\<close> of
  \<^verbatim>\<open>src/replay.cpp\<close> and \<^verbatim>\<open>GroupReplayTable::accept\<close> of \<^verbatim>\<open>src/group_replay.cpp\<close> both keep it, and
  the whole of the group table. The locale \<open>sliding_window\<close> is what the two share: a counter is
  refused exactly when it counts as seen, and an accepted counter is seen from then on.
\<close>

subsection \<open>The window arithmetic\<close>

text \<open>\<^verbatim>\<open>ReplayGuard::accept\<close>: the new maximum and bitmap, or \<open>None\<close> for a replayed counter.\<close>

definition slide_window :: "bool \<Rightarrow> u64 \<Rightarrow> u64 \<Rightarrow> u64 \<Rightarrow> (u64 \<times> u64) option" where
  "slide_window live maximum bitmap counter =
     (if \<not> live then Some (counter, 1)
      else if maximum < counter
      then (let delta = counter - maximum
            in Some (counter, if 64 \<le> delta then 1 else push_bit (unat delta) bitmap OR 1))
      else (let delta = maximum - counter
            in if 64 \<le> delta \<or> bitmap AND push_bit (unat delta) 1 \<noteq> 0 then None
               else Some (maximum, bitmap OR push_bit (unat delta) 1)))"

text \<open>The same step in \<^verbatim>\<open>GroupReplayTable::accept\<close>.\<close>

definition group_slide :: "u64 \<Rightarrow> u64 \<Rightarrow> u64 \<Rightarrow> (u64 \<times> u64) option" where
  "group_slide maximum bitmap counter =
     (if maximum < counter
      then (let shift = counter - maximum;
                bitmap = (if 64 \<le> shift then 0 else push_bit (unat shift) bitmap)
            in Some (counter, bitmap OR 1))
      else (let distance = maximum - counter
            in if 64 \<le> distance \<or> drop_bit (unat distance) bitmap AND 1 \<noteq> 0 then None
               else Some (maximum, bitmap OR push_bit (unat distance) 1)))"

subsection \<open>The group table\<close>

record GroupReplayEntry =
  gre_network :: NetworkId
  gre_sender :: NodeId
  gre_group :: NodeId
  gre_epoch :: u32
  gre_maximum :: u64
  gre_bitmap :: u64
  gre_used :: bool

definition GroupReplayEntry_new :: GroupReplayEntry where
  "GroupReplayEntry_new = \<lparr>gre_network = 0, gre_sender = kInvalidNodeId, gre_group = kInvalidNodeId,
     gre_epoch = 0, gre_maximum = 0, gre_bitmap = 0, gre_used = False\<rparr>"

record GroupReplayTable =
  grt_entries :: "GroupReplayEntry list"
  grt_replays :: u32
  grt_stale_epochs :: u32
  grt_capacity_refusals :: u32

abbreviation kGroupReplayCapacity :: nat where "kGroupReplayCapacity \<equiv> 8"
abbreviation kMaxCryptoCounter :: u64 where "kMaxCryptoCounter \<equiv> 0xFFFFFFFFFFFF"

definition GroupReplayTable_new :: GroupReplayTable where
  "GroupReplayTable_new = \<lparr>grt_entries = replicate kGroupReplayCapacity GroupReplayEntry_new,
     grt_replays = 0, grt_stale_epochs = 0, grt_capacity_refusals = 0\<rparr>"

text \<open>The scan stops at the first match and remembers the first unused entry it passed.\<close>

fun group_scan ::
  "SecurityContext \<Rightarrow> GroupReplayEntry list \<Rightarrow> nat \<Rightarrow> nat option \<Rightarrow> nat option \<times> nat option" where
  "group_scan context [] i free = (None, free)"
| "group_scan context (candidate # rest) i free =
     (if \<not> gre_used candidate
      then group_scan context rest (i + 1) (if free = None then Some i else free)
      else if gre_network candidate = sc_network context \<and> gre_sender candidate = sc_sender context \<and>
              gre_group candidate = sc_receiver context
      then (Some i, free)
      else group_scan context rest (i + 1) free)"

definition group_accept :: "SecurityContext \<Rightarrow> u64 \<Rightarrow> (GroupReplayTable, unit) prog" where
  "group_accept context counter t =
     (if sc_scope context \<noteq> Scope_Group \<or> kMaxCryptoCounter < counter
      then (Inl (Error InvalidArgument ''not a group replay context''), t)
      else case group_scan context (grt_entries t) 0 None of
        (None, None) \<Rightarrow>
          (Inl (Error NoCapacity ''GROUP_REPLAY_TABLE_FULL''),
           t\<lparr>grt_capacity_refusals := grt_capacity_refusals t + 1\<rparr>)
      | (None, Some free_slot) \<Rightarrow>
          (Inr (), t\<lparr>grt_entries := (grt_entries t)[free_slot :=
             \<lparr>gre_network = sc_network context, gre_sender = sc_sender context, gre_group = sc_receiver context,
              gre_epoch = sc_epoch context, gre_maximum = counter, gre_bitmap = 1, gre_used = True\<rparr>]\<rparr>)
      | (Some i, _) \<Rightarrow>
          let entry = grt_entries t ! i
          in if sc_epoch context < gre_epoch entry
             then (Inl (Error ReplayRejected ''GROUP_EPOCH_STALE''),
                   t\<lparr>grt_stale_epochs := grt_stale_epochs t + 1\<rparr>)
             else if gre_epoch entry < sc_epoch context
             then (Inr (), t\<lparr>grt_entries := (grt_entries t)[i :=
                     entry\<lparr>gre_epoch := sc_epoch context, gre_maximum := counter, gre_bitmap := 1\<rparr>]\<rparr>)
             else case group_slide (gre_maximum entry) (gre_bitmap entry) counter of
                    None \<Rightarrow> (Inl (Error ReplayRejected ''GROUP_REPLAY''), t\<lparr>grt_replays := grt_replays t + 1\<rparr>)
                  | Some (maximum, bitmap) \<Rightarrow>
                      (Inr (), t\<lparr>grt_entries := (grt_entries t)[i :=
                         entry\<lparr>gre_maximum := maximum, gre_bitmap := bitmap\<rparr>]\<rparr>))"

definition group_replay_size :: "GroupReplayTable \<Rightarrow> nat" where
  "group_replay_size t = fold (\<lambda>entry count. count + (if gre_used entry then 1 else 0)) (grt_entries t) 0"

definition group_replay_clear :: "GroupReplayTable \<Rightarrow> GroupReplayTable" where
  "group_replay_clear t = t\<lparr>grt_entries := map (\<lambda>_. GroupReplayEntry_new) (grt_entries t)\<rparr>"

subsection \<open>What a window has seen\<close>

text \<open>Everything more than 63 below the maximum counts as seen.\<close>

definition seen :: "u64 \<Rightarrow> u64 \<Rightarrow> u64 \<Rightarrow> bool" where
  "seen maximum bitmap c \<longleftrightarrow> c \<le> maximum \<and> (64 \<le> maximum - c \<or> bit bitmap (unat (maximum - c)))"

lemma seen_first: "seen c 1 d \<longleftrightarrow> d = c \<or> d \<le> c \<and> 64 \<le> c - d"
  by (auto simp: seen_def bit_1_iff unat_eq_zero)

lemma and_bit_eq: "(b :: u64) AND 2 ^ n = 0 \<longleftrightarrow> \<not> bit b n"
  by (simp add: bit_iff_and_push_bit_not_eq_0)

lemma drop_bit_odd: "drop_bit n (b :: u64) AND 1 \<noteq> 0 \<longleftrightarrow> bit b n"
  by (simp add: and_one_eq bit_iff_odd_drop_bit odd_iff_mod_2_eq_one)

lemma seen_nat:
  "seen maximum bitmap c \<longleftrightarrow>
     unat c \<le> unat maximum \<and> (64 \<le> unat maximum - unat c \<or> bit bitmap (unat maximum - unat c))"
  by (auto simp: seen_def word_le_nat_alt unat_sub)

lemma bit_u64_bound: "bit (b :: u64) n \<Longrightarrow> n < 64"
  using bit_imp_le_length [of b n] by simp

lemma seen_advance:
  assumes "maximum < c"
  shows "seen c (if 64 \<le> c - maximum then 1 else push_bit (unat (c - maximum)) bitmap OR 1) d \<longleftrightarrow>
    d = c \<or> seen maximum bitmap d \<or> d \<le> c \<and> 64 \<le> c - d"
proof -
  have lt: "unat maximum < unat c" and delta: "unat (c - maximum) = unat c - unat maximum"
    using assms by (auto simp: word_less_nat_alt unat_sub word_le_nat_alt)
  have far: "d \<le> c \<and> 64 \<le> c - d \<longleftrightarrow> unat d \<le> unat c \<and> 64 \<le> unat c - unat d"
    by (auto simp: word_le_nat_alt unat_sub)
  have eq: "d = c \<longleftrightarrow> unat d = unat c" by (simp add: word_unat_eq_iff)
  show ?thesis
  proof (cases "64 \<le> unat c - unat maximum")
    case True
    then have "64 \<le> c - maximum" by (simp add: word_le_nat_alt delta)
    then show ?thesis using True lt bit_u64_bound [of bitmap "unat maximum - unat d"]
      unfolding seen_nat eq far by (auto simp: bit_1_iff)
  next
    case False
    then have "\<not> 64 \<le> c - maximum" by (simp add: word_le_nat_alt delta)
    moreover have "unat c - unat d - (unat c - unat maximum) = unat maximum - unat d"
      if "unat d \<le> unat maximum" using that lt by simp
    ultimately show ?thesis using lt bit_u64_bound [of bitmap "unat maximum - unat d"]
      unfolding seen_nat eq far
      by (cases "unat d \<le> unat maximum") (auto simp: bit_or_iff bit_push_bit_iff bit_1_iff delta)
  qed
qed

lemma seen_mark:
  assumes "c \<le> maximum" "\<not> 64 \<le> maximum - c"
  shows "seen maximum (bitmap OR push_bit (unat (maximum - c)) 1) d \<longleftrightarrow> d = c \<or> seen maximum bitmap d"
proof -
  have "unat c \<le> unat maximum" "unat (maximum - c) = unat maximum - unat c" "unat maximum - unat c < 64"
    using assms by (auto simp: word_le_nat_alt unat_sub)
  moreover have "d = c \<longleftrightarrow> unat d = unat c" by (simp add: word_unat_eq_iff)
  ultimately show ?thesis
    unfolding seen_nat by (auto simp: bit_or_iff bit_exp_iff)
qed

subsection \<open>The contract of a window\<close>

locale sliding_window =
  fixes slide :: "'w \<Rightarrow> u64 \<Rightarrow> 'w option"
    and seen_by :: "'w \<Rightarrow> u64 \<Rightarrow> bool"
  assumes refused: "slide w c = None \<longleftrightarrow> seen_by w c"
    and accepted: "slide w c = Some w' \<Longrightarrow> seen_by w' c"
    and kept: "slide w c = Some w' \<Longrightarrow> seen_by w d \<Longrightarrow> seen_by w' d"
begin

lemma unseen: "slide w c = Some w' \<Longrightarrow> \<not> seen_by w c"
  using refused [of w c] by simp

lemma once: "slide w c = Some w' \<Longrightarrow> slide w' c = None"
  using refused [of w' c] accepted [of w c w'] by simp

end

interpretation guard_window: sliding_window
  "\<lambda>(live, maximum, bitmap) c. map_option (\<lambda>(maximum, bitmap). (True, maximum, bitmap)) (slide_window live maximum bitmap c)"
  "\<lambda>(live, maximum, bitmap) c. live \<and> seen maximum bitmap c"
proof (unfold_locales, goal_cases)
  case (1 w c)
  show ?case by (cases w) (auto simp: slide_window_def and_bit_eq seen_def Let_def)
next
  case (2 w c w')
  then show ?case
    using seen_advance [of "fst (snd w)" c "snd (snd w)"] seen_mark [of c "fst (snd w)" "snd (snd w)"]
    by (cases w) (auto simp: slide_window_def and_bit_eq Let_def seen_first split: if_splits)
next
  case (3 w c w' d)
  then show ?case
    using seen_advance [of "fst (snd w)" c "snd (snd w)"] seen_mark [of c "fst (snd w)" "snd (snd w)"]
    by (cases w) (auto simp: slide_window_def and_bit_eq Let_def seen_first split: if_splits)
qed

interpretation group_window: sliding_window
  "\<lambda>(maximum, bitmap). group_slide maximum bitmap" "\<lambda>(maximum, bitmap). seen maximum bitmap"
proof (unfold_locales, goal_cases)
  case (1 w c)
  show ?case by (cases w) (auto simp: group_slide_def drop_bit_odd seen_def Let_def)
next
  case (2 w c w')
  then show ?case
    using seen_advance [of "fst w" c "snd w"] seen_mark [of c "fst w" "snd w"]
    by (cases w) (auto simp: group_slide_def drop_bit_odd Let_def seen_first split: if_splits)
next
  case (3 w c w' d)
  then show ?case
    using seen_advance [of "fst w" c "snd w"] seen_mark [of c "fst w" "snd w"]
    by (cases w) (auto simp: group_slide_def drop_bit_odd Let_def seen_first split: if_splits)
qed

subsection \<open>The group table accepts once\<close>

text \<open>What the scan finds.\<close>

definition keyed :: "SecurityContext \<Rightarrow> GroupReplayEntry \<Rightarrow> bool" where
  "keyed context e \<longleftrightarrow> gre_used e \<and> gre_network e = sc_network context \<and> gre_sender e = sc_sender context \<and>
     gre_group e = sc_receiver context"

lemma group_scan_Some:
  "group_scan context es i free = (Some k, f) \<Longrightarrow>
   i \<le> k \<and> k < i + length es \<and> keyed context (es ! (k - i)) \<and> (\<forall>j<k - i. \<not> keyed context (es ! j))"
proof (induction es arbitrary: i free)
  case (Cons e es)
  show ?case
  proof (cases "keyed context e")
    case True
    with Cons.prems show ?thesis by (auto simp: keyed_def)
  next
    case False
    with Cons.prems obtain free' where "group_scan context es (i + 1) free' = (Some k, f)"
      by (auto simp: keyed_def split: if_splits)
    from Cons.IH [OF this] False show ?thesis
      by (auto simp: nth_Cons' less_diff_conv Suc_le_eq)
  qed
qed simp

lemma group_scan_None:
  "group_scan context es i free = (None, f) \<Longrightarrow>
   (\<forall>e\<in>set es. \<not> keyed context e) \<and>
   (\<forall>k. f = Some k \<longrightarrow> free = Some k \<or> i \<le> k \<and> k < i + length es \<and> \<not> gre_used (es ! (k - i)))"
proof (induction es arbitrary: i free)
  case (Cons e es)
  then have not: "\<not> keyed context e" by (auto simp: keyed_def split: if_splits)
  with Cons.prems have "group_scan context es (i + 1)
      (if \<not> gre_used e \<and> free = None then Some i else free) = (None, f)"
    by (auto simp: keyed_def split: if_splits)
  from Cons.IH [OF this] not show ?case
    by (auto simp: nth_Cons' Suc_le_eq split: if_splits)
qed simp

text \<open>Every accepted counter is covered by the entry of its sender.\<close>

type_synonym group_frame = "NetworkId \<times> NodeId \<times> NodeId \<times> u32 \<times> u64"

definition group_frame :: "SecurityContext \<Rightarrow> u64 \<Rightarrow> group_frame" where
  "group_frame context c = (sc_network context, sc_sender context, sc_receiver context, sc_epoch context, c)"

definition covers :: "GroupReplayEntry \<Rightarrow> group_frame \<Rightarrow> bool" where
  "covers e x = (case x of (network, sender, receiver, epoch, c) \<Rightarrow>
     gre_used e \<and> gre_network e = network \<and> gre_sender e = sender \<and> gre_group e = receiver \<and>
     (epoch < gre_epoch e \<or> epoch = gre_epoch e \<and> seen (gre_maximum e) (gre_bitmap e) c))"

definition group_inv :: "GroupReplayEntry list \<Rightarrow> group_frame set \<Rightarrow> bool" where
  "group_inv es L \<longleftrightarrow>
     (\<forall>j<length es. \<forall>k<length es. gre_used (es ! j) \<longrightarrow> gre_used (es ! k) \<longrightarrow>
        gre_network (es ! j) = gre_network (es ! k) \<longrightarrow> gre_sender (es ! j) = gre_sender (es ! k) \<longrightarrow>
        gre_group (es ! j) = gre_group (es ! k) \<longrightarrow> j = k) \<and>
     (\<forall>x\<in>L. \<exists>k<length es. covers (es ! k) x)"

lemma covers_keyed: "covers e (group_frame context c) \<Longrightarrow> keyed context e"
  by (simp add: covers_def group_frame_def keyed_def)

lemma group_inv_unique:
  assumes "group_inv es L" "j < length es" "k < length es" "keyed context (es ! j)" "keyed context (es ! k)"
  shows "j = k"
  using assms by (auto simp: group_inv_def keyed_def)

text \<open>Replacing an entry by one of the same sender that covers at least as much, and the new frame.\<close>

lemma group_inv_update:
  assumes inv: "group_inv es L" and k: "k < length es" and key: "keyed context (es ! k)" "keyed context e"
    and mono: "\<And>x. covers (es ! k) x \<Longrightarrow> covers e x" and new: "covers e (group_frame context c)"
    and fresh: "\<not> covers (es ! k) (group_frame context c)"
  shows "group_inv (es[k := e]) (insert (group_frame context c) L) \<and> group_frame context c \<notin> L"
proof
  have "\<exists>j<length es. covers (es[k := e] ! j) x" if x: "x \<in> insert (group_frame context c) L" for x
  proof (cases "x \<in> L")
    case True
    with inv obtain j where "j < length es" "covers (es ! j) x" by (auto simp: group_inv_def)
    with mono show ?thesis by (intro exI [of _ j]) (cases "j = k"; simp)
  next
    case False
    with x k new show ?thesis by (intro exI [of _ k]) auto
  qed
  moreover have "gre_used (es[k := e] ! j) = gre_used (es ! j) \<and> gre_network (es[k := e] ! j) = gre_network (es ! j) \<and>
      gre_sender (es[k := e] ! j) = gre_sender (es ! j) \<and> gre_group (es[k := e] ! j) = gre_group (es ! j)"
    if "j < length es" for j using that key by (cases "j = k") (auto simp: keyed_def)
  ultimately show "group_inv (es[k := e]) (insert (group_frame context c) L)"
    using inv by (simp add: group_inv_def)
  show "group_frame context c \<notin> L"
  proof
    assume "group_frame context c \<in> L"
    with inv obtain j where j: "j < length es" "covers (es ! j) (group_frame context c)" by (auto simp: group_inv_def)
    with group_inv_unique [OF inv j(1) k covers_keyed key(1)] fresh show False by auto
  qed
qed

lemma group_inv_insert:
  assumes inv: "group_inv es L" and k: "k < length es" "\<not> gre_used (es ! k)" and none: "\<forall>e\<in>set es. \<not> keyed context e"
    and e: "covers e (group_frame context c)"
  shows "group_inv (es[k := e]) (insert (group_frame context c) L) \<and> group_frame context c \<notin> L"
proof
  have cov: "\<exists>j<length es. covers (es[k := e] ! j) x" if x: "x \<in> insert (group_frame context c) L" for x
  proof (cases "x \<in> L")
    case True
    with inv obtain j where "j < length es" "covers (es ! j) x" by (auto simp: group_inv_def)
    moreover from this k(2) have "j \<noteq> k" by (auto simp: covers_def)
    ultimately show ?thesis by (intro exI [of _ j]) auto
  next
    case False
    with x k e show ?thesis by (intro exI [of _ k]) auto
  qed
  have key: "keyed context e" by (rule covers_keyed [OF e])
  have clash: False if "j < length es" "gre_used (es ! j)" "gre_network (es ! j) = gre_network e"
    "gre_sender (es ! j) = gre_sender e" "gre_group (es ! j) = gre_group e" for j
    using none key that by (auto simp: keyed_def)
  have "i = j" if "i < length es" "j < length es" "gre_used (es[k := e] ! i)" "gre_used (es[k := e] ! j)"
    "gre_network (es[k := e] ! i) = gre_network (es[k := e] ! j)" "gre_sender (es[k := e] ! i) = gre_sender (es[k := e] ! j)"
    "gre_group (es[k := e] ! i) = gre_group (es[k := e] ! j)" for i j
    using that clash [of i] clash [of j] inv by (cases "i = k"; cases "j = k") (simp_all add: group_inv_def)
  then show "group_inv (es[k := e]) (insert (group_frame context c) L)"
    using cov by (simp add: group_inv_def)
  show "group_frame context c \<notin> L"
  proof
    assume "group_frame context c \<in> L"
    with inv obtain j where "j < length es" "covers (es ! j) (group_frame context c)" by (auto simp: group_inv_def)
    with covers_keyed [of "es ! j" "context" c] none show False by simp
  qed
qed

lemma group_accept_step:
  assumes "group_inv (grt_entries t) L" "group_accept context c t = (r, t')"
  shows "case r of Inl _ \<Rightarrow> group_inv (grt_entries t') L
    | Inr _ \<Rightarrow> group_inv (grt_entries t') (insert (group_frame context c) L) \<and> group_frame context c \<notin> L"
proof (cases "sc_scope context \<noteq> Scope_Group \<or> kMaxCryptoCounter < c")
  case True
  with assms show ?thesis by (auto simp: group_accept_def)
next
  case False
  obtain mo f where scan: "group_scan context (grt_entries t) 0 None = (mo, f)" by fastforce
  note accept = assms(2) [unfolded group_accept_def if_not_P [OF False] scan]
  show ?thesis
  proof (cases mo)
    case None
    note none = group_scan_None [OF scan [unfolded None]]
    show ?thesis
    proof (cases f)
      case None
      with accept \<open>mo = None\<close> assms(1) show ?thesis by auto
    next
      case (Some k)
      let ?e = "\<lparr>gre_network = sc_network context, gre_sender = sc_sender context, gre_group = sc_receiver context,
        gre_epoch = sc_epoch context, gre_maximum = c, gre_bitmap = 1, gre_used = True\<rparr>"
      have "covers ?e (group_frame context c)" by (simp add: covers_def group_frame_def seen_first)
      with group_inv_insert [OF assms(1), of k "context" ?e c] none Some accept \<open>mo = None\<close>
      show ?thesis by auto
    qed
  next
    case (Some k)
    from group_scan_Some [OF scan [unfolded Some]]
    have k: "k < length (grt_entries t)" "keyed context (grt_entries t ! k)" by auto
    let ?e = "grt_entries t ! k"
    consider "sc_epoch context < gre_epoch ?e" | "gre_epoch ?e < sc_epoch context" | "sc_epoch context = gre_epoch ?e"
      by (rule linorder_cases)
    then show ?thesis
    proof cases
      case 1
      with accept Some assms(1) show ?thesis by (auto simp: Let_def)
    next
      case 2
      then have less: "\<not> sc_epoch context < gre_epoch ?e" by simp
      let ?e' = "?e\<lparr>gre_epoch := sc_epoch context, gre_maximum := c, gre_bitmap := 1\<rparr>"
      have "covers ?e x \<Longrightarrow> covers ?e' x" for x using 2 by (auto simp: covers_def)
      moreover have "covers ?e' (group_frame context c)" "\<not> covers ?e (group_frame context c)"
        using k 2 by (auto simp: covers_def group_frame_def keyed_def seen_first)
      ultimately show ?thesis
        using group_inv_update [OF assms(1) k, of ?e' c] accept Some 2 k(2) less
        by (auto simp: keyed_def Let_def)
    next
      case 3
      show ?thesis
      proof (cases "group_slide (gre_maximum ?e) (gre_bitmap ?e) c")
        case None
        with accept Some 3 assms(1) show ?thesis by (auto simp: Let_def)
      next
        case slide: (Some w)
        let ?e' = "?e\<lparr>gre_maximum := fst w, gre_bitmap := snd w\<rparr>"
        note window = group_window.kept [of "(gre_maximum ?e, gre_bitmap ?e)" c w]
          group_window.accepted [of "(gre_maximum ?e, gre_bitmap ?e)" c w]
          group_window.unseen [of "(gre_maximum ?e, gre_bitmap ?e)" c w]
        have "covers ?e x \<Longrightarrow> covers ?e' x" for x using slide window(1) by (auto simp: covers_def split_beta)
        moreover have "covers ?e' (group_frame context c)" "\<not> covers ?e (group_frame context c)"
          using k 3 slide window by (auto simp: covers_def group_frame_def keyed_def split_beta)
        ultimately show ?thesis
          using group_inv_update [OF assms(1) k, of ?e' c] accept Some 3 slide k(2)
          by (auto simp: keyed_def Let_def split_beta)
      qed
    qed
  qed
qed

text \<open>The frames accepted by a sequence of calls, latest first.\<close>

primrec run_group :: "(SecurityContext \<times> u64) list \<Rightarrow> GroupReplayTable \<Rightarrow> group_frame list \<times> GroupReplayTable" where
  "run_group [] t = ([], t)"
| "run_group (x # xs) t =
     (let (log, t) = run_group xs t; (r, t) = group_accept (fst x) (snd x) t
      in (case r of Inr _ \<Rightarrow> group_frame (fst x) (snd x) # log | Inl _ \<Rightarrow> log, t))"

lemma run_group_inv:
  assumes "run_group xs GroupReplayTable_new = (log, t)"
  shows "distinct log \<and> group_inv (grt_entries t) (set log)"
  using assms
proof (induction xs arbitrary: log t)
  case Nil
  then show ?case by (auto simp: group_inv_def GroupReplayTable_new_def GroupReplayEntry_new_def)
next
  case (Cons x xs)
  obtain l u where run: "run_group xs GroupReplayTable_new = (l, u)" by fastforce
  obtain r v where acc: "group_accept (fst x) (snd x) u = (r, v)" by fastforce
  from Cons.IH [OF run] group_accept_step [OF _ acc, of "set l"] Cons.prems run acc
  show ?case by (auto split: sum.splits)
qed

subsection \<open>Properties\<close>

text \<open>C29: The group replay table accepts a frame at most once. Over any sequence of calls, with
  senders appearing, advancing their epoch and arriving out of order, and whatever the
  table refuses for lack of room, no pair of epoch and counter is accepted twice from the same
  network, sender and receiver address. The calls are listed latest first.\<close>

theorem group_accept_once:
  "distinct (fst (run_group calls GroupReplayTable_new))"
  using run_group_inv [of calls "fst (run_group calls GroupReplayTable_new)" "snd (run_group calls GroupReplayTable_new)"]
  by simp

end
