(* ===== verification/Replay_Guard.thy ===== *)
theory Replay_Guard
  imports Replay_Window
begin

text \<open>
  The persisted anti-replay state of \<^verbatim>\<open>src/replay.cpp\<close> and \<^verbatim>\<open>include/routeloom/replay.hpp\<close>: epoch
  floors, accepted ceilings and the RAM windows above them. The abstract class \<^verbatim>\<open>ReplayStore\<close> is
  a record of its virtual functions over a store state of any type. A record is hashed as its
  memory image, little-endian as on every supported target.
\<close>

subsection \<open>Records and fingerprints\<close>

record ReplayWindowRecord =
  rw_context_fingerprint :: u64
  rw_accepted_ceiling :: u64
  rw_legacy_bitmap :: u64
  rw_generation :: u32
  rw_initialized :: u8
  rw_layout :: u8
  rw_reserved :: bytes
  rw_crc :: u32

record ReplayFloorRecord =
  rf_peer_fingerprint :: u64
  rf_generation :: u32
  rf_minimum_epoch :: u32
  rf_initialized :: u8
  rf_layout :: u8
  rf_reserved :: bytes
  rf_crc :: u32

definition ReplayWindowRecord_new :: ReplayWindowRecord where
  "ReplayWindowRecord_new = \<lparr>rw_context_fingerprint = 0, rw_accepted_ceiling = 0, rw_legacy_bitmap = 0,
     rw_generation = 0, rw_initialized = 0, rw_layout = 0, rw_reserved = replicate 6 0, rw_crc = 0\<rparr>"

definition ReplayFloorRecord_new :: ReplayFloorRecord where
  "ReplayFloorRecord_new = \<lparr>rf_peer_fingerprint = 0, rf_generation = 0, rf_minimum_epoch = 0,
     rf_initialized = 0, rf_layout = 0, rf_reserved = replicate 2 0, rf_crc = 0\<rparr>"

abbreviation kReplayRecordLayout :: u8 where "kReplayRecordLayout \<equiv> 2"

definition put_le :: "nat \<Rightarrow> 'a::len word \<Rightarrow> bytes" where
  "put_le n v = rev (put_be n v)"

definition window_crc :: "ReplayWindowRecord \<Rightarrow> u32" where
  "window_crc r = crc32_iso_hdlc (put_le 8 (rw_context_fingerprint r) @ put_le 8 (rw_accepted_ceiling r) @
     put_le 8 (rw_legacy_bitmap r) @ put_le 4 (rw_generation r) @ [rw_initialized r, rw_layout r] @ rw_reserved r)"

definition floor_crc :: "ReplayFloorRecord \<Rightarrow> u32" where
  "floor_crc r = crc32_iso_hdlc (put_le 8 (rf_peer_fingerprint r) @ put_le 4 (rf_generation r) @
     put_le 4 (rf_minimum_epoch r) @ [rf_initialized r, rf_layout r] @ rf_reserved r)"

abbreviation kFnvOffset :: u64 where "kFnvOffset \<equiv> 1469598103934665603"
abbreviation kFnvPrime :: u64 where "kFnvPrime \<equiv> 1099511628211"

definition fnv_add :: "u64 \<Rightarrow> u64 \<Rightarrow> u64" where
  "fnv_add hash value =
     fold (\<lambda>shift hash. (hash XOR ucast (ucast (drop_bit shift value) :: u8)) * kFnvPrime)
       [0, 8, 16, 24, 32, 40, 48, 56] hash"

primrec scope_value :: "SecurityScope \<Rightarrow> u64" where
  "scope_value Scope_Link = 0"
| "scope_value Scope_EndToEnd = 1"
| "scope_value Scope_Group = 2"
| "scope_value Scope_GroupLink = 3"

definition replay_context_fingerprint :: "SecurityContext \<Rightarrow> u64" where
  "replay_context_fingerprint context =
     fold (\<lambda>v hash. fnv_add hash v) [scope_value (sc_scope context), sc_network context, sc_sender context,
       sc_receiver context, ucast (sc_epoch context)] kFnvOffset"

definition replay_peer_fingerprint :: "SecurityContext \<Rightarrow> u64" where
  "replay_peer_fingerprint context =
     fold (\<lambda>v hash. fnv_add hash v) [scope_value (sc_scope context), sc_network context, sc_sender context,
       sc_receiver context, 0x524c50454c4f4f52] kFnvOffset"

definition fold_fingerprint :: "u64 \<Rightarrow> u32" where
  "fold_fingerprint fingerprint = ucast (fingerprint XOR drop_bit 32 fingerprint)"

definition window_slot :: "SecurityContext \<Rightarrow> u32" where
  "window_slot context = fold_fingerprint (replay_context_fingerprint context)"

definition floor_slot :: "SecurityContext \<Rightarrow> u32" where
  "floor_slot context = fold_fingerprint (replay_peer_fingerprint context)"

subsection \<open>Store, guard and windows\<close>

record 's ReplayStore =
  rs_load_window :: "u32 \<Rightarrow> ('s, ReplayWindowRecord option) prog"
  rs_commit_window :: "u32 \<Rightarrow> ReplayWindowRecord \<Rightarrow> ('s, unit) prog"
  rs_load_floor :: "u32 \<Rightarrow> ('s, ReplayFloorRecord option) prog"
  rs_commit_floor :: "u32 \<Rightarrow> ReplayFloorRecord \<Rightarrow> ('s, unit) prog"

record 's ReplayGuard =
  rg_store :: 's
  rg_reservation_ahead :: u32
  rg_foreign_rejects :: u32

record ReplayWindow =
  wd_record :: ReplayWindowRecord
  wd_maximum :: u64
  wd_bitmap :: u64
  wd_live :: bool
  wd_slot :: u32
  wd_epoch :: u32
  wd_open :: bool
  wd_peer :: u64

definition ReplayWindow_new :: ReplayWindow where
  "ReplayWindow_new = \<lparr>wd_record = ReplayWindowRecord_new, wd_maximum = 0, wd_bitmap = 0, wd_live = False,
     wd_slot = 0, wd_epoch = 0, wd_open = False, wd_peer = 0\<rparr>"

text \<open>A call on the store the guard refers to, and a rejection that is counted.\<close>

definition on_store :: "('s, 'a) prog \<Rightarrow> ('s ReplayGuard, 'a) prog" where
  "on_store m g = (let (r, s) = m (rg_store g) in (r, g\<lparr>rg_store := s\<rparr>))"

definition reject_foreign :: "status \<Rightarrow> ('s ReplayGuard, 'a) prog" where
  "reject_foreign e g = (Inl e, g\<lparr>rg_foreign_rejects := rg_foreign_rejects g + 1\<rparr>)"

subsection \<open>The epoch floor\<close>

definition floor_state :: "'s ReplayStore \<Rightarrow> SecurityContext \<Rightarrow> ('s ReplayGuard, ReplayFloorRecord option) prog" where
  "floor_state st context =
     seq (on_store (rs_load_floor st (floor_slot context))) (\<lambda>found. case found of
       None \<Rightarrow> ret None
     | Some floor \<Rightarrow>
         if rf_crc floor = floor_crc floor \<and> rf_initialized floor \<noteq> 0 \<and> rf_layout floor = kReplayRecordLayout \<and>
            rf_peer_fingerprint floor \<noteq> replay_peer_fingerprint context
         then reject_foreign (Error IntegrityError ''replay floor foreign fingerprint'')
         else if rf_crc floor \<noteq> floor_crc floor \<or> rf_initialized floor = 0 \<or> rf_layout floor \<noteq> kReplayRecordLayout \<or>
            rf_peer_fingerprint floor \<noteq> replay_peer_fingerprint context
         then stop (Error IntegrityError ''replay epoch floor corrupt'')
         else ret (Some floor))"

definition raised_floor :: "SecurityContext \<Rightarrow> ReplayFloorRecord option \<Rightarrow> ReplayFloorRecord" where
  "raised_floor context floor =
     (let rec = ReplayFloorRecord_new\<lparr>rf_peer_fingerprint := replay_peer_fingerprint context,
            rf_minimum_epoch := sc_epoch context, rf_initialized := 1, rf_layout := kReplayRecordLayout,
            rf_generation := (case floor of Some f \<Rightarrow> rf_generation f + 1 | None \<Rightarrow> 1)\<rparr>
      in rec\<lparr>rf_crc := floor_crc rec\<rparr>)"

definition ratchet_floor ::
  "'s ReplayStore \<Rightarrow> SecurityContext \<Rightarrow> ReplayFloorRecord option \<Rightarrow> ('s ReplayGuard, unit) prog" where
  "ratchet_floor st context floor =
     (if (case floor of Some f \<Rightarrow> sc_epoch context \<le> rf_minimum_epoch f | None \<Rightarrow> False) then ret ()
      else on_store (rs_commit_floor st (floor_slot context) (raised_floor context floor)))"

definition stale_epoch :: "SecurityContext \<Rightarrow> ReplayFloorRecord option \<Rightarrow> bool" where
  "stale_epoch context floor = (case floor of Some f \<Rightarrow> sc_epoch context < rf_minimum_epoch f | None \<Rightarrow> False)"

definition check_floor :: "'s ReplayStore \<Rightarrow> SecurityContext \<Rightarrow> ('s ReplayGuard, unit) prog" where
  "check_floor st context =
     seq (floor_state st context) (\<lambda>floor.
     stop_if (stale_epoch context floor) (Error ReplayRejected ''REPLAY_EPOCH_STALE'')
     (ratchet_floor st context floor))"

subsection \<open>Opening a context\<close>

text \<open>The record the new window starts from, given the persisted one and the floor.\<close>

definition fresh_record :: "SecurityContext \<Rightarrow> ReplayWindowRecord" where
  "fresh_record context = ReplayWindowRecord_new\<lparr>rw_context_fingerprint := replay_context_fingerprint context\<rparr>"

definition adopt_record ::
  "SecurityContext \<Rightarrow> ReplayFloorRecord option \<Rightarrow> ReplayWindowRecord option \<Rightarrow> ('s ReplayGuard, ReplayWindowRecord) prog" where
  "adopt_record context floor found =
     (case found of
        Some rec \<Rightarrow>
          if rw_crc rec \<noteq> window_crc rec \<or> rw_initialized rec = 0 \<or>
             (rw_layout rec \<noteq> 0 \<and> rw_layout rec \<noteq> kReplayRecordLayout)
          then stop (Error IntegrityError ''replay window corrupt'')
          else if rw_context_fingerprint rec \<noteq> replay_context_fingerprint context
          then (case floor of
                  Some f \<Rightarrow> if sc_epoch context \<le> rf_minimum_epoch f
                            then reject_foreign (Error ReplayRejected ''REPLAY_STATE_LOST'')
                            else ret (fresh_record context)
                | None \<Rightarrow> ret (fresh_record context))
          else ret rec
      | None \<Rightarrow>
          stop_if (case floor of Some f \<Rightarrow> sc_epoch context = rf_minimum_epoch f | None \<Rightarrow> False)
            (Error ReplayRejected ''REPLAY_STATE_LOST'') (ret (fresh_record context)))"

definition opened_window :: "SecurityContext \<Rightarrow> ReplayWindowRecord \<Rightarrow> ReplayWindow" where
  "opened_window context rec =
     (let w = ReplayWindow_new\<lparr>wd_record := rec\<rparr>;
          w = (if rw_initialized rec \<noteq> 0
               then w\<lparr>wd_maximum := rw_accepted_ceiling rec, wd_bitmap := NOT 0, wd_live := True\<rparr> else w)
      in w\<lparr>wd_slot := floor_slot context, wd_epoch := sc_epoch context,
           wd_peer := replay_peer_fingerprint context, wd_open := True\<rparr>)"

definition open_context :: "'s ReplayStore \<Rightarrow> SecurityContext \<Rightarrow> ('s ReplayGuard, ReplayWindow) prog" where
  "open_context st context =
     seq (floor_state st context) (\<lambda>floor.
     stop_if (stale_epoch context floor) (Error ReplayRejected ''REPLAY_EPOCH_STALE'')
     (seq (on_store (rs_load_window st (floor_slot context))) (\<lambda>found.
     seq (adopt_record context floor found) (\<lambda>rec.
     seq (ratchet_floor st context floor) (\<lambda>_.
     ret (opened_window context rec))))))"

subsection \<open>Accepting and closing\<close>

definition check_window_floor :: "'s ReplayStore \<Rightarrow> ReplayWindow \<Rightarrow> ('s ReplayGuard, unit) prog" where
  "check_window_floor st w =
     seq (on_store (rs_load_floor st (wd_slot w))) (\<lambda>found. case found of
       None \<Rightarrow> stop (Error ReplayRejected ''REPLAY_STATE_LOST'')
     | Some floor \<Rightarrow>
         if rf_crc floor = floor_crc floor \<and> rf_initialized floor \<noteq> 0 \<and> rf_layout floor = kReplayRecordLayout \<and>
            rf_peer_fingerprint floor \<noteq> wd_peer w
         then reject_foreign (Error IntegrityError ''replay floor foreign fingerprint'')
         else if rf_crc floor \<noteq> floor_crc floor \<or> rf_initialized floor = 0 \<or> rf_layout floor \<noteq> kReplayRecordLayout \<or>
            rf_peer_fingerprint floor \<noteq> wd_peer w
         then stop (Error IntegrityError ''replay epoch floor corrupt'')
         else stop_if (wd_epoch w < rf_minimum_epoch floor) (Error ReplayRejected ''REPLAY_EPOCH_STALE'') (ret ()))"

definition ceiling_record :: "ReplayWindow \<Rightarrow> u64 \<Rightarrow> ReplayWindowRecord" where
  "ceiling_record w ceiling =
     (let rec = (wd_record w)\<lparr>rw_accepted_ceiling := ceiling, rw_legacy_bitmap := 0, rw_initialized := 1,
            rw_layout := kReplayRecordLayout, rw_reserved := map (\<lambda>_. 0) (rw_reserved (wd_record w)),
            rw_generation := rw_generation (wd_record w) + 1\<rparr>
      in rec\<lparr>rw_crc := window_crc rec\<rparr>)"

definition superseded :: "ReplayWindow \<Rightarrow> ReplayWindowRecord option \<Rightarrow> bool" where
  "superseded w persisted =
     (if rw_initialized (wd_record w) \<noteq> 0 then persisted \<noteq> Some (wd_record w)
      else case persisted of
             Some p \<Rightarrow> rw_context_fingerprint p = rw_context_fingerprint (wd_record w)
           | None \<Rightarrow> False)"

definition commit_ceiling :: "'s ReplayStore \<Rightarrow> ReplayWindow \<Rightarrow> u64 \<Rightarrow> ('s ReplayGuard, ReplayWindow) prog" where
  "commit_ceiling st w ceiling =
     seq (on_store (rs_load_window st (wd_slot w))) (\<lambda>persisted.
     stop_if (superseded w persisted) (Error ReplayRejected ''REPLAY_WINDOW_SUPERSEDED'')
     (let rec = ceiling_record w ceiling
      in seq (on_store (rs_commit_window st (wd_slot w) rec)) (\<lambda>_. ret (w\<lparr>wd_record := rec\<rparr>))))"

definition reserved_ceiling :: "u32 \<Rightarrow> u64 \<Rightarrow> u64" where
  "reserved_ceiling ahead maximum =
     (if 0xFFFFFFFFFFFFFFFF - ucast ahead < maximum then 0xFFFFFFFFFFFFFFFF else maximum + ucast ahead)"

text \<open>A refused counter leaves the window as it was.\<close>

definition replay_accept :: "'s ReplayStore \<Rightarrow> ReplayWindow \<Rightarrow> u64 \<Rightarrow> ('s ReplayGuard, ReplayWindow) prog" where
  "replay_accept st w counter =
     stop_if (\<not> wd_open w) (Error InvalidState ''replay window not open'')
     (seq (check_window_floor st w) (\<lambda>_.
      case slide_window (wd_live w) (wd_maximum w) (wd_bitmap w) counter of
        None \<Rightarrow> stop (Error ReplayRejected ''replayed security counter'')
      | Some (maximum, bitmap) \<Rightarrow>
          seq (if rw_initialized (wd_record w) = 0 \<or> rw_accepted_ceiling (wd_record w) < maximum
               then (\<lambda>g. commit_ceiling st w (reserved_ceiling (rg_reservation_ahead g) maximum) g)
               else ret w) (\<lambda>w.
          ret (w\<lparr>wd_maximum := maximum, wd_bitmap := bitmap, wd_live := True\<rparr>))))"

text \<open>The window is closed whatever the status.\<close>

definition close_context :: "'s ReplayStore \<Rightarrow> ReplayWindow \<Rightarrow> ('s ReplayGuard, unit) prog" where
  "close_context st w =
     (if wd_open w \<and> wd_live w \<and> rw_initialized (wd_record w) \<noteq> 0 \<and>
         wd_maximum w < rw_accepted_ceiling (wd_record w)
      then seq (check_window_floor st w) (\<lambda>_. seq (commit_ceiling st w (wd_maximum w)) (\<lambda>_. ret ()))
      else ret ())"

end
