(* ===== verification/Replay_Safety.thy ===== *)
theory Replay_Safety
  imports Replay_Guard
begin

text \<open>
  No counter is accepted twice. The locale \<open>replay_store\<close> is the contract of \<^verbatim>\<open>ReplayStore\<close>: loads
  return what is stored, a commit that reports success is durable, and a commit that reports an
  error may or may not have landed. Inside it the procedures of the guard are described by what
  they do to the stored records, and a world of one guard, any number of RAM windows and a log
  of accepted counters keeps an invariant per slot over every sequence of openings, accepts,
  closings, floor checks and restarts.
\<close>

subsection \<open>The contract of the store\<close>

locale replay_store =
  fixes st :: "'s ReplayStore"
    and stored :: "'s \<Rightarrow> u32 \<Rightarrow> ReplayWindowRecord option"
    and floors :: "'s \<Rightarrow> u32 \<Rightarrow> ReplayFloorRecord option"
  assumes load_window: "rs_load_window st slot s = (r, s') \<Longrightarrow>
      stored s' = stored s \<and> floors s' = floors s \<and> (\<forall>x. r = Inr x \<longrightarrow> x = stored s slot)"
    and commit_window: "rs_commit_window st slot rec s = (u, s') \<Longrightarrow>
      floors s' = floors s \<and> stored s' \<in> {stored s, (stored s)(slot \<mapsto> rec)} \<and>
      (u = Inr () \<longrightarrow> stored s' = (stored s)(slot \<mapsto> rec))"
    and load_floor: "rs_load_floor st slot s = (q, s') \<Longrightarrow>
      stored s' = stored s \<and> floors s' = floors s \<and> (\<forall>x. q = Inr x \<longrightarrow> x = floors s slot)"
    and commit_floor: "rs_commit_floor st slot f s = (u, s') \<Longrightarrow>
      stored s' = stored s \<and> floors s' \<in> {floors s, (floors s)(slot \<mapsto> f)} \<and>
      (u = Inr () \<longrightarrow> floors s' = (floors s)(slot \<mapsto> f))"

lemma raised_floor_sel [simp]:
  "rf_minimum_epoch (raised_floor context fo) = sc_epoch context"
  "rf_peer_fingerprint (raised_floor context fo) = replay_peer_fingerprint context"
  by (simp_all add: raised_floor_def Let_def)

lemma ceiling_record_sel [simp]:
  "rw_accepted_ceiling (ceiling_record w c) = c"
  "rw_initialized (ceiling_record w c) = 1"
  "rw_context_fingerprint (ceiling_record w c) = rw_context_fingerprint (wd_record w)"
  "rw_generation (ceiling_record w c) = rw_generation (wd_record w) + 1"
  by (simp_all add: ceiling_record_def Let_def)

lemma u64_le_max: "(a :: u64) \<le> 0xFFFFFFFFFFFFFFFF"
  using unsigned_less [of a, where ?'a = nat] by (simp add: word_le_nat_alt)

lemma add_bounded: "\<not> 0xFFFFFFFFFFFFFFFF - a < m \<Longrightarrow> m \<le> m + a" for a m :: u64
proof -
  assume "\<not> 0xFFFFFFFFFFFFFFFF - a < m"
  then have "unat m + unat a \<le> 18446744073709551615"
    using unat_sub [OF u64_le_max [of a]] u64_le_max [of a] by (simp add: word_le_nat_alt word_less_nat_alt)
  then show ?thesis by (simp add: word_le_nat_alt unat_word_ariths)
qed

lemma reserved_ceiling_ge: "maximum \<le> reserved_ceiling ahead maximum"
  using add_bounded [of "ucast ahead" maximum] u64_le_max by (simp add: reserved_ceiling_def)

definition needs_ceiling :: "ReplayWindow \<Rightarrow> u64 \<Rightarrow> bool" where
  "needs_ceiling w maximum \<longleftrightarrow> rw_initialized (wd_record w) = 0 \<or> rw_accepted_ceiling (wd_record w) < maximum"

context replay_store
begin

abbreviation W where "W g \<equiv> stored (rg_store g)"
abbreviation F where "F g \<equiv> floors (rg_store g)"

lemma on_load_window:
  "on_store (rs_load_window st slot) g = (r, g') \<Longrightarrow>
   W g' = W g \<and> F g' = F g \<and> (\<forall>x. r = Inr x \<longrightarrow> W g slot = x)"
  using load_window [of slot "rg_store g"] by (auto simp: on_store_def split: prod.splits)

lemma on_load_floor:
  "on_store (rs_load_floor st slot) g = (r, g') \<Longrightarrow>
   W g' = W g \<and> F g' = F g \<and> (\<forall>x. r = Inr x \<longrightarrow> F g slot = x)"
  using load_floor [of slot "rg_store g"] by (auto simp: on_store_def split: prod.splits)

lemma on_commit_window:
  "on_store (rs_commit_window st slot rec) g = (r, g') \<Longrightarrow>
   F g' = F g \<and> W g' \<in> {W g, (W g)(slot \<mapsto> rec)} \<and> (r = Inr () \<longrightarrow> W g' = (W g)(slot \<mapsto> rec))"
  using commit_window [of slot rec "rg_store g"] by (auto simp: on_store_def split: prod.splits)

lemma on_commit_floor:
  "on_store (rs_commit_floor st slot f) g = (r, g') \<Longrightarrow>
   W g' = W g \<and> F g' \<in> {F g, (F g)(slot \<mapsto> f)} \<and> (r = Inr () \<longrightarrow> F g' = (F g)(slot \<mapsto> f))"
  using commit_floor [of slot f "rg_store g"] by (auto simp: on_store_def split: prod.splits)

lemma floor_state_effect:
  assumes "floor_state st c g = (r, g')"
  shows "W g' = W g \<and> F g' = F g \<and> (\<forall>fo. r = Inr fo \<longrightarrow> fo = F g (floor_slot c))"
  using assms
  by (auto simp: floor_state_def seq_def reject_foreign_def dest!: on_load_floor
      split: prod.splits sum.splits option.splits if_splits)

text \<open>Whatever happens, the floor stays or is raised to the epoch of the context.\<close>

definition floor_step :: "SecurityContext \<Rightarrow> 's ReplayGuard \<Rightarrow> 's ReplayGuard \<Rightarrow> bool" where
  "floor_step c g g' \<longleftrightarrow> W g' = W g \<and> (F g' = F g \<or> \<not> stale_epoch c (F g (floor_slot c)) \<and>
     (\<forall>f. F g (floor_slot c) = Some f \<longrightarrow> rf_minimum_epoch f < sc_epoch c) \<and>
     F g' = (F g)(floor_slot c \<mapsto> raised_floor c (F g (floor_slot c))))"

lemma ratchet_floor_step:
  assumes "ratchet_floor st c fo g = (r, g')" "fo = F g (floor_slot c)"
  shows "floor_step c g g'"
  using assms
  by (auto simp: ratchet_floor_def floor_step_def stale_epoch_def not_le not_less dest!: on_commit_floor
      split: option.splits if_splits)

lemma ratchet_floor_done:
  assumes "ratchet_floor st c fo g = (Inr (), g')" "fo = F g (floor_slot c)" "\<not> stale_epoch c fo"
  shows "\<exists>f. F g' (floor_slot c) = Some f \<and> rf_minimum_epoch f = sc_epoch c"
proof (cases "\<exists>f. fo = Some f \<and> sc_epoch c \<le> rf_minimum_epoch f")
  case True
  with assms show ?thesis by (auto simp: ratchet_floor_def stale_epoch_def)
next
  case False
  then have "ratchet_floor st c fo = on_store (rs_commit_floor st (floor_slot c) (raised_floor c fo))"
    by (auto simp: ratchet_floor_def split: option.split)
  with assms(1) on_commit_floor show ?thesis by fastforce
qed

lemma floor_step_refl: "W g' = W g \<Longrightarrow> F g' = F g \<Longrightarrow> floor_step c g g'"
  by (simp add: floor_step_def)

lemma floor_step_cong: "W g1 = W g \<Longrightarrow> F g1 = F g \<Longrightarrow> floor_step c g1 g' = floor_step c g g'"
  by (simp add: floor_step_def)

lemma check_floor_effect:
  assumes "check_floor st c g = (r, g')"
  shows "floor_step c g g'"
proof -
  obtain r1 g1 where fs: "floor_state st c g = (r1, g1)" by fastforce
  note eff = floor_state_effect [OF fs]
  show ?thesis
  proof (cases r1)
    case (Inl e)
    with assms fs eff show ?thesis by (simp add: check_floor_def seq_def floor_step_refl)
  next
    case (Inr fo)
    show ?thesis
    proof (cases "stale_epoch c fo")
      case True
      with Inr assms fs eff show ?thesis by (simp add: check_floor_def seq_def floor_step_refl)
    next
      case False
      with Inr assms fs have "ratchet_floor st c fo g1 = (r, g')" by (simp add: check_floor_def seq_def)
      from ratchet_floor_step [OF this] eff Inr show ?thesis using floor_step_cong [of g1 g c g'] by simp
    qed
  qed
qed

lemma adopt_record_frame: "adopt_record c fo wo g = (r, g') \<Longrightarrow> rg_store g' = rg_store g"
  by (cases fo; cases wo; simp add: adopt_record_def reject_foreign_def split: if_splits; auto)

lemma adopt_record_Inr:
  assumes "adopt_record c fo wo g = (Inr rec, g')" "\<not> stale_epoch c fo"
  shows "wo = Some rec \<and> rw_context_fingerprint rec = replay_context_fingerprint c \<and> rw_initialized rec \<noteq> 0 \<or>
    rec = fresh_record c \<and> (\<forall>f. fo = Some f \<longrightarrow> rf_minimum_epoch f < sc_epoch c)"
  using assms
  by (cases fo; cases wo; simp add: adopt_record_def reject_foreign_def stale_epoch_def split: if_splits) auto

text \<open>An opened window is the persisted one, or a fresh one whose epoch has just become the floor.\<close>

lemma open_context_done:
  assumes "open_context st c g = (Inr w, g')"
  shows "floor_step c g g' \<and> (\<exists>f. F g' (floor_slot c) = Some f \<and> rf_minimum_epoch f = sc_epoch c) \<and>
    (\<exists>rec. w = opened_window c rec \<and> rw_context_fingerprint rec = replay_context_fingerprint c \<and>
      (if rw_initialized rec \<noteq> 0 then W g (floor_slot c) = Some rec
       else \<forall>f. F g (floor_slot c) = Some f \<longrightarrow> rf_minimum_epoch f < sc_epoch c))"
proof -
  from assms obtain fo g1 where fs: "floor_state st c g = (Inr fo, g1)" and fresh: "\<not> stale_epoch c fo"
    and rest: "seq (on_store (rs_load_window st (floor_slot c))) (\<lambda>found.
      seq (adopt_record c fo found) (\<lambda>rec. seq (ratchet_floor st c fo) (\<lambda>_. ret (opened_window c rec)))) g1 = (Inr w, g')"
    unfolding open_context_def by (auto split: if_splits)
  from rest obtain wo g2 rec g3 where lw: "on_store (rs_load_window st (floor_slot c)) g1 = (Inr wo, g2)"
    and ad: "adopt_record c fo wo g2 = (Inr rec, g3)" and rt: "ratchet_floor st c fo g3 = (Inr (), g')"
    and w: "w = opened_window c rec" by auto
  note e1 = floor_state_effect [OF fs] and e2 = on_load_window [OF lw] and e3 = adopt_record_frame [OF ad] adopt_record_Inr [OF ad fresh]
  have g3: "W g3 = W g" "F g3 = F g" "fo = F g3 (floor_slot c)" using e1 e2 e3 by auto
  have "floor_step c g g'" using ratchet_floor_step [OF rt g3(3)] floor_step_cong [OF g3(1,2)] by simp
  moreover have "rw_initialized (fresh_record c) = 0" "rw_context_fingerprint (fresh_record c) = replay_context_fingerprint c"
    by (simp_all add: fresh_record_def ReplayWindowRecord_new_def)
  ultimately show ?thesis
    using ratchet_floor_done [OF rt g3(3) fresh] e1 e2 e3 w fresh by auto
qed

lemma open_context_effect:
  assumes "open_context st c g = (r, g')"
  shows "floor_step c g g'"
proof (cases r)
  case (Inr w)
  with assms open_context_done [of c g w g'] show ?thesis by simp
next
  case (Inl e)
  obtain r1 g1 where fs: "floor_state st c g = (r1, g1)" by fastforce
  obtain r2 g2 where lw: "on_store (rs_load_window st (floor_slot c)) g1 = (r2, g2)" by fastforce
  note e1 = floor_state_effect [OF fs] and e2 = on_load_window [OF lw]
  show ?thesis
  proof (cases "(\<exists>e. r1 = Inl e) \<or> (\<exists>fo. r1 = Inr fo \<and> stale_epoch c fo) \<or> (\<exists>e. r2 = Inl e)")
    case True
    with assms fs lw e1 e2 show ?thesis
      by (auto simp: open_context_def seq_def intro: floor_step_refl split: if_splits sum.splits)
  next
    case False
    then obtain fo wo where r: "r1 = Inr fo" "\<not> stale_epoch c fo" "r2 = Inr wo"
      by (cases r1; cases r2) auto
    obtain r3 g3 where ad: "adopt_record c fo wo g2 = (r3, g3)" by fastforce
    note e3 = adopt_record_frame [OF ad]
    show ?thesis
    proof (cases r3)
      case (Inl e)
      with assms fs lw ad r e1 e2 e3 show ?thesis by (auto simp: open_context_def seq_def intro: floor_step_refl)
    next
      case (Inr rec)
      obtain r4 where rt: "ratchet_floor st c fo g3 = (r4, g')"
        using assms fs lw ad r Inr by (auto simp: open_context_def seq_def split: prod.splits sum.splits)
      from ratchet_floor_step [OF rt] e1 e2 e3 r floor_step_cong [of g3 g c g'] show ?thesis by simp
    qed
  qed
qed

lemma check_window_floor_effect:
  assumes "check_window_floor st w g = (r, g')"
  shows "W g' = W g \<and> F g' = F g \<and>
    (r = Inr () \<longrightarrow> (\<exists>f. F g (wd_slot w) = Some f \<and> rf_minimum_epoch f \<le> wd_epoch w))"
  using assms
  by (auto simp: check_window_floor_def seq_def reject_foreign_def not_less dest!: on_load_floor
      split: prod.splits sum.splits option.splits if_splits)

text \<open>A ceiling is written only over a record that does not supersede the window.\<close>

definition ceiling_step :: "ReplayWindow \<Rightarrow> u64 \<Rightarrow> 's ReplayGuard \<Rightarrow> 's ReplayGuard \<Rightarrow> bool" where
  "ceiling_step w c g g' \<longleftrightarrow> \<not> superseded w (W g (wd_slot w)) \<and> W g' = (W g)(wd_slot w \<mapsto> ceiling_record w c)"

lemma commit_ceiling_effect:
  assumes "commit_ceiling st w c g = (r, g')"
  shows "F g' = F g \<and> (W g' = W g \<or> ceiling_step w c g g') \<and>
    (\<forall>w'. r = Inr w' \<longrightarrow> w' = w\<lparr>wd_record := ceiling_record w c\<rparr> \<and> ceiling_step w c g g')"
proof -
  obtain r1 g1 where lw: "on_store (rs_load_window st (wd_slot w)) g = (r1, g1)" by fastforce
  obtain r2 g2 where cw: "on_store (rs_commit_window st (wd_slot w) (ceiling_record w c)) g1 = (r2, g2)" by fastforce
  note e1 = on_load_window [OF lw] and e2 = on_commit_window [OF cw]
  show ?thesis
  proof (cases "(\<exists>e. r1 = Inl e) \<or> (\<exists>x. r1 = Inr x \<and> superseded w x)")
    case True
    then have "g' = g1 \<and> (\<exists>e. r = Inl e)" using assms lw by (auto simp: commit_ceiling_def seq_def)
    with e1 show ?thesis by auto
  next
    case False
    then obtain x where "r1 = Inr x" "\<not> superseded w x" by (cases r1) auto
    then have "g' = g2 \<and> (\<forall>w'. r = Inr w' \<longrightarrow> r2 = Inr () \<and> w' = w\<lparr>wd_record := ceiling_record w c\<rparr>)"
      using assms lw cw by (cases r2) (auto simp: commit_ceiling_def seq_def Let_def)
    with e1 e2 \<open>r1 = Inr x\<close> \<open>\<not> superseded w x\<close> show ?thesis by (auto simp: ceiling_step_def)
  qed
qed

text \<open>The window and its floor agree, and the window lets the counter through.\<close>

definition admits :: "'s ReplayGuard \<Rightarrow> ReplayWindow \<Rightarrow> u64 \<Rightarrow> u64 \<Rightarrow> u64 \<Rightarrow> bool" where
  "admits g w c maximum bitmap \<longleftrightarrow> wd_open w \<and>
     (\<exists>f. F g (wd_slot w) = Some f \<and> rf_minimum_epoch f \<le> wd_epoch w) \<and>
     slide_window (wd_live w) (wd_maximum w) (wd_bitmap w) c = Some (maximum, bitmap)"

lemma replay_accept_effect:
  assumes "replay_accept st w c g = (r, g')"
  shows "F g' = F g \<and>
    (W g' = W g \<or> (\<exists>maximum bitmap ceiling. admits g w c maximum bitmap \<and> needs_ceiling w maximum \<and>
        maximum \<le> ceiling \<and> ceiling_step w ceiling g g')) \<and>
    (\<forall>w'. r = Inr w' \<longrightarrow> (\<exists>maximum bitmap. admits g w c maximum bitmap \<and>
       (if needs_ceiling w maximum
        then \<exists>ceiling. maximum \<le> ceiling \<and> ceiling_step w ceiling g g' \<and>
          w' = w\<lparr>wd_record := ceiling_record w ceiling, wd_maximum := maximum, wd_bitmap := bitmap, wd_live := True\<rparr>
        else W g' = W g \<and> w' = w\<lparr>wd_maximum := maximum, wd_bitmap := bitmap, wd_live := True\<rparr>)))"
proof -
  obtain r1 g1 where cf: "check_window_floor st w g = (r1, g1)" by fastforce
  note e1 = check_window_floor_effect [OF cf]
  show ?thesis
  proof (cases "wd_open w \<and> r1 = Inr () \<and> slide_window (wd_live w) (wd_maximum w) (wd_bitmap w) c \<noteq> None")
    case False
    then have "(\<exists>e. r = Inl e) \<and> (g' = g \<or> g' = g1)"
      using assms cf by (cases r1; cases "slide_window (wd_live w) (wd_maximum w) (wd_bitmap w) c")
        (auto simp: replay_accept_def seq_def split: if_splits)
    with e1 show ?thesis by auto
  next
    case True
    then obtain maximum bitmap where sl: "slide_window (wd_live w) (wd_maximum w) (wd_bitmap w) c = Some (maximum, bitmap)"
      by auto
    have ad: "admits g w c maximum bitmap" using True sl e1 by (auto simp: admits_def)
    show ?thesis
    proof (cases "needs_ceiling w maximum")
      case False
      then have "g' = g1" "r = Inr (w\<lparr>wd_maximum := maximum, wd_bitmap := bitmap, wd_live := True\<rparr>)"
        using assms True cf sl by (auto simp: replay_accept_def seq_def needs_ceiling_def)
      with e1 ad False show ?thesis by auto
    next
      case need: True
      let ?c = "reserved_ceiling (rg_reservation_ahead g1) maximum"
      obtain r2 g2 where cc: "commit_ceiling st w ?c g1 = (r2, g2)" by fastforce
      note e2 = commit_ceiling_effect [OF cc]
      have step: "ceiling_step w ?c g1 g2 \<longleftrightarrow> ceiling_step w ?c g g2" using e1 by (simp add: ceiling_step_def)
      have res: "\<exists>u. r2 = Inr u \<and> w' = u\<lparr>wd_maximum := maximum, wd_bitmap := bitmap, wd_live := True\<rparr>"
        if "r = Inr w'" for w'
        using assms True cf sl cc need that
        by (cases r2) (auto simp: replay_accept_def seq_def needs_ceiling_def)
      have gg: "g' = g2" using assms True cf sl cc need by (cases r2) (auto simp: replay_accept_def seq_def needs_ceiling_def)
      have le: "maximum \<le> ?c" by (rule reserved_ceiling_ge)
      have new: "w' = w\<lparr>wd_record := ceiling_record w ?c, wd_maximum := maximum, wd_bitmap := bitmap, wd_live := True\<rparr> \<and>
          ceiling_step w ?c g g'" if "r = Inr w'" for w'
        using res [OF that] e2 step gg by auto
      show ?thesis
      proof (intro conjI allI impI)
        show "F g' = F g" using e1 e2 gg by simp
        have "W g' = W g \<or> ceiling_step w ?c g g'" using e1 e2 step gg by simp
        with ad need le show "W g' = W g \<or> (\<exists>maximum bitmap ceiling. admits g w c maximum bitmap \<and>
            needs_ceiling w maximum \<and> maximum \<le> ceiling \<and> ceiling_step w ceiling g g')" by blast
        fix w' assume "r = Inr w'"
        from new [OF this] le show "\<exists>maximum bitmap. admits g w c maximum bitmap \<and>
          (if needs_ceiling w maximum
           then \<exists>ceiling. maximum \<le> ceiling \<and> ceiling_step w ceiling g g' \<and>
             w' = w\<lparr>wd_record := ceiling_record w ceiling, wd_maximum := maximum, wd_bitmap := bitmap, wd_live := True\<rparr>
           else W g' = W g \<and> w' = w\<lparr>wd_maximum := maximum, wd_bitmap := bitmap, wd_live := True\<rparr>)"
          using ad need by (intro exI [of _ maximum] exI [of _ bitmap]) auto
      qed
    qed
  qed
qed

lemma close_context_effect:
  assumes "close_context st w g = (r, g')"
  shows "F g' = F g \<and> (W g' = W g \<or> wd_open w \<and> rw_initialized (wd_record w) \<noteq> 0 \<and>
    (\<exists>f. F g (wd_slot w) = Some f \<and> rf_minimum_epoch f \<le> wd_epoch w) \<and> ceiling_step w (wd_maximum w) g g')"
proof -
  obtain r1 g1 where cf: "check_window_floor st w g = (r1, g1)" by fastforce
  obtain r2 g2 where cc: "commit_ceiling st w (wd_maximum w) g1 = (r2, g2)" by fastforce
  note e1 = check_window_floor_effect [OF cf] and e2 = commit_ceiling_effect [OF cc]
  have "ceiling_step w (wd_maximum w) g1 g2 \<longleftrightarrow> ceiling_step w (wd_maximum w) g g2" using e1 by (simp add: ceiling_step_def)
  moreover have "g' = g \<or> g' = g1 \<or> g' = g2 \<and> r1 = Inr () \<and> wd_open w \<and> rw_initialized (wd_record w) \<noteq> 0"
    using assms cf cc by (cases r1; cases r2) (auto simp: close_context_def seq_def split: if_splits)
  ultimately show ?thesis using e1 e2 by auto
qed

end

subsection \<open>The windows of one epoch\<close>

abbreviation initialised :: "ReplayWindow \<Rightarrow> bool" where
  "initialised w \<equiv> rw_initialized (wd_record w) \<noteq> 0"

abbreviation key_of :: "ReplayWindow \<Rightarrow> u64" where
  "key_of w \<equiv> rw_context_fingerprint (wd_record w)"

text \<open>A counter the window may still accept without touching the store.\<close>

definition unused :: "ReplayWindow \<Rightarrow> u64 \<Rightarrow> bool" where
  "unused w c \<longleftrightarrow> initialised w \<and> c \<le> rw_accepted_ceiling (wd_record w) \<and>
     \<not> (wd_live w \<and> seen (wd_maximum w) (wd_bitmap w) c)"

definition record_of :: "ReplayWindowRecord option \<Rightarrow> u64 \<Rightarrow> bool" where
  "record_of ro k \<longleftrightarrow> (\<exists>r. ro = Some r \<and> rw_context_fingerprint r = k)"

text \<open>
  \<open>ro\<close> is the persisted record, \<open>A\<close> the open windows of the epoch, \<open>L\<close> the accepted pairs of
  fingerprint and counter, \<open>n\<close> a bound on the commits so far.
\<close>

definition epoch_inv ::
  "ReplayWindowRecord option \<Rightarrow> (nat \<Rightarrow> ReplayWindow option) \<Rightarrow> (u64 \<times> u64) set \<Rightarrow> nat \<Rightarrow> bool" where
  "epoch_inv ro A L n \<longleftrightarrow>
     (\<forall>i j w v. A i = Some w \<longrightarrow> A j = Some v \<longrightarrow> \<not> initialised w \<longrightarrow> \<not> initialised v \<longrightarrow> i = j) \<and>
     (\<forall>i w. A i = Some w \<longrightarrow> \<not> initialised w \<longrightarrow> \<not> record_of ro (key_of w) \<longrightarrow>
        (\<forall>j v. A j = Some v \<longrightarrow> key_of v = key_of w \<longrightarrow> j = i) \<and> (\<forall>c. (key_of w, c) \<notin> L)) \<and>
     (\<forall>i w. A i = Some w \<longrightarrow> initialised w \<longrightarrow> wd_live w \<and> wd_maximum w \<le> rw_accepted_ceiling (wd_record w)) \<and>
     (\<forall>i w c. A i = Some w \<longrightarrow> unused w c \<longrightarrow> (key_of w, c) \<notin> L) \<and>
     (\<forall>i j w v c. A i = Some w \<longrightarrow> A j = Some v \<longrightarrow> i \<noteq> j \<longrightarrow> key_of w = key_of v \<longrightarrow> unused w c \<longrightarrow> \<not> unused v c) \<and>
     (\<forall>r c. ro = Some r \<longrightarrow> (rw_context_fingerprint r, c) \<in> L \<longrightarrow> c \<le> rw_accepted_ceiling r) \<and>
     (\<forall>r i w c. ro = Some r \<longrightarrow> A i = Some w \<longrightarrow> key_of w = rw_context_fingerprint r \<longrightarrow> unused w c \<longrightarrow>
        c \<le> rw_accepted_ceiling r) \<and>
     (\<forall>i w c. A i = Some w \<longrightarrow> initialised w \<longrightarrow> ro = Some (wd_record w) \<longrightarrow> (key_of w, c) \<in> L \<longrightarrow> c \<le> wd_maximum w) \<and>
     (\<forall>i j w v c. A i = Some w \<longrightarrow> initialised w \<longrightarrow> ro = Some (wd_record w) \<longrightarrow> A j = Some v \<longrightarrow> i \<noteq> j \<longrightarrow>
        key_of v = key_of w \<longrightarrow> unused v c \<longrightarrow> c \<le> wd_maximum w) \<and>
     (\<forall>r i w. ro = Some r \<longrightarrow> A i = Some w \<longrightarrow> initialised w \<longrightarrow> key_of w = rw_context_fingerprint r \<longrightarrow>
        unat (rw_generation r - rw_generation (wd_record w)) \<le> n)"

lemma epoch_invD:
  assumes "epoch_inv ro A L n"
  shows fresh_unique: "\<And>i j w v. A i = Some w \<Longrightarrow> A j = Some v \<Longrightarrow> \<not> initialised w \<Longrightarrow> \<not> initialised v \<Longrightarrow> i = j"
    and fresh_alone: "\<And>i j w v. A i = Some w \<Longrightarrow> \<not> initialised w \<Longrightarrow> \<not> record_of ro (key_of w) \<Longrightarrow>
      A j = Some v \<Longrightarrow> key_of v = key_of w \<Longrightarrow> j = i"
    and fresh_log: "\<And>i w c. A i = Some w \<Longrightarrow> \<not> initialised w \<Longrightarrow> \<not> record_of ro (key_of w) \<Longrightarrow> (key_of w, c) \<notin> L"
    and live: "\<And>i w. A i = Some w \<Longrightarrow> initialised w \<Longrightarrow> wd_live w"
    and max_le: "\<And>i w. A i = Some w \<Longrightarrow> initialised w \<Longrightarrow> wd_maximum w \<le> rw_accepted_ceiling (wd_record w)"
    and unused_log: "\<And>i w c. A i = Some w \<Longrightarrow> unused w c \<Longrightarrow> (key_of w, c) \<notin> L"
    and unused_disj: "\<And>i j w v c. A i = Some w \<Longrightarrow> A j = Some v \<Longrightarrow> i \<noteq> j \<Longrightarrow> key_of w = key_of v \<Longrightarrow>
      unused w c \<Longrightarrow> \<not> unused v c"
    and log_ceiling: "\<And>r c. ro = Some r \<Longrightarrow> (rw_context_fingerprint r, c) \<in> L \<Longrightarrow> c \<le> rw_accepted_ceiling r"
    and unused_ceiling: "\<And>r i w c. ro = Some r \<Longrightarrow> A i = Some w \<Longrightarrow> key_of w = rw_context_fingerprint r \<Longrightarrow>
      unused w c \<Longrightarrow> c \<le> rw_accepted_ceiling r"
    and log_max: "\<And>i w c. A i = Some w \<Longrightarrow> initialised w \<Longrightarrow> ro = Some (wd_record w) \<Longrightarrow> (key_of w, c) \<in> L \<Longrightarrow>
      c \<le> wd_maximum w"
    and unused_max: "\<And>i j w v c. A i = Some w \<Longrightarrow> initialised w \<Longrightarrow> ro = Some (wd_record w) \<Longrightarrow> A j = Some v \<Longrightarrow> i \<noteq> j \<Longrightarrow>
      key_of v = key_of w \<Longrightarrow> unused v c \<Longrightarrow> c \<le> wd_maximum w"
    and generations: "\<And>r i w. ro = Some r \<Longrightarrow> A i = Some w \<Longrightarrow> initialised w \<Longrightarrow> key_of w = rw_context_fingerprint r \<Longrightarrow>
      unat (rw_generation r - rw_generation (wd_record w)) \<le> n"
  using assms unfolding epoch_inv_def by metis+

lemma epoch_invI:
  assumes "\<And>i j w v. A i = Some w \<Longrightarrow> A j = Some v \<Longrightarrow> \<not> initialised w \<Longrightarrow> \<not> initialised v \<Longrightarrow> i = j"
    and "\<And>i j w v. A i = Some w \<Longrightarrow> \<not> initialised w \<Longrightarrow> \<not> record_of ro (key_of w) \<Longrightarrow>
      A j = Some v \<Longrightarrow> key_of v = key_of w \<Longrightarrow> j = i"
    and "\<And>i w c. A i = Some w \<Longrightarrow> \<not> initialised w \<Longrightarrow> \<not> record_of ro (key_of w) \<Longrightarrow> (key_of w, c) \<notin> L"
    and "\<And>i w. A i = Some w \<Longrightarrow> initialised w \<Longrightarrow> wd_live w \<and> wd_maximum w \<le> rw_accepted_ceiling (wd_record w)"
    and "\<And>i w c. A i = Some w \<Longrightarrow> unused w c \<Longrightarrow> (key_of w, c) \<notin> L"
    and "\<And>i j w v c. A i = Some w \<Longrightarrow> A j = Some v \<Longrightarrow> i \<noteq> j \<Longrightarrow> key_of w = key_of v \<Longrightarrow> unused w c \<Longrightarrow> \<not> unused v c"
    and "\<And>r c. ro = Some r \<Longrightarrow> (rw_context_fingerprint r, c) \<in> L \<Longrightarrow> c \<le> rw_accepted_ceiling r"
    and "\<And>r i w c. ro = Some r \<Longrightarrow> A i = Some w \<Longrightarrow> key_of w = rw_context_fingerprint r \<Longrightarrow>
      unused w c \<Longrightarrow> c \<le> rw_accepted_ceiling r"
    and "\<And>i w c. A i = Some w \<Longrightarrow> initialised w \<Longrightarrow> ro = Some (wd_record w) \<Longrightarrow> (key_of w, c) \<in> L \<Longrightarrow> c \<le> wd_maximum w"
    and "\<And>i j w v c. A i = Some w \<Longrightarrow> initialised w \<Longrightarrow> ro = Some (wd_record w) \<Longrightarrow> A j = Some v \<Longrightarrow> i \<noteq> j \<Longrightarrow>
      key_of v = key_of w \<Longrightarrow> unused v c \<Longrightarrow> c \<le> wd_maximum w"
    and "\<And>r i w. ro = Some r \<Longrightarrow> A i = Some w \<Longrightarrow> initialised w \<Longrightarrow> key_of w = rw_context_fingerprint r \<Longrightarrow>
      unat (rw_generation r - rw_generation (wd_record w)) \<le> n"
  shows "epoch_inv ro A L n"
  unfolding epoch_inv_def using assms by simp

lemma epoch_inv_empty: "epoch_inv ro Map.empty {} n"
  by (simp add: epoch_inv_def)

lemma epoch_inv_fresh: "\<not> initialised w \<Longrightarrow> epoch_inv ro [i \<mapsto> w] {} n"
  by (rule epoch_invI) (auto simp: unused_def split: if_splits)

lemma epoch_inv_mono:
  assumes "epoch_inv ro A L n" "A' \<subseteq>\<^sub>m A" "n \<le> n'"
  shows "epoch_inv ro A' L n'"
proof -
  have sub: "A' i = Some w \<Longrightarrow> A i = Some w" for i w using assms(2) by (metis map_le_def domI)
  note inv = epoch_invD [OF assms(1)]
  show ?thesis
  proof (rule epoch_invI, goal_cases)
    case 1
    then show ?case by (rule inv(1) [OF sub sub])
  next
    case 2
    then show ?case by (rule inv(2) [OF sub _ _ sub])
  next
    case 3
    then show ?case by (rule inv(3) [OF sub])
  next
    case 4
    then show ?case using inv(4,5) [OF sub] by blast
  next
    case 5
    then show ?case by (rule inv(6) [OF sub])
  next
    case 6
    then show ?case by (rule inv(7) [OF sub sub])
  next
    case 7
    then show ?case by (rule inv(8))
  next
    case 8
    then show ?case by (rule inv(9) [OF _ sub])
  next
    case 9
    then show ?case by (rule inv(10) [OF sub])
  next
    case 10
    then show ?case by (rule inv(11) [OF sub _ _ sub])
  next
    case (11 r i w)
    from inv(12) [OF 11(1) sub [OF 11(2)] 11(3,4)] assms(3) show ?case by simp
  qed
qed

text \<open>Adding a window.\<close>

lemma epoch_inv_add:
  assumes "epoch_inv ro A L n" "A i = None" "initialised w" "wd_live w"
    and max: "wd_maximum w \<le> rw_accepted_ceiling (wd_record w)"
    and log: "\<And>d. unused w d \<Longrightarrow> (key_of w, d) \<notin> L"
    and disj: "\<And>j v d. A j = Some v \<Longrightarrow> key_of v = key_of w \<Longrightarrow> unused w d \<Longrightarrow> \<not> unused v d"
    and fresh: "\<And>j v. A j = Some v \<Longrightarrow> \<not> initialised v \<Longrightarrow> \<not> record_of ro (key_of v) \<Longrightarrow> key_of v \<noteq> key_of w"
    and ceil: "\<And>r d. ro = Some r \<Longrightarrow> key_of w = rw_context_fingerprint r \<Longrightarrow> unused w d \<Longrightarrow> d \<le> rw_accepted_ceiling r"
    and gen: "\<And>r. ro = Some r \<Longrightarrow> key_of w = rw_context_fingerprint r \<Longrightarrow>
      unat (rw_generation r - rw_generation (wd_record w)) \<le> n"
    and log_max: "\<And>d. ro = Some (wd_record w) \<Longrightarrow> (key_of w, d) \<in> L \<Longrightarrow> d \<le> wd_maximum w"
    and others: "\<And>j v d. ro = Some (wd_record w) \<Longrightarrow> A j = Some v \<Longrightarrow> key_of v = key_of w \<Longrightarrow> unused v d \<Longrightarrow>
      d \<le> wd_maximum w"
    and current: "\<And>j v d. A j = Some v \<Longrightarrow> initialised v \<Longrightarrow> ro = Some (wd_record v) \<Longrightarrow> key_of v = key_of w \<Longrightarrow>
      unused w d \<Longrightarrow> d \<le> wd_maximum v"
  shows "epoch_inv ro (A(i \<mapsto> w)) L n"
proof -
  note inv = epoch_invD [OF assms(1)]
  have upd: "(A(i \<mapsto> w)) j = Some v \<Longrightarrow> j = i \<and> v = w \<or> j \<noteq> i \<and> A j = Some v" for j v
    by (simp split: if_splits)
  show ?thesis
  proof (rule epoch_invI, goal_cases)
    case 1
    then show ?case by (metis upd inv(1) assms(3))
  next
    case 2
    then show ?case by (metis upd inv(2) assms(3) fresh)
  next
    case 3
    then show ?case by (metis upd inv(3) assms(3))
  next
    case 4
    then show ?case by (metis upd inv(4,5) assms(4) max)
  next
    case 5
    then show ?case by (metis upd inv(6) log)
  next
    case 6
    then show ?case by (metis upd inv(7) disj)
  next
    case 7
    then show ?case by (rule inv(8))
  next
    case 8
    then show ?case by (metis upd inv(9) ceil)
  next
    case 9
    then show ?case by (metis upd inv(10) log_max)
  next
    case 10
    then show ?case by (metis upd inv(11) others current)
  next
    case 11
    then show ?case by (metis upd inv(12) gen)
  qed
qed

text \<open>Opening the persisted record: the window starts at the ceiling with every bit set.\<close>

lemma epoch_inv_open:
  assumes "epoch_inv (Some r) A L n" "A i = None" "initialised w" "wd_record w = r" "wd_live w"
    and full: "wd_maximum w = rw_accepted_ceiling r" "wd_bitmap w = NOT 0"
  shows "epoch_inv (Some r) (A(i \<mapsto> w)) L n"
proof -
  have none: "\<not> unused w c" for c
    using full assms(4,5) by (auto simp: unused_def seen_nat bit_not_iff word_le_nat_alt possible_bit_word)
  show ?thesis
  proof (rule epoch_inv_add [OF assms(1-3,5)], goal_cases)
    case 1
    show ?case using assms(4) full by simp
  next
    case (4 j v)
    then show ?case using assms(4) by (auto simp: record_of_def)
  next
    case (6 ra)
    then show ?case using assms(4) by simp
  next
    case (7 d)
    then show ?case using epoch_invD(8) [OF assms(1) refl, of d] assms(4) full by simp
  next
    case (8 j v d)
    then show ?case using epoch_invD(9) [OF assms(1) refl, of j v d] assms(4) full by simp
  qed (use none in simp_all)
qed

text \<open>Logging an accepted counter that no other window can still accept.\<close>

lemma epoch_inv_log:
  assumes "epoch_inv ro A L n"
    and none: "\<And>j v. A j = Some v \<Longrightarrow> key_of v = k \<Longrightarrow> \<not> unused v c"
    and fresh: "\<And>j v. A j = Some v \<Longrightarrow> \<not> initialised v \<Longrightarrow> \<not> record_of ro (key_of v) \<Longrightarrow> key_of v \<noteq> k"
    and ceil: "\<And>r. ro = Some r \<Longrightarrow> rw_context_fingerprint r = k \<Longrightarrow> c \<le> rw_accepted_ceiling r"
    and current: "\<And>j v. A j = Some v \<Longrightarrow> initialised v \<Longrightarrow> ro = Some (wd_record v) \<Longrightarrow> key_of v = k \<Longrightarrow> c \<le> wd_maximum v"
  shows "epoch_inv ro A (insert (k, c) L) n"
proof -
  note inv = epoch_invD [OF assms(1)]
  have ins: "(k', c') \<in> insert (k, c) L \<Longrightarrow> k' = k \<and> c' = c \<or> (k', c') \<in> L" for k' c' by simp
  show ?thesis
  proof (rule epoch_invI, goal_cases)
    case 1
    then show ?case by (rule inv(1))
  next
    case 2
    then show ?case by (rule inv(2))
  next
    case 3
    then show ?case by (metis ins inv(3) fresh)
  next
    case 4
    then show ?case by (simp add: inv(4,5))
  next
    case 5
    then show ?case by (metis ins inv(6) none)
  next
    case 6
    then show ?case by (rule inv(7))
  next
    case 7
    then show ?case by (metis ins inv(8) ceil)
  next
    case 8
    then show ?case by (rule inv(9))
  next
    case 9
    then show ?case by (metis ins inv(10) current)
  next
    case 10
    then show ?case by (rule inv(11))
  next
    case 11
    then show ?case by (rule inv(12))
  qed
qed

text \<open>A commit by the owner of the record makes every other window of the context stale.\<close>

lemma epoch_inv_stale:
  assumes "epoch_inv (Some r) A L n" "Suc n < 2 ^ 32"
    and r': "rw_context_fingerprint r' = rw_context_fingerprint r" "rw_generation r' = rw_generation r + 1"
    and w: "A i = Some w" "initialised w"
  shows "wd_record w \<noteq> r'"
    and "key_of w = rw_context_fingerprint r \<Longrightarrow> unat (rw_generation r' - rw_generation (wd_record w)) \<le> Suc n"
proof -
  let ?d = "rw_generation r - rw_generation (wd_record w)"
  have next_d: "rw_generation r' - rw_generation (wd_record w) = ?d + 1" using r'(2) by simp
  have d: "unat (?d + 1) = Suc (unat ?d)" "unat ?d \<le> n" if "key_of w = rw_context_fingerprint r"
    using epoch_invD(12) [OF assms(1) refl w that] assms(2) unat_add_lem [of ?d 1] by simp_all
  show "wd_record w \<noteq> r'"
  proof
    assume eq: "wd_record w = r'"
    with d(1) next_d r'(1) show False by simp
  qed
  show "unat (rw_generation r' - rw_generation (wd_record w)) \<le> Suc n" if "key_of w = rw_context_fingerprint r"
    unfolding next_d using d [OF that] by simp
qed

lemma epoch_inv_rewrite:
  assumes "epoch_inv (Some r) A L n" "Suc n < 2 ^ 32"
    and r': "rw_context_fingerprint r' = rw_context_fingerprint r" "rw_generation r' = rw_generation r + 1"
    and log: "\<And>c. (rw_context_fingerprint r, c) \<in> L \<Longrightarrow> c \<le> rw_accepted_ceiling r'"
    and unused: "\<And>i w c. A i = Some w \<Longrightarrow> key_of w = rw_context_fingerprint r \<Longrightarrow> unused w c \<Longrightarrow> c \<le> rw_accepted_ceiling r'"
  shows "epoch_inv (Some r') A L (Suc n)"
proof -
  note inv = epoch_invD [OF assms(1)] and stale = epoch_inv_stale [OF assms(1,2) r']
  have same: "record_of (Some r') = record_of (Some r)" by (simp add: record_of_def fun_eq_iff r')
  show ?thesis
  proof (rule epoch_invI, goal_cases)
    case 1
    then show ?case by (rule inv(1))
  next
    case 2
    then show ?case unfolding same by (rule inv(2))
  next
    case 3
    then show ?case unfolding same by (rule inv(3))
  next
    case 4
    then show ?case by (simp add: inv(4,5))
  next
    case 5
    then show ?case by (rule inv(6))
  next
    case 6
    then show ?case by (rule inv(7))
  next
    case 7
    then show ?case using log r'(1) by simp
  next
    case 8
    then show ?case using unused r'(1) by simp
  next
    case (9 i w)
    with stale(1) [of i w] show ?case by simp
  next
    case (10 i j w)
    with stale(1) [of i w] show ?case by simp
  next
    case (11 ra i w)
    with stale(2) [of i w] r'(1) show ?case by simp
  qed
qed

text \<open>The first commit of a fresh window takes the slot over.\<close>

lemma epoch_inv_rekey:
  assumes "epoch_inv ro A L n" "rw_context_fingerprint r' = k"
    and only: "\<And>j v. A j = Some v \<Longrightarrow> key_of v = k \<longleftrightarrow> \<not> initialised v"
    and log: "\<And>c. (k, c) \<notin> L"
  shows "epoch_inv (Some r') A L n"
proof -
  note inv = epoch_invD [OF assms(1)]
  show ?thesis
  proof (rule epoch_invI, goal_cases)
    case 1
    then show ?case by (rule inv(1))
  next
    case (2 i)
    with only [of i] show ?case by (simp add: record_of_def assms(2))
  next
    case (3 i)
    with only [of i] show ?case by (simp add: record_of_def assms(2))
  next
    case 4
    then show ?case by (simp add: inv(4,5))
  next
    case 5
    then show ?case by (rule inv(6))
  next
    case 6
    then show ?case by (rule inv(7))
  next
    case (7 ra c)
    with log [of c] assms(2) show ?case by auto
  next
    case (8 ra i)
    with only [of i] assms(2) show ?case by (auto simp: unused_def)
  next
    case (9 i)
    with only [of i] show ?case using assms(2) by auto
  next
    case (10 i)
    with only [of i] show ?case using assms(2) by auto
  next
    case (11 ra i)
    with only [of i] show ?case using assms(2) by auto
  qed
qed

subsection \<open>What accepting and closing do to one epoch\<close>

lemma slide_facts:
  assumes "slide_window live maximum bitmap c = Some (m, b)"
  shows "seen m b c" "live \<and> seen maximum bitmap d \<Longrightarrow> seen m b d" "\<not> (live \<and> seen maximum bitmap c)"
    and "c \<le> m" "live \<Longrightarrow> maximum \<le> m" "m = c \<or> live \<and> m = maximum"
proof -
  have "(\<lambda>(live, maximum, bitmap) c. map_option (\<lambda>(maximum, bitmap). (True, maximum, bitmap)) (slide_window live maximum bitmap c))
      (live, maximum, bitmap) c = Some (True, m, b)" using assms by simp
  from guard_window.accepted [OF this] guard_window.kept [OF this] guard_window.unseen [OF this]
  show "seen m b c" "live \<and> seen maximum bitmap d \<Longrightarrow> seen m b d" "\<not> (live \<and> seen maximum bitmap c)" by auto
  then show "c \<le> m" by (simp add: seen_def)
  show "live \<Longrightarrow> maximum \<le> m" "m = c \<or> live \<and> m = maximum"
    using assms by (auto simp: slide_window_def Let_def split: if_splits)
qed

lemma drop_window: "A(i := None) \<subseteq>\<^sub>m A"
  by (simp add: map_le_def)

lemma epoch_inv_accept:
  assumes "epoch_inv ro A L n" and w: "A i = Some w" "initialised w"
    and slide: "slide_window (wd_live w) (wd_maximum w) (wd_bitmap w) c = Some (m, b)"
    and m: "m \<le> rw_accepted_ceiling (wd_record w)"
    and w': "w' = w\<lparr>wd_maximum := m, wd_bitmap := b, wd_live := True\<rparr>"
  shows "(key_of w, c) \<notin> L \<and> epoch_inv ro (A(i \<mapsto> w')) (insert (key_of w, c) L) n"
proof -
  note inv = epoch_invD [OF assms(1)] and sl = slide_facts [OF slide]
  let ?A = "A(i := None)"
  have A0: "?A j = Some v \<longleftrightarrow> j \<noteq> i \<and> A j = Some v" for j v by simp
  have c: "unused w c" using w sl(3,4) m by (simp add: unused_def)
  have rec: "wd_record w' = wd_record w" by (simp add: w')
  have unused': "unused w d \<and> d \<noteq> c" if "unused w' d" for d
    using that sl(1,2) w' by (auto simp: unused_def)
  have "wd_maximum w \<le> m" using sl(5) inv(4) [OF w] by simp
  have "epoch_inv ro (?A(i \<mapsto> w')) L n"
  proof (rule epoch_inv_add [OF epoch_inv_mono [OF assms(1) drop_window order_refl]], goal_cases)
    case 1
    show ?case by simp
  next
    case 2
    show ?case using w(2) rec by simp
  next
    case 3
    show ?case by (simp add: w')
  next
    case 4
    show ?case using m by (simp add: w')
  next
    case (5 d)
    with unused' inv(6) [OF w(1)] rec show ?case by metis
  next
    case (6 j v d)
    with unused' inv(7) [OF w(1)] rec A0 show ?case by metis
  next
    case (7 j v)
    with inv(2) w(1) rec A0 show ?case by metis
  next
    case (8 r d)
    with unused' inv(9) [OF _ w(1)] rec show ?case by metis
  next
    case (9 r)
    with inv(12) [OF _ w] rec show ?case by metis
  next
    case (10 d)
    with inv(10) [OF w] rec \<open>wd_maximum w \<le> m\<close> show ?case by (auto simp: w' intro: order_trans)
  next
    case (11 j v d)
    with inv(11) [OF w, of j v d] rec A0 \<open>wd_maximum w \<le> m\<close> show ?case by (auto simp: w' intro: order_trans)
  next
    case (12 j v d)
    with unused' inv(11) [of j v i w d] w(1) rec A0 show ?case by metis
  qed
  then have "epoch_inv ro (A(i \<mapsto> w')) L n" by simp
  then have "epoch_inv ro (A(i \<mapsto> w')) (insert (key_of w, c) L) n"
  proof (rule epoch_inv_log, goal_cases)
    case (1 j v)
    then show ?case using unused' inv(7) [OF w(1), of j v c] c by (cases "j = i") auto
  next
    case (2 j v)
    then show ?case using inv(2) [of j v i w] w rec by (cases "j = i") auto
  next
    case (3 r)
    with inv(9) [OF _ w(1)] c show ?case by metis
  next
    case (4 j v)
    show ?case
    proof (cases "j = i")
      case True
      with 4(1) have "v = w'" by simp
      with sl(4) show ?thesis by (simp add: w')
    next
      case False
      with 4 inv(11) [of j v i w c] w(1) c show ?thesis by simp
    qed
  qed
  with inv(6) [OF w(1) c] show ?thesis by blast
qed

text \<open>After a commit the committing window owns the record.\<close>

lemma epoch_inv_own:
  assumes "epoch_inv (Some r) A L n" "A i = None"
    and w: "initialised w" "wd_live w" "wd_record w = r" "wd_maximum w \<le> rw_accepted_ceiling r" "c \<le> wd_maximum w"
    and seen: "\<not> unused w c"
    and log: "\<And>d. unused w d \<Longrightarrow> (key_of w, d) \<notin> L" "\<And>d. (key_of w, d) \<in> L \<Longrightarrow> d \<le> wd_maximum w"
    and others: "\<And>j v d. A j = Some v \<Longrightarrow> key_of v = key_of w \<Longrightarrow> unused v d \<Longrightarrow>
      \<not> unused w d \<and> d \<le> wd_maximum w \<and> d \<noteq> c"
    and stale: "\<And>j v. A j = Some v \<Longrightarrow> initialised v \<Longrightarrow> wd_record v \<noteq> r"
  shows "epoch_inv (Some r) (A(i \<mapsto> w)) (insert (key_of w, c) L) n"
proof -
  have "epoch_inv (Some r) (A(i \<mapsto> w)) L n"
  proof (rule epoch_inv_add [OF assms(1,2) w(1,2)], goal_cases)
    case 1
    show ?case using w(3,4) by simp
  next
    case (2 d)
    then show ?case by (rule log(1))
  next
    case (3 j v d)
    with others [of j v d] show ?case by blast
  next
    case (4 j v)
    then show ?case using w(3) by (auto simp: record_of_def)
  next
    case (5 ra d)
    then show ?case using w(3) by (simp add: unused_def)
  next
    case (6 ra)
    then show ?case using w(3) by simp
  next
    case (7 d)
    then show ?case by (intro log(2))
  next
    case (8 j v d)
    with others [of j v d] show ?case by blast
  next
    case (9 j v d)
    with stale [of j v] show ?case by simp
  qed
  then show ?thesis
  proof (rule epoch_inv_log, goal_cases)
    case (1 j v)
    then show ?case using others [of j v c] seen by (cases "j = i") auto
  next
    case (2 j v)
    then show ?case using w(3) by (auto simp: record_of_def)
  next
    case (3 ra)
    then show ?case using w(4,5) by simp
  next
    case (4 j v)
    show ?case
    proof (cases "j = i")
      case True
      with 4(1) w(5) show ?thesis by simp
    next
      case False
      with 4 stale [of j v] show ?thesis by simp
    qed
  qed
qed

lemma epoch_inv_commit:
  assumes "epoch_inv (Some (wd_record w)) A L n" and n: "Suc n < 2 ^ 32" and w: "A i = Some w" "initialised w"
    and slide: "slide_window (wd_live w) (wd_maximum w) (wd_bitmap w) c = Some (m, b)"
    and need: "rw_accepted_ceiling (wd_record w) < m" and ceil: "m \<le> ceiling"
    and w': "w' = w\<lparr>wd_record := ceiling_record w ceiling, wd_maximum := m, wd_bitmap := b, wd_live := True\<rparr>"
  shows "(key_of w, c) \<notin> L"
    and "epoch_inv (Some (ceiling_record w ceiling)) (A(i \<mapsto> w')) (insert (key_of w, c) L) (Suc n)"
    and "epoch_inv (Some (ceiling_record w ceiling)) A L (Suc n)"
proof -
  let ?r = "ceiling_record w ceiling" and ?A = "A(i := None)" and ?old = "rw_accepted_ceiling (wd_record w)"
  note inv = epoch_invD [OF assms(1)] and sl = slide_facts [OF slide]
  have A0: "?A j = Some v \<longleftrightarrow> j \<noteq> i \<and> A j = Some v" for j v by simp
  have m: "m = c" using sl(6) inv(5) [OF w] need by auto
  have log: "d \<le> ?old" if "(key_of w, d) \<in> L" for d using inv(8) [OF refl that] .
  have unu: "d \<le> ?old" if "A j = Some v" "key_of v = key_of w" "unused v d" for j v d
    using inv(9) [OF refl that] .
  have up: "?old \<le> ceiling" "?old < c" using need ceil m by auto
  have older: "unused w d" if "unused w' d" "d \<le> ?old" for d
    using that sl(2) w(2) by (auto simp: unused_def w')
  show out: "(key_of w, c) \<notin> L" using log [of c] up(2) by auto
  show "epoch_inv (Some ?r) A L (Suc n)"
    by (rule epoch_inv_rewrite [OF assms(1) n]) (auto intro: order_trans [OF log up(1)] order_trans [OF unu up(1)])
  have "epoch_inv (Some ?r) ?A L (Suc n)"
    by (rule epoch_inv_rewrite [OF epoch_inv_mono [OF assms(1) drop_window order_refl] n])
      (auto intro: order_trans [OF log up(1)] order_trans [OF unu up(1)] split: if_splits)
  then have "epoch_inv (Some ?r) (?A(i \<mapsto> w')) (insert (key_of w', c) L) (Suc n)"
  proof (rule epoch_inv_own, goal_cases)
    case (7 )
    then show ?case using sl(1) by (simp add: unused_def w')
  next
    case (8 d)
    with older [of d] log [of d] inv(6) [OF w(1), of d] show ?case by (auto simp: w')
  next
    case (9 d)
    with log [of d] up(2) m show ?case by (auto simp: w')
  next
    case (10 j v d)
    then have "A j = Some v" "j \<noteq> i" "key_of v = key_of w" using A0 by (auto simp: w')
    with unu [of j v d] 10(3) older [of d] inv(7) [OF w(1), of j v d] up(2) m show ?case by (auto simp: w')
  next
    case (11 j v)
    with epoch_inv_stale(1) [OF assms(1) n, of ?r j v] A0 show ?case by simp
  qed (use ceil m in \<open>simp_all add: w'\<close>)
  then show "epoch_inv (Some ?r) (A(i \<mapsto> w')) (insert (key_of w, c) L) (Suc n)" by (simp add: w')
qed

lemma epoch_inv_first:
  assumes "epoch_inv ro A L n" and w: "A i = Some w" "\<not> initialised w" "\<not> record_of ro (key_of w)"
    and slide: "slide_window (wd_live w) (wd_maximum w) (wd_bitmap w) c = Some (m, b)" and ceil: "m \<le> ceiling"
    and w': "w' = w\<lparr>wd_record := ceiling_record w ceiling, wd_maximum := m, wd_bitmap := b, wd_live := True\<rparr>"
  shows "(key_of w, c) \<notin> L"
    and "epoch_inv (Some (ceiling_record w ceiling)) (A(i \<mapsto> w')) (insert (key_of w, c) L) n"
    and "epoch_inv (Some (ceiling_record w ceiling)) A L n"
proof -
  let ?r = "ceiling_record w ceiling" and ?A = "A(i := None)"
  note inv = epoch_invD [OF assms(1)] and sl = slide_facts [OF slide]
  have A0: "?A j = Some v \<longleftrightarrow> j \<noteq> i \<and> A j = Some v" for j v by simp
  have log: "(key_of w, d) \<notin> L" for d by (rule inv(3) [OF w])
  then show "(key_of w, c) \<notin> L" .
  have alone: "key_of v \<noteq> key_of w" "initialised v" if "A j = Some v" "j \<noteq> i" for j v
    using that inv(1) [OF w(1) that(1) w(2)] inv(2) [OF w that(1)] by auto
  show "epoch_inv (Some ?r) A L n"
  proof (rule epoch_inv_rekey [OF assms(1) _ _ log])
    fix j v assume "A j = Some v"
    then show "key_of v = key_of w \<longleftrightarrow> \<not> initialised v" using alone [of j v] w by (cases "j = i") auto
  qed simp
  have "epoch_inv (Some ?r) ?A L n"
  proof (rule epoch_inv_rekey [OF epoch_inv_mono [OF assms(1) drop_window order_refl] _ _ log])
    fix j v assume "?A j = Some v"
    then show "key_of v = key_of w \<longleftrightarrow> \<not> initialised v" using alone [of j v] by (auto split: if_splits)
  qed simp
  then have "epoch_inv (Some ?r) (?A(i \<mapsto> w')) (insert (key_of w', c) L) n"
  proof (rule epoch_inv_own, goal_cases)
    case 7
    then show ?case using sl(1) by (simp add: unused_def w')
  next
    case (8 d)
    with log show ?case by (simp add: w')
  next
    case (9 d)
    with log show ?case by (simp add: w')
  next
    case (10 j v d)
    with alone [of j v] A0 show ?case by (simp add: w')
  next
    case (11 j v)
    with alone(1) [of j v] A0 show ?case by auto
  qed (use ceil sl(4) in \<open>simp_all add: w'\<close>)
  then show "epoch_inv (Some ?r) (A(i \<mapsto> w')) (insert (key_of w, c) L) n" by (simp add: w')
qed

text \<open>Closing lowers the ceiling to the maximum of the window that owns the record.\<close>

lemma epoch_inv_lower:
  assumes "epoch_inv (Some (wd_record w)) A L n" "Suc n < 2 ^ 32" and w: "A i = Some w" "initialised w"
  shows "epoch_inv (Some (ceiling_record w (wd_maximum w))) (A(i := None)) L (Suc n)"
proof (rule epoch_inv_rewrite [OF epoch_inv_mono [OF assms(1) drop_window order_refl] assms(2)], goal_cases)
  case (3 c)
  with epoch_invD(10) [OF assms(1) w refl] show ?case by simp
next
  case (4 j v c)
  with epoch_invD(11) [OF assms(1) w refl, of j v c] show ?case by (auto split: if_splits)
qed simp_all

subsection \<open>The windows of one slot\<close>

definition epoch_windows :: "(nat \<Rightarrow> ReplayWindow option) \<Rightarrow> u32 \<Rightarrow> nat \<Rightarrow> ReplayWindow option" where
  "epoch_windows A e i = (case A i of Some w \<Rightarrow> if wd_epoch w = e then Some w else None | None \<Rightarrow> None)"

definition epoch_log :: "(u32 \<times> u64 \<times> u64) set \<Rightarrow> u32 \<Rightarrow> (u64 \<times> u64) set" where
  "epoch_log L e = {(k, c). (e, k, c) \<in> L}"

text \<open>Windows and log never pass the floor; only the floor's epoch matters.\<close>

definition slot_inv ::
  "ReplayWindowRecord option \<Rightarrow> ReplayFloorRecord option \<Rightarrow> (nat \<Rightarrow> ReplayWindow option) \<Rightarrow> (u32 \<times> u64 \<times> u64) set \<Rightarrow> nat \<Rightarrow> bool" where
  "slot_inv ro fo A L n \<longleftrightarrow>
     (case fo of
        None \<Rightarrow> A = Map.empty \<and> L = {}
      | Some f \<Rightarrow> (\<forall>i w. A i = Some w \<longrightarrow> wd_epoch w \<le> rf_minimum_epoch f) \<and>
          (\<forall>e k c. (e, k, c) \<in> L \<longrightarrow> e \<le> rf_minimum_epoch f) \<and>
          epoch_inv ro (epoch_windows A (rf_minimum_epoch f)) (epoch_log L (rf_minimum_epoch f)) n)"

lemma epoch_windows_upd:
  "wd_epoch w = e \<Longrightarrow> epoch_windows (A(i \<mapsto> w)) e = (epoch_windows A e)(i \<mapsto> w)"
  "epoch_windows (A(i := None)) e = (epoch_windows A e)(i := None)"
  by (auto simp: epoch_windows_def fun_eq_iff)

lemma epoch_windows_Some: "epoch_windows A e i = Some w \<longleftrightarrow> A i = Some w \<and> wd_epoch w = e"
  by (auto simp: epoch_windows_def split: option.splits if_splits)

lemma epoch_windows_empty [simp]: "epoch_windows Map.empty e = Map.empty"
  by (simp add: epoch_windows_def fun_eq_iff)

lemma epoch_windows_None [simp]: "A i = None \<Longrightarrow> epoch_windows A e i = None"
  by (simp add: epoch_windows_def)

lemma epoch_log_insert: "epoch_log (insert (e, k, c) L) e = insert (k, c) (epoch_log L e)"
  by (auto simp: epoch_log_def)

lemma slot_inv_mono:
  assumes "slot_inv ro fo A L n" "A' \<subseteq>\<^sub>m A" "n \<le> n'"
  shows "slot_inv ro fo A' L n'"
proof (cases fo)
  case None
  with assms(1,2) show ?thesis by (auto simp: slot_inv_def map_le_def fun_eq_iff)
next
  case (Some f)
  have sub: "A' i = Some w \<Longrightarrow> A i = Some w" for i w using assms(2) by (metis map_le_def domI)
  then have "epoch_windows A' e \<subseteq>\<^sub>m epoch_windows A e" for e
    by (auto simp: map_le_def dom_def epoch_windows_Some) (simp add: epoch_windows_def)
  with Some assms sub show ?thesis by (auto simp: slot_inv_def intro: epoch_inv_mono dest!: sub)
qed

text \<open>Raising the floor retires every window and every log entry below it.\<close>

lemma slot_inv_below:
  assumes "slot_inv ro fo A L n" "\<And>f. fo = Some f \<Longrightarrow> rf_minimum_epoch f < e"
  shows "epoch_windows A e = Map.empty" "epoch_log L e = {}"
    and "A i = Some w \<Longrightarrow> wd_epoch w \<le> e" "(e', k, c) \<in> L \<Longrightarrow> e' \<le> e"
proof -
  have below: "A i = Some w \<Longrightarrow> wd_epoch w < e" "(e', k, c) \<in> L \<Longrightarrow> e' < e" for i w e' k c
    using assms by (force simp: slot_inv_def split: option.splits)+
  then show "A i = Some w \<Longrightarrow> wd_epoch w \<le> e" "(e', k, c) \<in> L \<Longrightarrow> e' \<le> e" by force+
  show "epoch_windows A e = Map.empty"
    using below(1) by (auto simp: epoch_windows_def fun_eq_iff split: option.splits)
  show "epoch_log L e = {}" using below(2) by (auto simp: epoch_log_def)
qed

lemma slot_inv_raise:
  assumes "slot_inv ro fo A L n" "\<And>f. fo = Some f \<Longrightarrow> rf_minimum_epoch f < rf_minimum_epoch f'"
  shows "slot_inv ro (Some f') A L n"
  using slot_inv_below [OF assms] by (auto simp: slot_inv_def epoch_inv_empty)

lemma opened_window_sel [simp]:
  "wd_record (opened_window c rec) = rec" "wd_slot (opened_window c rec) = floor_slot c"
  "wd_epoch (opened_window c rec) = sc_epoch c" "wd_open (opened_window c rec)"
  by (simp_all add: opened_window_def Let_def)

lemma slot_inv_open:
  assumes "slot_inv ro (Some f) A L n" "A i = None" "rf_minimum_epoch f = sc_epoch c"
    and "rw_initialized rec \<noteq> 0 \<Longrightarrow> ro = Some rec"
    and "rw_initialized rec = 0 \<Longrightarrow> epoch_windows A (sc_epoch c) = Map.empty \<and> epoch_log L (sc_epoch c) = {}"
  shows "slot_inv ro (Some f) (A(i \<mapsto> opened_window c rec)) L n"
proof -
  let ?w = "opened_window c rec" and ?A = "epoch_windows A (sc_epoch c)" and ?L = "epoch_log L (sc_epoch c)"
  have inv: "epoch_inv ro ?A ?L n" using assms(1,3) by (simp add: slot_inv_def)
  have "epoch_inv ro (?A(i \<mapsto> ?w)) ?L n"
  proof (cases "rw_initialized rec = 0")
    case True
    with assms(5) epoch_inv_fresh [of ?w ro i n] show ?thesis by simp
  next
    case False
    with inv assms(2,4) show ?thesis
      by (auto intro!: epoch_inv_open simp: opened_window_def Let_def)
  qed
  with assms(1,3) show ?thesis by (simp add: slot_inv_def epoch_windows_upd)
qed

text \<open>Accepting in the slot of the window.\<close>

lemma slot_inv_window:
  assumes "slot_inv ro (Some f) A L n" "A i = Some w" "rf_minimum_epoch f \<le> wd_epoch w"
  shows "wd_epoch w = rf_minimum_epoch f" "epoch_windows A (rf_minimum_epoch f) i = Some w"
    and "epoch_inv ro (epoch_windows A (rf_minimum_epoch f)) (epoch_log L (rf_minimum_epoch f)) n"
proof -
  have "wd_epoch w \<le> rf_minimum_epoch f" using assms(1,2) by (auto simp: slot_inv_def)
  with assms(3) show eq: "wd_epoch w = rf_minimum_epoch f" by simp
  with assms(2) show "epoch_windows A (rf_minimum_epoch f) i = Some w" by (simp add: epoch_windows_Some)
  show "epoch_inv ro (epoch_windows A (rf_minimum_epoch f)) (epoch_log L (rf_minimum_epoch f)) n"
    using assms(1) by (simp add: slot_inv_def)
qed

lemma slot_inv_replace:
  assumes "slot_inv ro (Some f) A L n" "wd_epoch w' = rf_minimum_epoch f"
    and "epoch_inv ro' ((epoch_windows A (rf_minimum_epoch f))(i \<mapsto> w')) (insert (k, c) (epoch_log L (rf_minimum_epoch f))) n'"
  shows "slot_inv ro' (Some f) (A(i \<mapsto> w')) (insert (rf_minimum_epoch f, k, c) L) n'"
  using assms by (auto simp: slot_inv_def epoch_windows_upd epoch_log_insert)

lemma slot_accept:
  assumes "slot_inv ro (Some f) A L n" "A i = Some w" "rf_minimum_epoch f \<le> wd_epoch w"
    and "slide_window (wd_live w) (wd_maximum w) (wd_bitmap w) c = Some (m, b)" "\<not> needs_ceiling w m"
    and w': "w' = w\<lparr>wd_maximum := m, wd_bitmap := b, wd_live := True\<rparr>"
  shows "(wd_epoch w, key_of w, c) \<notin> L \<and>
    slot_inv ro (Some f) (A(i \<mapsto> w')) (insert (wd_epoch w, key_of w, c) L) n"
proof -
  note at = slot_inv_window [OF assms(1-3)]
  from epoch_inv_accept [OF at(3,2) _ assms(4) _ w'] assms(5)
  have "(key_of w, c) \<notin> epoch_log L (rf_minimum_epoch f)"
    "epoch_inv ro ((epoch_windows A (rf_minimum_epoch f))(i \<mapsto> w')) (insert (key_of w, c) (epoch_log L (rf_minimum_epoch f))) n"
    by (auto simp: needs_ceiling_def not_less)
  with slot_inv_replace [OF assms(1)] at(1) show ?thesis by (auto simp: epoch_log_def w')
qed

lemma slot_commit:
  assumes "slot_inv ro (Some f) A L n" "A i = Some w" "rf_minimum_epoch f \<le> wd_epoch w" "Suc n < 2 ^ 32"
    and slide: "slide_window (wd_live w) (wd_maximum w) (wd_bitmap w) c = Some (m, b)"
    and need: "needs_ceiling w m" "m \<le> ceiling" and cas: "\<not> superseded w ro"
    and w': "w' = w\<lparr>wd_record := ceiling_record w ceiling, wd_maximum := m, wd_bitmap := b, wd_live := True\<rparr>"
  shows "(wd_epoch w, key_of w, c) \<notin> L"
    and "slot_inv (Some (ceiling_record w ceiling)) (Some f) (A(i \<mapsto> w')) (insert (wd_epoch w, key_of w, c) L) (Suc n)"
    and "slot_inv (Some (ceiling_record w ceiling)) (Some f) A L (Suc n)"
proof -
  let ?A = "epoch_windows A (rf_minimum_epoch f)" and ?L = "epoch_log L (rf_minimum_epoch f)"
  let ?r = "Some (ceiling_record w ceiling)"
  note at = slot_inv_window [OF assms(1-3)]
  have "(key_of w, c) \<notin> ?L \<and> epoch_inv ?r (?A(i \<mapsto> w')) (insert (key_of w, c) ?L) (Suc n) \<and> epoch_inv ?r ?A ?L (Suc n)"
  proof (cases "initialised w")
    case True
    with cas at(3) have "epoch_inv (Some (wd_record w)) ?A ?L n" by (simp add: superseded_def)
    from epoch_inv_commit [OF this assms(4) at(2) True slide _ need(2) w'] need(1) True
    show ?thesis by (simp add: needs_ceiling_def)
  next
    case False
    with cas have "\<not> record_of ro (key_of w)" by (auto simp: superseded_def record_of_def)
    from epoch_inv_first [OF at(3,2) _ this slide need(2) w'] False show ?thesis
      by (auto intro: epoch_inv_mono [OF _ map_le_refl])
  qed
  with slot_inv_replace [OF assms(1)] at(1) assms(1) show "(wd_epoch w, key_of w, c) \<notin> L"
    and "slot_inv ?r (Some f) (A(i \<mapsto> w')) (insert (wd_epoch w, key_of w, c) L) (Suc n)"
    and "slot_inv ?r (Some f) A L (Suc n)" by (auto simp: epoch_log_def w' slot_inv_def)
qed

lemma slot_close:
  assumes "slot_inv ro (Some f) A L n" "A i = Some w" "rf_minimum_epoch f \<le> wd_epoch w" "Suc n < 2 ^ 32"
    and "initialised w" "\<not> superseded w ro"
  shows "slot_inv (Some (ceiling_record w (wd_maximum w))) (Some f) (A(i := None)) L (Suc n)"
proof -
  note at = slot_inv_window [OF assms(1-3)]
  have "epoch_inv (Some (wd_record w)) (epoch_windows A (rf_minimum_epoch f)) (epoch_log L (rf_minimum_epoch f)) n"
    using assms(5,6) at(3) by (simp add: superseded_def)
  from epoch_inv_lower [OF this assms(4) at(2) assms(5)] assms(1) show ?thesis
    by (auto simp: slot_inv_def epoch_windows_upd)
qed

subsection \<open>Worlds\<close>

text \<open>
  One guard, RAM windows by index, and the log of accepted counters with the slot, epoch and
  fingerprint of their window, latest first. A restart loses the windows and keeps the store.
\<close>

record 's replay_world =
  rwd_guard :: "'s ReplayGuard"
  rwd_windows :: "nat \<Rightarrow> ReplayWindow"
  rwd_log :: "(u32 \<times> u32 \<times> u64 \<times> u64) list"

datatype replay_op =
  Op_open nat SecurityContext | Op_accept nat u64 | Op_close nat | Op_check_floor SecurityContext | Op_restart

primrec replay_step :: "'s ReplayStore \<Rightarrow> replay_op \<Rightarrow> 's replay_world \<Rightarrow> 's replay_world" where
  "replay_step st (Op_open i context) x =
     (let (r, g) = open_context st context (rwd_guard x)
      in x\<lparr>rwd_guard := g, rwd_windows := (rwd_windows x)(i := case r of Inr w \<Rightarrow> w | Inl _ \<Rightarrow> ReplayWindow_new)\<rparr>)"
| "replay_step st (Op_accept i c) x =
     (let w = rwd_windows x i; (r, g) = replay_accept st w c (rwd_guard x)
      in case r of
           Inr w' \<Rightarrow> x\<lparr>rwd_guard := g, rwd_windows := (rwd_windows x)(i := w'),
             rwd_log := (wd_slot w, wd_epoch w, key_of w, c) # rwd_log x\<rparr>
         | Inl _ \<Rightarrow> x\<lparr>rwd_guard := g\<rparr>)"
| "replay_step st (Op_close i) x =
     (let (r, g) = close_context st (rwd_windows x i) (rwd_guard x)
      in x\<lparr>rwd_guard := g, rwd_windows := (rwd_windows x)(i := ReplayWindow_new)\<rparr>)"
| "replay_step st (Op_check_floor context) x = x\<lparr>rwd_guard := snd (check_floor st context (rwd_guard x))\<rparr>"
| "replay_step st Op_restart x = x\<lparr>rwd_windows := (\<lambda>_. ReplayWindow_new)\<rparr>"

definition at_slot :: "(nat \<Rightarrow> ReplayWindow) \<Rightarrow> u32 \<Rightarrow> nat \<Rightarrow> ReplayWindow option" where
  "at_slot ws s i = (if wd_open (ws i) \<and> wd_slot (ws i) = s then Some (ws i) else None)"

definition slot_log :: "(u32 \<times> u32 \<times> u64 \<times> u64) list \<Rightarrow> u32 \<Rightarrow> (u32 \<times> u64 \<times> u64) set" where
  "slot_log log s = {x. (s, x) \<in> set log}"

lemma at_slot_upd:
  "at_slot (ws(i := w)) s = (at_slot ws s)(i := if wd_open w \<and> wd_slot w = s then Some w else None)"
  by (auto simp: at_slot_def fun_eq_iff)

lemma slot_log_Cons: "slot_log ((s', x) # log) s = (if s = s' then insert x (slot_log log s) else slot_log log s)"
  by (auto simp: slot_log_def)

lemma ReplayWindow_new_closed [simp]: "\<not> wd_open ReplayWindow_new"
  by (simp add: ReplayWindow_new_def)

context replay_store
begin

definition world_inv :: "'s replay_world \<Rightarrow> nat \<Rightarrow> bool" where
  "world_inv x n \<longleftrightarrow> distinct (rwd_log x) \<and>
     (\<forall>s. slot_inv (W (rwd_guard x) s) (F (rwd_guard x) s) (at_slot (rwd_windows x) s) (slot_log (rwd_log x) s) n)"

lemma floor_step_inv:
  assumes "floor_step c g g'" "slot_inv (W g s) (F g s) A L n"
  shows "slot_inv (W g' s) (F g' s) A L n"
proof (cases "F g' = F g \<or> s \<noteq> floor_slot c")
  case True
  with assms show ?thesis by (auto simp: floor_step_def)
next
  case False
  with assms(1) have "W g' = W g" "F g' s = Some (raised_floor c (F g s))" "\<And>f. F g s = Some f \<Longrightarrow> rf_minimum_epoch f < sc_epoch c"
    by (auto simp: floor_step_def)
  with slot_inv_raise [OF assms(2), of "raised_floor c (F g s)"] show ?thesis by simp
qed

lemma close_index:
  "slot_inv ro fo (at_slot ws s) L n \<Longrightarrow> \<not> (wd_open w \<and> wd_slot w = s) \<Longrightarrow> slot_inv ro fo (at_slot (ws(i := w)) s) L (Suc n)"
  by (rule slot_inv_mono) (auto simp: at_slot_upd drop_window)

lemma world_open:
  assumes "world_inv x n"
  shows "world_inv (replay_step st (Op_open i c) x) (Suc n)"
proof -
  obtain r g where op: "open_context st c (rwd_guard x) = (r, g)" by fastforce
  note step = open_context_effect [OF op]
  let ?ws = "rwd_windows x" and ?L = "slot_log (rwd_log x)"
  let ?w = "case r of Inr w \<Rightarrow> w | Inl _ \<Rightarrow> ReplayWindow_new"
  have inv: "slot_inv (W g s) (F g s) (at_slot ?ws s) (?L s) n" for s
    using assms by (intro floor_step_inv [OF step]) (simp add: world_inv_def)
  have "slot_inv (W g s) (F g s) (at_slot (?ws(i := ?w)) s) (?L s) (Suc n)" for s
  proof (cases "wd_open ?w \<and> wd_slot ?w = s")
    case False
    then show ?thesis by (rule close_index [OF inv])
  next
    case True
    then obtain w where r: "r = Inr w" by (cases r) auto
    from open_context_done [OF op [unfolded r]] obtain f rec where
      f: "F g (floor_slot c) = Some f" "rf_minimum_epoch f = sc_epoch c" and w: "w = opened_window c rec"
      and rec: "if rw_initialized rec \<noteq> 0 then W (rwd_guard x) (floor_slot c) = Some rec
        else \<forall>f. F (rwd_guard x) (floor_slot c) = Some f \<longrightarrow> rf_minimum_epoch f < sc_epoch c" by blast
    have s: "s = floor_slot c" using True r w by simp
    have old: "slot_inv (W (rwd_guard x) s) (F (rwd_guard x) s) ((at_slot ?ws s)(i := None)) (?L s) n"
      using assms by (intro slot_inv_mono [OF _ drop_window]) (auto simp: world_inv_def)
    have "slot_inv (W g s) (Some f) ((at_slot ?ws s)(i := None)) (?L s) n"
      using slot_inv_mono [OF inv [of s] drop_window order_refl] f s by simp
    then have "slot_inv (W g s) (Some f) (((at_slot ?ws s)(i := None))(i \<mapsto> opened_window c rec)) (?L s) n"
    proof (rule slot_inv_open [OF _ _ f(2)], goal_cases)
      case 2
      then show ?case using rec step s by (simp add: floor_step_def)
    next
      case 3
      then show ?case using slot_inv_below(1,2) [OF old, of "sc_epoch c"] rec s by simp
    qed simp
    then show ?thesis using slot_inv_mono [OF _ map_le_refl, of _ _ _ _ n "Suc n"] r w s f(1) by (simp add: at_slot_upd)
  qed
  then show ?thesis using assms by (simp add: world_inv_def op)
qed

lemma at_slot_own: "wd_open (ws i) \<Longrightarrow> at_slot ws (wd_slot (ws i)) i = Some (ws i)"
  by (simp add: at_slot_def)

lemma at_slot_other: "wd_slot (ws i) = wd_slot w \<Longrightarrow> wd_slot w \<noteq> s \<Longrightarrow> at_slot (ws(i := w)) s = at_slot ws s"
  by (auto simp: at_slot_def fun_eq_iff)

lemma world_accept:
  assumes "world_inv x n" "Suc n < 2 ^ 32"
  shows "world_inv (replay_step st (Op_accept i c) x) (Suc n)"
proof -
  let ?g = "rwd_guard x" and ?ws = "rwd_windows x" and ?L = "slot_log (rwd_log x)"
  let ?w = "?ws i"
  let ?s = "wd_slot ?w" and ?x = "(wd_epoch ?w, key_of ?w, c)"
  obtain r g where acc: "replay_accept st ?w c ?g = (r, g)" by fastforce
  note eff = replay_accept_effect [OF acc]
  have inv: "slot_inv (W ?g s) (F ?g s) (at_slot ?ws s) (?L s) n" for s using assms(1) by (simp add: world_inv_def)
  have later: "slot_inv ro fo A L n \<Longrightarrow> slot_inv ro fo A L (Suc n)" for ro fo A L
    by (rule slot_inv_mono [OF _ map_le_refl]) auto
  have other: "slot_inv (W g s) (F g s) (at_slot ?ws s) (?L s) (Suc n)" if "s \<noteq> ?s" for s
    using eff that later [OF inv [of s]] by (auto simp: ceiling_step_def)
  show ?thesis
  proof (cases r)
    case (Inl e)
    have "slot_inv (W g ?s) (F g ?s) (at_slot ?ws ?s) (?L ?s) (Suc n)"
    proof (cases "W g = W ?g")
      case True
      with eff later [OF inv [of ?s]] show ?thesis by simp
    next
      case False
      with eff obtain m b ceiling where ad: "admits ?g ?w c m b" and need: "needs_ceiling ?w m" "m \<le> ceiling"
        and cs: "ceiling_step ?w ceiling ?g g" by blast
      from ad obtain f where f: "F ?g ?s = Some f" "rf_minimum_epoch f \<le> wd_epoch ?w" "wd_open ?w"
        "slide_window (wd_live ?w) (wd_maximum ?w) (wd_bitmap ?w) c = Some (m, b)" by (auto simp: admits_def)
      have "slot_inv (W ?g ?s) (Some f) (at_slot ?ws ?s) (?L ?s) n" using inv [of ?s] f(1) by simp
      from slot_commit(3) [OF this at_slot_own [of ?ws i, OF f(3)] f(2) assms(2) f(4) need _ refl] cs eff f(1)
      show ?thesis by (simp add: ceiling_step_def)
    qed
    with other have "slot_inv (W g s) (F g s) (at_slot ?ws s) (?L s) (Suc n)" for s by (cases "s = ?s") auto
    then show ?thesis using assms(1) acc Inl by (simp add: world_inv_def Let_def)
  next
    case (Inr w')
    with eff obtain m b where ad: "admits ?g ?w c m b" and res: "if needs_ceiling ?w m
        then \<exists>ceiling. m \<le> ceiling \<and> ceiling_step ?w ceiling ?g g \<and>
          w' = ?w\<lparr>wd_record := ceiling_record ?w ceiling, wd_maximum := m, wd_bitmap := b, wd_live := True\<rparr>
        else W g = W ?g \<and> w' = ?w\<lparr>wd_maximum := m, wd_bitmap := b, wd_live := True\<rparr>" by blast
    from ad obtain f where f: "F ?g ?s = Some f" "rf_minimum_epoch f \<le> wd_epoch ?w" "wd_open ?w"
      "slide_window (wd_live ?w) (wd_maximum ?w) (wd_bitmap ?w) c = Some (m, b)" by (auto simp: admits_def)
    have old: "slot_inv (W ?g ?s) (Some f) (at_slot ?ws ?s) (?L ?s) n" using inv [of ?s] f(1) by simp
    note own = at_slot_own [of ?ws i, OF f(3)]
    have same: "wd_slot w' = ?s" "wd_open w'" using res f(3) by (auto split: if_splits)
    have "?x \<notin> ?L ?s \<and> slot_inv (W g ?s) (F g ?s) ((at_slot ?ws ?s)(i \<mapsto> w')) (insert ?x (?L ?s)) (Suc n)"
    proof (cases "needs_ceiling ?w m")
      case True
      with res obtain ceiling where ceil: "m \<le> ceiling" and cs: "ceiling_step ?w ceiling ?g g"
        and w': "w' = ?w\<lparr>wd_record := ceiling_record ?w ceiling, wd_maximum := m, wd_bitmap := b, wd_live := True\<rparr>" by auto
      from slot_commit(1,2) [OF old own f(2) assms(2) f(4) True ceil _ w'] cs eff f(1)
      show ?thesis by (simp add: ceiling_step_def)
    next
      case False
      with res have "W g = W ?g" "w' = ?w\<lparr>wd_maximum := m, wd_bitmap := b, wd_live := True\<rparr>" by auto
      with slot_accept [OF old own f(2,4) False] eff f(1) later show ?thesis by simp
    qed
    moreover have "?x \<notin> ?L ?s \<longleftrightarrow> (?s, ?x) \<notin> set (rwd_log x)" by (simp add: slot_log_def)
    moreover have "slot_inv (W g s) (F g s) (at_slot (?ws(i := w')) s) (?L s) (Suc n)" if "s \<noteq> ?s" for s
      using other [OF that] at_slot_other [of ?ws i w' s] same(1) that by simp
    ultimately show ?thesis
      using assms(1) acc Inr same by (auto simp: world_inv_def Let_def slot_log_Cons at_slot_upd)
  qed
qed

lemma world_close:
  assumes "world_inv x n" "Suc n < 2 ^ 32"
  shows "world_inv (replay_step st (Op_close i) x) (Suc n)"
proof -
  let ?g = "rwd_guard x" and ?ws = "rwd_windows x" and ?L = "slot_log (rwd_log x)"
  let ?w = "?ws i"
  obtain r g where cl: "close_context st ?w ?g = (r, g)" by fastforce
  note eff = close_context_effect [OF cl]
  have inv: "slot_inv (W ?g s) (F ?g s) (at_slot ?ws s) (?L s) n" for s using assms(1) by (simp add: world_inv_def)
  have "slot_inv (W g s) (F g s) (at_slot (?ws(i := ReplayWindow_new)) s) (?L s) (Suc n)" for s
  proof (cases "W g s = W ?g s")
    case True
    with close_index [OF inv [of s], of ReplayWindow_new i] eff show ?thesis by auto
  next
    case False
    with eff obtain f where f: "wd_open ?w" "initialised ?w" "F ?g (wd_slot ?w) = Some f" "rf_minimum_epoch f \<le> wd_epoch ?w"
      and cs: "ceiling_step ?w (wd_maximum ?w) ?g g" and s: "s = wd_slot ?w"
      by (auto simp: ceiling_step_def split: if_splits)
    have "slot_inv (W ?g s) (Some f) (at_slot ?ws s) (?L s) n" using inv [of s] f(3) s by simp
    from slot_close [OF this _ f(4) assms(2) f(2)] at_slot_own [of ?ws i, OF f(1)] cs eff f(3) s
    show ?thesis by (simp add: ceiling_step_def at_slot_upd)
  qed
  then show ?thesis using assms(1) by (simp add: world_inv_def cl)
qed

lemma world_step:
  assumes "world_inv x n" "Suc n < 2 ^ 32"
  shows "world_inv (replay_step st opn x) (Suc n)"
proof (cases opn)
  case (Op_check_floor c)
  obtain r g where "check_floor st c (rwd_guard x) = (r, g)" by fastforce
  with Op_check_floor have step: "replay_step st opn x = x\<lparr>rwd_guard := g\<rparr>" "floor_step c (rwd_guard x) g"
    by (simp_all add: check_floor_effect)
  have "slot_inv (W g s) (F g s) (at_slot (rwd_windows x) s) (slot_log (rwd_log x) s) (Suc n)" for s
  proof (rule floor_step_inv [OF step(2)])
    have "slot_inv (W (rwd_guard x) s) (F (rwd_guard x) s) (at_slot (rwd_windows x) s) (slot_log (rwd_log x) s) n"
      using assms(1) by (simp add: world_inv_def)
    then show "slot_inv (W (rwd_guard x) s) (F (rwd_guard x) s) (at_slot (rwd_windows x) s) (slot_log (rwd_log x) s) (Suc n)"
      by (rule slot_inv_mono) auto
  qed
  with assms(1) show ?thesis by (simp add: world_inv_def step(1))
next
  case Op_restart
  have "at_slot (\<lambda>_. ReplayWindow_new) s = Map.empty" for s by (simp add: at_slot_def fun_eq_iff)
  with Op_restart assms(1) show ?thesis by (auto simp: world_inv_def intro: slot_inv_mono)
qed (use assms world_open world_accept world_close in simp_all)

lemma run_inv:
  "length ops < 2 ^ 32 \<Longrightarrow> rwd_windows x = (\<lambda>_. ReplayWindow_new) \<Longrightarrow> rwd_log x = [] \<Longrightarrow>
   world_inv (foldr (replay_step st) ops x) (length ops)"
proof (induction ops)
  case Nil
  have "at_slot (\<lambda>_. ReplayWindow_new) s = Map.empty" "slot_log [] s = {}" for s
    by (simp_all add: at_slot_def slot_log_def fun_eq_iff)
  with Nil show ?case by (simp add: world_inv_def slot_inv_def epoch_log_def epoch_inv_empty split: option.split)
next
  case (Cons opn ops)
  then show ?case using world_step [of "foldr (replay_step st) ops x" "length ops" opn] by simp
qed

end

subsection \<open>A store with scripted faults\<close>

text \<open>
  A store that keeps the contract: each call takes the next entry of a script, and \<open>Some (e, landed)\<close>
  makes it fail with \<open>e\<close>, a commit having been written or not.
\<close>

record replay_medium =
  md_windows :: "u32 \<Rightarrow> ReplayWindowRecord option"
  md_floors :: "u32 \<Rightarrow> ReplayFloorRecord option"
  md_faults :: "(status \<times> bool) option list"

definition medium_load :: "(replay_medium \<Rightarrow> 'a) \<Rightarrow> (replay_medium, 'a) prog" where
  "medium_load get s =
     (case md_faults s of
        Some (e, _) # fs \<Rightarrow> (Inl e, s\<lparr>md_faults := fs\<rparr>)
      | None # fs \<Rightarrow> (Inr (get s), s\<lparr>md_faults := fs\<rparr>)
      | [] \<Rightarrow> (Inr (get s), s))"

definition medium_commit :: "(replay_medium \<Rightarrow> replay_medium) \<Rightarrow> (replay_medium, unit) prog" where
  "medium_commit put s =
     (case md_faults s of
        Some (e, landed) # fs \<Rightarrow> (Inl e, (if landed then put s else s)\<lparr>md_faults := fs\<rparr>)
      | None # fs \<Rightarrow> (Inr (), (put s)\<lparr>md_faults := fs\<rparr>)
      | [] \<Rightarrow> (Inr (), put s))"

definition medium_store :: "replay_medium ReplayStore" where
  "medium_store = \<lparr>
     rs_load_window = (\<lambda>slot. medium_load (\<lambda>s. md_windows s slot)),
     rs_commit_window = (\<lambda>slot rec. medium_commit (\<lambda>s. s\<lparr>md_windows := (md_windows s)(slot \<mapsto> rec)\<rparr>)),
     rs_load_floor = (\<lambda>slot. medium_load (\<lambda>s. md_floors s slot)),
     rs_commit_floor = (\<lambda>slot f. medium_commit (\<lambda>s. s\<lparr>md_floors := (md_floors s)(slot \<mapsto> f)\<rparr>))\<rparr>"

interpretation medium: replay_store medium_store md_windows md_floors
  by unfold_locales
    (auto simp: medium_store_def medium_load_def medium_commit_def split: list.splits option.splits prod.splits if_splits)

subsection \<open>Properties\<close>

definition replay_start :: "'s \<Rightarrow> u32 \<Rightarrow> 's replay_world" where
  "replay_start s ahead = \<lparr>rwd_guard = \<lparr>rg_store = s, rg_reservation_ahead = ahead, rg_foreign_rejects = 0\<rparr>,
     rwd_windows = (\<lambda>_. ReplayWindow_new), rwd_log = []\<rparr>"

definition example_peer :: SecurityContext where
  "example_peer = \<lparr>sc_scope = Scope_Link, sc_network = 1, sc_sender = 2, sc_receiver = 3, sc_epoch = 1,
     sc_group_epoch = 0, sc_sender_boot = 0, sc_group_id = 0\<rparr>"

definition example_calls :: "replay_op list" where
  "example_calls = [Op_accept 1 70, Op_accept 1 7, Op_open 1 example_peer, Op_restart, Op_accept 0 7, Op_accept 0 7,
     Op_open 0 example_peer]"

text \<open>C5: No security counter is accepted twice. Take any store that keeps the documented contract,
  with any contents, and any sequence of fewer than \<open>2 ^ 32\<close> calls that open contexts into RAM
  windows, accept counters, close windows, check floors or restart the node and lose every
  window, on one or many windows per context, with any call of the store failing at any point
  and failed commits landing or not. Then no counter is accepted twice for the same slot, epoch
  and context fingerprint. The calls are listed latest first.\<close>

theorem replay_accept_once:
  assumes "replay_store st stored floors" "length ops < 2 ^ 32"
  shows "distinct (rwd_log (foldr (replay_step st) ops (replay_start s ahead)))"
proof -
  from replay_store.run_inv [OF assms, of "replay_start s ahead"] show ?thesis
    by (simp add: replay_store.world_inv_def [OF assms(1)] replay_start_def)
qed

theorem replay_accept_once_witness:
  "distinct (rwd_log (foldr (replay_step medium_store) example_calls
     (replay_start \<lparr>md_windows = Map.empty, md_floors = Map.empty, md_faults = []\<rparr> 64)))"
  by (rule replay_accept_once [OF medium.replay_store_axioms]) (simp add: example_calls_def)

end
