(* ===== verification/Counter_Lease.thy ===== *)
theory Counter_Lease
  imports Replay_Guard Fixed_Pool
begin

text \<open>
  Outgoing counters: \<^verbatim>\<open>src/counter_store.cpp\<close> and \<^verbatim>\<open>include/routeloom/counter_store.hpp\<close>. A lease reserves
  blocks of counters durably before it issues them; the checkpoint cache lets a lease that was
  evicted from RAM continue inside its block. The abstract class \<^verbatim>\<open>CounterStore\<close> is a record of its
  virtual functions over a store state of any type.
\<close>

subsection \<open>Records\<close>

record CounterRecord =
  cr_context_id :: u32
  cr_key_epoch :: u32
  cr_direction :: u8
  cr_layout :: u8
  cr_reserved :: bytes
  cr_high_water_exclusive :: u64
  cr_generation :: u32
  cr_crc :: u32

definition CounterRecord_new :: CounterRecord where
  "CounterRecord_new = \<lparr>cr_context_id = 0, cr_key_epoch = 0, cr_direction = 0, cr_layout = 0,
     cr_reserved = replicate 6 0, cr_high_water_exclusive = 0, cr_generation = 0, cr_crc = 0\<rparr>"

abbreviation kCounterRecordLayout :: u8 where "kCounterRecordLayout \<equiv> 2"

definition counter_record_crc :: "CounterRecord \<Rightarrow> u32" where
  "counter_record_crc r = crc32_iso_hdlc (put_le 4 (cr_context_id r) @ put_le 4 (cr_key_epoch r) @
     [cr_direction r, cr_layout r] @ cr_reserved r @ put_le 8 (cr_high_water_exclusive r) @
     put_le 4 (cr_generation r))"

definition counter_record_intact :: "CounterRecord \<Rightarrow> bool" where
  "counter_record_intact r \<longleftrightarrow> cr_crc r = counter_record_crc r \<and> cr_layout r = kCounterRecordLayout"

record 's CounterStore =
  cs_load :: "u32 \<Rightarrow> ('s, CounterRecord option) prog"
  cs_commit :: "u32 \<Rightarrow> CounterRecord \<Rightarrow> ('s, unit) prog"

record CounterLeaseCheckpoint =
  cp_slot :: u32
  cp_context_id :: u32
  cp_key_epoch :: u32
  cp_direction :: u8
  cp_cursor :: u64
  cp_end :: u64
  cp_generation :: u32

definition same_lease_identity :: "CounterLeaseCheckpoint \<Rightarrow> CounterLeaseCheckpoint \<Rightarrow> bool" where
  "same_lease_identity left right \<longleftrightarrow> cp_slot left = cp_slot right \<and> cp_context_id left = cp_context_id right \<and>
     cp_key_epoch left = cp_key_epoch right \<and> cp_direction left = cp_direction right"

subsection \<open>The lease\<close>

record CounterLease =
  cl_slot :: u32
  cl_context_id :: u32
  cl_key_epoch :: u32
  cl_direction :: u8
  cl_block_size :: u32
  cl_cursor :: u64
  cl_end :: u64
  cl_generation :: u32
  cl_initialized :: bool

definition CounterLease_new :: "u32 \<Rightarrow> u32 \<Rightarrow> u32 \<Rightarrow> u8 \<Rightarrow> u32 \<Rightarrow> CounterLease" where
  "CounterLease_new slot context_id key_epoch direction block_size =
     \<lparr>cl_slot = slot, cl_context_id = context_id, cl_key_epoch = key_epoch, cl_direction = direction,
      cl_block_size = block_size, cl_cursor = 0, cl_end = 0, cl_generation = 0, cl_initialized = False\<rparr>"

text \<open>The programs below run on the lease and the store it refers to.\<close>

type_synonym ('s, 'a) lease_prog = "(CounterLease \<times> 's, 'a) prog"

definition lease_load :: "'s CounterStore \<Rightarrow> ('s, CounterRecord option) lease_prog" where
  "lease_load st = (\<lambda>(l, s). let (r, s) = cs_load st (cl_slot l) s in (r, l, s))"

definition lease_initialize :: "'s CounterStore \<Rightarrow> ('s, unit) lease_prog" where
  "lease_initialize st = (\<lambda>x.
     if cl_block_size (fst x) = 0 then (Inl (Error InvalidArgument ''counter block size is zero''), x)
     else seq (lease_load st) (\<lambda>found (l, s).
       case found of
         None \<Rightarrow> (Inr (), l\<lparr>cl_initialized := True\<rparr>, s)
       | Some rec \<Rightarrow>
           if cr_crc rec \<noteq> counter_record_crc rec
           then (Inl (Error IntegrityError ''counter record integrity check failed''), l, s)
           else if cr_layout rec \<noteq> kCounterRecordLayout
           then (Inl (Error IntegrityError ''counter record layout is not Wire v2''), l, s)
           else if cr_context_id rec \<noteq> cl_context_id l \<or> cr_direction rec \<noteq> cl_direction l
           then (Inl (Error Conflict ''counter store context mismatch''), l, s)
           else if cl_key_epoch l < cr_key_epoch rec
           then (Inl (Error Conflict ''counter store epoch regression''), l, s)
           else (let l = (if cr_key_epoch rec = cl_key_epoch l
                          then l\<lparr>cl_cursor := cr_high_water_exclusive rec, cl_end := cr_high_water_exclusive rec\<rparr> else l)
                 in (Inr (), l\<lparr>cl_generation := cr_generation rec, cl_initialized := True\<rparr>, s))) x)"

definition lease_checkpoint :: "CounterLease \<Rightarrow> CounterLeaseCheckpoint" where
  "lease_checkpoint l = \<lparr>cp_slot = cl_slot l, cp_context_id = cl_context_id l, cp_key_epoch = cl_key_epoch l,
     cp_direction = cl_direction l, cp_cursor = cl_cursor l, cp_end = cl_end l, cp_generation = cl_generation l\<rparr>"

definition lease_resume :: "'s CounterStore \<Rightarrow> CounterLeaseCheckpoint \<Rightarrow> ('s, unit) lease_prog" where
  "lease_resume st cp =
     seq (lease_initialize st) (\<lambda>_ (l, s).
       (Inr (), if same_lease_identity (lease_checkpoint l) cp \<and> cp_cursor cp < cp_end cp \<and> cl_end l \<noteq> 0 \<and>
                   cl_end l = cp_end cp \<and> cl_generation l = cp_generation cp
                then l\<lparr>cl_cursor := cp_cursor cp\<rparr> else l, s))"

text \<open>
  \<^verbatim>\<open>reserve_block\<close>: check the persisted record and adopt a newer water mark, then commit the next
  block. What was adopted stays adopted when the commit fails.
\<close>

definition adopt_mark :: "CounterRecord option \<Rightarrow> ('s, unit) lease_prog" where
  "adopt_mark persisted = (\<lambda>(l, s).
     case persisted of
       None \<Rightarrow> (Inr (), l, s)
     | Some p \<Rightarrow>
         if cr_crc p \<noteq> counter_record_crc p
         then (Inl (Error IntegrityError ''counter record integrity check failed''), l, s)
         else if cr_layout p \<noteq> kCounterRecordLayout
         then (Inl (Error IntegrityError ''counter record layout is not Wire v2''), l, s)
         else if cl_key_epoch l < cr_key_epoch p
         then (Inl (Error Conflict ''counter slot superseded by newer epoch''), l, s)
         else if cr_key_epoch p = cl_key_epoch l \<and> cl_end l < cr_high_water_exclusive p
         then (Inr (), l\<lparr>cl_cursor := cr_high_water_exclusive p, cl_end := cr_high_water_exclusive p,
                         cl_generation := cr_generation p\<rparr>, s)
         else if cr_key_epoch p = cl_key_epoch l \<and> cr_high_water_exclusive p < cl_end l
         then (Inl (Error IntegrityError ''counter record rewound''), l, s)
         else (Inr (), l, s))"

definition block_record :: "CounterLease \<Rightarrow> CounterRecord" where
  "block_record l =
     (let rec = CounterRecord_new\<lparr>cr_context_id := cl_context_id l, cr_key_epoch := cl_key_epoch l,
            cr_direction := cl_direction l, cr_layout := kCounterRecordLayout,
            cr_high_water_exclusive := cl_end l + ucast (cl_block_size l),
            cr_generation := cl_generation l + 1\<rparr>
      in rec\<lparr>cr_crc := counter_record_crc rec\<rparr>)"

definition commit_block :: "'s CounterStore \<Rightarrow> ('s, unit) lease_prog" where
  "commit_block st = (\<lambda>(l, s).
     if kMaxCryptoCounter + 1 - ucast (cl_block_size l) < cl_end l
     then (Inl (Error CounterExhausted ''counter range exhausted''), l, s)
     else case cs_commit st (cl_slot l) (block_record l) s of
            (Inl e, s) \<Rightarrow> (Inl e, l, s)
          | (Inr _, s) \<Rightarrow> (Inr (), l\<lparr>cl_cursor := cl_end l, cl_end := cr_high_water_exclusive (block_record l),
                                    cl_generation := cr_generation (block_record l)\<rparr>, s))"

definition reserve_block :: "'s CounterStore \<Rightarrow> ('s, unit) lease_prog" where
  "reserve_block st = (\<lambda>x.
     if \<not> cl_initialized (fst x) then (Inl (Error InvalidState ''counter lease is not initialized''), x)
     else seq (lease_load st) (\<lambda>persisted. seq (adopt_mark persisted) (\<lambda>_. commit_block st)) x)"

definition lease_next :: "'s CounterStore \<Rightarrow> ('s, u64) lease_prog" where
  "lease_next st = (\<lambda>x.
     if \<not> cl_initialized (fst x) then (Inl (Error InvalidState ''counter lease is not initialized''), x)
     else seq (if cl_cursor (fst x) = cl_end (fst x) then reserve_block st else ret ()) (\<lambda>_ (l, s).
       (Inr (cl_cursor l), l\<lparr>cl_cursor := cl_cursor l + 1\<rparr>, s)) x)"

subsection \<open>The checkpoint cache\<close>

record CheckpointEntry =
  ce_checkpoint :: CounterLeaseCheckpoint
  ce_stamp :: u64

record CounterCheckpointCache =
  cpc_entries :: "CheckpointEntry FixedPool"
  cpc_stamp :: u64

definition CheckpointEntry_new :: CheckpointEntry where
  "CheckpointEntry_new = \<lparr>ce_checkpoint = \<lparr>cp_slot = 0, cp_context_id = 0, cp_key_epoch = 0, cp_direction = 0,
     cp_cursor = 0, cp_end = 0, cp_generation = 0\<rparr>, ce_stamp = 0\<rparr>"

definition CounterCheckpointCache_new :: "nat \<Rightarrow> CounterCheckpointCache" where
  "CounterCheckpointCache_new capacity = \<lparr>cpc_entries = FixedPool_new CheckpointEntry_new capacity, cpc_stamp = 0\<rparr>"

definition oldest_entry :: "CheckpointEntry FixedPool \<Rightarrow> nat option" where
  "oldest_entry p = fold (\<lambda>i oldest.
     case FixedPool_at i p of
       None \<Rightarrow> oldest
     | Some e \<Rightarrow> (case oldest of
                   None \<Rightarrow> Some i
                 | Some j \<Rightarrow> if ce_stamp e < ce_stamp (p_items p ! j) then Some i else oldest)) [0..<FixedPool_capacity p] None"

text \<open>The slot the new checkpoint goes to: its own, a free one, or the oldest one's.\<close>

definition park_slot :: "CounterLeaseCheckpoint \<Rightarrow> CheckpointEntry FixedPool \<Rightarrow> nat option \<times> CheckpointEntry FixedPool" where
  "park_slot checkpoint p =
     (case FixedPool_find (\<lambda>e. same_lease_identity (ce_checkpoint e) checkpoint) p of
        Some i \<Rightarrow> (Some i, p)
      | None \<Rightarrow>
          (case FixedPool_allocate CheckpointEntry_new p of
             (Some i, p) \<Rightarrow> (Some i, p)
           | (None, p) \<Rightarrow>
               (case FixedPool_release CheckpointEntry_new (oldest_entry p) p of
                  (False, p) \<Rightarrow> (None, p)
                | (True, p) \<Rightarrow> FixedPool_allocate CheckpointEntry_new p)))"

definition cache_park :: "CounterLeaseCheckpoint \<Rightarrow> CounterCheckpointCache \<Rightarrow> CounterCheckpointCache" where
  "cache_park checkpoint c =
     (if cp_end checkpoint \<le> cp_cursor checkpoint then c
      else case park_slot checkpoint (cpc_entries c) of
        (None, p) \<Rightarrow> c\<lparr>cpc_entries := p\<rparr>
      | (Some i, p) \<Rightarrow> c\<lparr>cpc_entries := FixedPool_store i \<lparr>ce_checkpoint = checkpoint, ce_stamp = cpc_stamp c + 1\<rparr> p,
                         cpc_stamp := cpc_stamp c + 1\<rparr>)"

definition cache_take ::
  "CounterLeaseCheckpoint \<Rightarrow> CounterCheckpointCache \<Rightarrow> CounterLeaseCheckpoint option \<times> CounterCheckpointCache" where
  "cache_take identity c =
     (case FixedPool_find (\<lambda>e. same_lease_identity (ce_checkpoint e) identity) (cpc_entries c) of
        None \<Rightarrow> (None, c)
      | Some i \<Rightarrow> (Some (ce_checkpoint (p_items (cpc_entries c) ! i)),
                   c\<lparr>cpc_entries := snd (FixedPool_release CheckpointEntry_new (Some i) (cpc_entries c))\<rparr>))"

definition cache_clear :: "CounterCheckpointCache \<Rightarrow> CounterCheckpointCache" where
  "cache_clear c = c\<lparr>cpc_entries := FixedPool_clear CheckpointEntry_new (cpc_entries c)\<rparr>"

definition cache_size :: "CounterCheckpointCache \<Rightarrow> nat" where
  "cache_size c = FixedPool_size (cpc_entries c)"

end
