(* ===== verification/Counter_Safety.thy ===== *)
theory Counter_Safety
  imports Counter_Lease
begin

text \<open>
  No counter is issued twice. The locale \<open>counter_store\<close> is the contract of \<^verbatim>\<open>CounterStore\<close>, with the
  epochs a store refuses to commit for; a restart may lose a record only when its epoch is
  refused from then on. A world is a store, the leases in RAM, the checkpoint cache and the
  counters issued; its steps create leases, draw counters, evict leases into the cache and
  restart.
\<close>

subsection \<open>Reserved ranges\<close>

text \<open>The persisted record covers the first \<open>n\<close> counters of an epoch, or a later epoch.\<close>

definition covered :: "(u32 \<Rightarrow> CounterRecord option) \<Rightarrow> u32 \<Rightarrow> u32 \<Rightarrow> u64 \<Rightarrow> bool" where
  "covered P s e n \<longleftrightarrow> (\<exists>p. P s = Some p \<and>
     (e < cr_key_epoch p \<or> e = cr_key_epoch p \<and> n \<le> cr_high_water_exclusive p))"

definition within :: "CounterLeaseCheckpoint \<Rightarrow> u64 \<Rightarrow> bool" where
  "within c v \<longleftrightarrow> cp_cursor c \<le> v \<and> v < cp_end c"

text \<open>Owners of ranges are leases (\<open>Inl\<close>) and parked checkpoints (\<open>Inr\<close>).\<close>

type_synonym owners = "nat + nat \<Rightarrow> CounterLeaseCheckpoint option"

definition range_inv ::
  "(u32 \<Rightarrow> CounterRecord option) \<Rightarrow> (u32 \<Rightarrow> bool) \<Rightarrow> owners \<Rightarrow> (u32 \<times> u32 \<times> u64) set \<Rightarrow> bool" where
  "range_inv P B own L \<longleftrightarrow>
     (\<forall>k c. own k = Some c \<longrightarrow> cp_cursor c \<le> cp_end c \<and> (cp_end c = 0 \<or> covered P (cp_slot c) (cp_key_epoch c) (cp_end c))) \<and>
     (\<forall>s e v. (s, e, v) \<in> L \<longrightarrow> B e \<or> v + 1 \<noteq> 0 \<and> covered P s e (v + 1)) \<and>
     (\<forall>k k' c c' v. own k = Some c \<longrightarrow> own k' = Some c' \<longrightarrow> k \<noteq> k' \<longrightarrow> cp_slot c = cp_slot c' \<longrightarrow>
        cp_key_epoch c = cp_key_epoch c' \<longrightarrow> within c v \<longrightarrow> \<not> within c' v) \<and>
     (\<forall>k c v. own k = Some c \<longrightarrow> within c v \<longrightarrow> (cp_slot c, cp_key_epoch c, v) \<notin> L)"

lemma range_invI:
  assumes "\<And>k c. own k = Some c \<Longrightarrow> cp_cursor c \<le> cp_end c"
    and "\<And>k c. own k = Some c \<Longrightarrow> cp_end c \<noteq> 0 \<Longrightarrow> covered P (cp_slot c) (cp_key_epoch c) (cp_end c)"
    and "\<And>s e v. (s, e, v) \<in> L \<Longrightarrow> \<not> B e \<Longrightarrow> v + 1 \<noteq> 0 \<and> covered P s e (v + 1)"
    and "\<And>k k' c c' v. own k = Some c \<Longrightarrow> own k' = Some c' \<Longrightarrow> k \<noteq> k' \<Longrightarrow> cp_slot c = cp_slot c' \<Longrightarrow>
        cp_key_epoch c = cp_key_epoch c' \<Longrightarrow> within c v \<Longrightarrow> \<not> within c' v"
    and "\<And>k c v. own k = Some c \<Longrightarrow> within c v \<Longrightarrow> (cp_slot c, cp_key_epoch c, v) \<notin> L"
  shows "range_inv P B own L"
  using assms unfolding range_inv_def by blast

lemma range_invD:
  assumes "range_inv P B own L"
  shows range_order: "\<And>k c. own k = Some c \<Longrightarrow> cp_cursor c \<le> cp_end c"
    and range_covered: "\<And>k c. own k = Some c \<Longrightarrow> cp_end c \<noteq> 0 \<Longrightarrow> covered P (cp_slot c) (cp_key_epoch c) (cp_end c)"
    and log_covered: "\<And>s e v. (s, e, v) \<in> L \<Longrightarrow> \<not> B e \<Longrightarrow> v + 1 \<noteq> 0 \<and> covered P s e (v + 1)"
    and ranges_disjoint: "\<And>k k' c c' v. own k = Some c \<Longrightarrow> own k' = Some c' \<Longrightarrow> k \<noteq> k' \<Longrightarrow> cp_slot c = cp_slot c' \<Longrightarrow>
        cp_key_epoch c = cp_key_epoch c' \<Longrightarrow> within c v \<Longrightarrow> \<not> within c' v"
    and range_fresh: "\<And>k c v. own k = Some c \<Longrightarrow> within c v \<Longrightarrow> (cp_slot c, cp_key_epoch c, v) \<notin> L"
  using assms unfolding range_inv_def by blast+

lemma range_inv_drop:
  assumes "range_inv P B own L" "own' \<subseteq>\<^sub>m own"
  shows "range_inv P B own' L"
proof -
  have sub: "own' k = Some c \<Longrightarrow> own k = Some c" for k c using assms(2) by (metis map_le_def domI)
  note inv = range_invD [OF assms(1)]
  show ?thesis
  proof (rule range_invI, goal_cases)
    case 4
    then show ?case by (rule inv(4) [OF sub sub])
  qed (use inv(1,2,3,5) sub in blast)+
qed

text \<open>Adding an owner whose range nobody has.\<close>

lemma range_inv_add:
  assumes "range_inv P B own L" "own k = None" "cp_cursor c \<le> cp_end c"
    and "cp_end c \<noteq> 0 \<Longrightarrow> covered P (cp_slot c) (cp_key_epoch c) (cp_end c)"
    and disj: "\<And>k' c' v. own k' = Some c' \<Longrightarrow> cp_slot c' = cp_slot c \<Longrightarrow> cp_key_epoch c' = cp_key_epoch c \<Longrightarrow>
      within c v \<Longrightarrow> \<not> within c' v"
    and fresh: "\<And>v. within c v \<Longrightarrow> (cp_slot c, cp_key_epoch c, v) \<notin> L"
  shows "range_inv P B (own(k \<mapsto> c)) L"
proof -
  note inv = range_invD [OF assms(1)]
  have upd: "(own(k \<mapsto> c)) j = Some d \<Longrightarrow> j = k \<and> d = c \<or> j \<noteq> k \<and> own j = Some d" for j d
    by (simp split: if_splits)
  show ?thesis
  proof (rule range_invI, goal_cases)
    case 1
    then show ?case by (metis upd inv(1) assms(3))
  next
    case 2
    then show ?case by (metis upd inv(2) assms(4))
  next
    case 3
    then show ?case by (rule inv(3))
  next
    case 4
    then show ?case by (metis upd inv(4) disj)
  next
    case 5
    then show ?case by (metis upd inv(5) fresh)
  qed
qed

text \<open>Handing a range over to another owner.\<close>

lemma range_inv_move:
  assumes "range_inv P B own L" "own k = Some c" "own' \<subseteq>\<^sub>m own(k := None)" "own' j = None"
    and "cp_slot c' = cp_slot c" "cp_key_epoch c' = cp_key_epoch c" "cp_cursor c' = cp_cursor c" "cp_end c' = cp_end c"
  shows "range_inv P B (own'(j \<mapsto> c')) L"
proof -
  note inv = range_invD [OF assms(1)]
  have sub: "i \<noteq> k \<and> own i = Some d" if "own' i = Some d" for i d
    using that assms(3) by (metis map_le_def domI fun_upd_apply option.distinct(1))
  have w: "within c' v = within c v" for v by (simp add: within_def assms(7,8))
  have "own' \<subseteq>\<^sub>m own" using sub by (auto simp: map_le_def)
  with range_inv_drop [OF assms(1)] have "range_inv P B own' L" by blast
  then show ?thesis
  proof (rule range_inv_add, goal_cases)
    case (4 i d v)
    then show ?case using inv(4) [OF assms(2), of i d v] sub [of i d] assms(5,6) w by auto
  qed (use assms inv w in auto)
qed

lemma word_less_add_one: "(v :: u64) < n \<Longrightarrow> unat (v + 1) = unat v + 1 \<and> v + 1 \<le> n \<and> v + 1 \<noteq> 0"
proof -
  assume "v < n"
  then have lt: "unat v < unat n" by (simp add: word_less_nat_alt)
  then have eq: "unat (v + 1) = unat v + 1"
    using unat_add_lem [of v 1] unsigned_less [of n, where ?'a = nat] by simp
  with lt show ?thesis by (auto simp: word_le_nat_alt)
qed

lemma word_succ_gt: "(v :: u64) + 1 \<noteq> 0 \<Longrightarrow> v < v + 1"
proof -
  assume ne: "v + 1 \<noteq> 0"
  have "unat v + 1 < 2 ^ 64"
  proof (rule ccontr)
    assume "\<not> unat v + 1 < 2 ^ 64"
    then have "unat v + 1 = 2 ^ 64" using unsigned_less [of v, where ?'a = nat] by simp
    then have "unat (v + 1) = 0" by (simp add: unat_word_ariths)
    with ne show False by (simp add: unat_eq_zero)
  qed
  then show ?thesis by (simp add: word_less_nat_alt unat_word_ariths)
qed

text \<open>Issuing the first counter of a range.\<close>

lemma range_inv_issue:
  assumes "range_inv P B own L" "own k = Some c" "cp_cursor c < cp_end c"
  shows "(cp_slot c, cp_key_epoch c, cp_cursor c) \<notin> L"
    and "range_inv P B (own(k \<mapsto> c\<lparr>cp_cursor := cp_cursor c + 1\<rparr>)) (insert (cp_slot c, cp_key_epoch c, cp_cursor c) L)"
proof -
  note inv = range_invD [OF assms(1)] and next_cursor = word_less_add_one [OF assms(3)]
  let ?v = "cp_cursor c" and ?c = "c\<lparr>cp_cursor := cp_cursor c + 1\<rparr>"
  have at: "within c ?v" using assms(3) by (simp add: within_def)
  then show fresh: "(cp_slot c, cp_key_epoch c, ?v) \<notin> L" by (rule inv(5) [OF assms(2)])
  have "cp_end c \<noteq> 0" using assms(3) by (metis word_not_simps(1))
  then have cov: "covered P (cp_slot c) (cp_key_epoch c) (cp_end c)" by (rule inv(2) [OF assms(2)])
  have shrink: "within c v \<and> v \<noteq> ?v" if "within ?c v" for v
    using that next_cursor assms(3) by (auto simp: within_def word_le_nat_alt word_less_nat_alt)
  have "range_inv P B ((own(k := None))(k \<mapsto> ?c)) L"
  proof (rule range_inv_add [OF range_inv_drop [OF assms(1)]], goal_cases)
    case 1
    then show ?case by (simp add: map_le_def)
  next
    case (5 j d v)
    then show ?case using inv(4) [OF assms(2), of j d v] shrink by (auto split: if_splits)
  next
    case (6 v)
    then show ?case using inv(5) [OF assms(2), of v] shrink by simp
  qed (use next_cursor cov in simp_all)
  then have base: "range_inv P B (own(k \<mapsto> ?c)) L" by simp
  show "range_inv P B (own(k \<mapsto> ?c)) (insert (cp_slot c, cp_key_epoch c, ?v) L)"
  proof (rule range_invI, goal_cases)
    case (3 s e v)
    then show ?case
      using range_invD(3) [OF base, of s e v] next_cursor cov by (auto simp: covered_def)
  next
    case (5 j d v)
    then have "(cp_slot d, cp_key_epoch d, v) \<notin> L" by (rule range_invD(5) [OF base])
    moreover have "(cp_slot d, cp_key_epoch d, v) \<noteq> (cp_slot c, cp_key_epoch c, ?v)"
      using 5 shrink inv(4) [OF assms(2), of j d ?v] at by (cases "j = k") auto
    ultimately show ?case by simp
  qed (use range_invD(1,2,4) [OF base] in blast)+
qed

text \<open>
  A commit for epoch \<open>e\<close> whose new mark starts at or above every mark of that epoch. The record
  replaced, if any, is not of a later epoch.
\<close>

lemma covered_commit:
  assumes "covered P s' e' n" "\<And>p. P s = Some p \<Longrightarrow> cr_key_epoch p \<le> cr_key_epoch r"
    and "\<And>p. P s = Some p \<Longrightarrow> cr_key_epoch p = cr_key_epoch r \<Longrightarrow> cr_high_water_exclusive p \<le> cr_high_water_exclusive r"
  shows "covered (P(s \<mapsto> r)) s' e' n"
  using assms by (fastforce simp: covered_def intro: order_trans)

lemma range_inv_commit:
  assumes "range_inv P B own L" "\<And>p. P s = Some p \<Longrightarrow> cr_key_epoch p \<le> cr_key_epoch r"
    and "\<And>p. P s = Some p \<Longrightarrow> cr_key_epoch p = cr_key_epoch r \<Longrightarrow> cr_high_water_exclusive p \<le> cr_high_water_exclusive r"
  shows "range_inv (P(s \<mapsto> r)) B own L"
  using assms(1) covered_commit [where P = P and s = s and r = r, OF _ assms(2,3)]
  unfolding range_inv_def by blast

text \<open>Nobody owns or has issued a counter at or above the mark.\<close>

lemma range_inv_above:
  assumes "range_inv P B own L" "\<not> B e" "\<And>p. P s = Some p \<Longrightarrow> cr_key_epoch p \<le> e"
    and "\<And>p. P s = Some p \<Longrightarrow> cr_key_epoch p = e \<Longrightarrow> cr_high_water_exclusive p \<le> n" "n \<le> v"
  shows "(s, e, v) \<notin> L" and "own k = Some c \<Longrightarrow> cp_slot c = s \<Longrightarrow> cp_key_epoch c = e \<Longrightarrow> \<not> within c v"
proof -
  note inv = range_invD [OF assms(1)]
  have below: "m \<le> n" if "covered P s e m" for m
    using that assms(3,4) by (fastforce simp: covered_def)
  show "(s, e, v) \<notin> L"
  proof
    assume "(s, e, v) \<in> L"
    with inv(3) assms(2) have v: "v + 1 \<noteq> 0" "covered P s e (v + 1)" by blast+
    from below [OF v(2)] assms(5) have "v + 1 \<le> v" by simp
    with word_succ_gt [OF v(1)] show False by simp
  qed
  show "\<not> within c v" if "own k = Some c" "cp_slot c = s" "cp_key_epoch c = e"
    using inv(2) [OF that(1)] that below [of "cp_end c"] assms(5) by (cases "cp_end c = 0") (auto simp: within_def)
qed

subsection \<open>The contract of the store\<close>

locale counter_store =
  fixes st :: "'s CounterStore"
    and stored :: "'s \<Rightarrow> u32 \<Rightarrow> CounterRecord option"
    and barred :: "'s \<Rightarrow> u32 \<Rightarrow> bool"
  assumes load: "cs_load st slot s = (r, s') \<Longrightarrow>
      stored s' = stored s \<and> barred s' = barred s \<and> (\<forall>x. r = Inr x \<longrightarrow> stored s slot = x)"
    and commit: "cs_commit st slot rec s = (u, s') \<Longrightarrow> barred s' = barred s \<and>
      (stored s' = stored s \<and> u \<noteq> Inr () \<or>
       stored s' = (stored s)(slot \<mapsto> rec) \<and> \<not> barred s (cr_key_epoch rec))"
    and barred_down: "barred s e \<Longrightarrow> e' \<le> e \<Longrightarrow> barred s e'"

text \<open>The identity of a lease, and an idle lease: its range is empty.\<close>

definition same_lease :: "CounterLease \<Rightarrow> CounterLease \<Rightarrow> bool" where
  "same_lease l l' \<longleftrightarrow> cl_slot l' = cl_slot l \<and> cl_context_id l' = cl_context_id l \<and> cl_key_epoch l' = cl_key_epoch l \<and>
     cl_direction l' = cl_direction l \<and> cl_block_size l' = cl_block_size l"

definition idle :: "(u32 \<Rightarrow> CounterRecord option) \<Rightarrow> CounterLease \<Rightarrow> bool" where
  "idle P l \<longleftrightarrow> cl_cursor l = cl_end l \<and> (cl_end l = 0 \<or> covered P (cl_slot l) (cl_key_epoch l) (cl_end l))"

text \<open>The mark the next block starts at, and the record it leaves.\<close>

definition mark :: "(u32 \<Rightarrow> CounterRecord option) \<Rightarrow> CounterLease \<Rightarrow> u64 \<Rightarrow> bool" where
  "mark P l n \<longleftrightarrow> (\<forall>p. P (cl_slot l) = Some p \<longrightarrow> cr_key_epoch p \<le> cl_key_epoch l \<and>
     (cr_key_epoch p = cl_key_epoch l \<longrightarrow> cr_high_water_exclusive p = n))"

lemma block_record_sel [simp]:
  "cr_key_epoch (block_record l) = cl_key_epoch l"
  "cr_high_water_exclusive (block_record l) = cl_end l + ucast (cl_block_size l)"
  by (simp_all add: block_record_def Let_def)

lemma unat_ucast_block: "unat (ucast (b :: u32) :: u64) = unat b"
proof -
  have "unat b < 2 ^ 64" using unsigned_less [of b, where ?'a = nat] by simp
  then show ?thesis by (simp add: unsigned_ucast_eq take_bit_nat_eq_self)
qed

lemma block_end:
  assumes "\<not> kMaxCryptoCounter + 1 - ucast b < n" "b \<noteq> 0"
  shows "n < n + ucast (b :: u32)"
proof -
  have b: "unat b < 2 ^ 32" "0 < unat b" using unsigned_less [of b, where ?'a = nat] assms(2) by (simp_all add: unat_gt_0)
  have "(ucast b :: u64) \<le> 0x1000000000000" using b(1) by (simp add: word_le_nat_alt unat_ucast_block)
  then have "unat ((0x1000000000000 :: u64) - ucast b) = 0x1000000000000 - unat b"
    by (subst unat_sub) (simp_all add: unat_ucast_block)
  with assms(1) b(1) have n: "unat n + unat b \<le> 0x1000000000000" by (simp add: word_less_nat_alt)
  then have "unat (n + ucast b) = unat n + unat b"
    using unat_add_lem [of n "ucast b"] by (simp add: unat_ucast_block)
  with b(2) show ?thesis by (simp add: word_less_nat_alt)
qed

lemma adopt_mark_cases:
  assumes "adopt_mark po (l, s) = (r, l', s')"
  shows "s' = s \<and> (l' = l \<and> (r = Inr () \<longrightarrow> (\<forall>p. po = Some p \<longrightarrow> cr_key_epoch p \<le> cl_key_epoch l \<and>
        (cr_key_epoch p = cl_key_epoch l \<longrightarrow> cr_high_water_exclusive p = cl_end l))) \<or>
      (\<exists>p. po = Some p \<and> cr_key_epoch p = cl_key_epoch l \<and>
        l' = l\<lparr>cl_cursor := cr_high_water_exclusive p, cl_end := cr_high_water_exclusive p, cl_generation := cr_generation p\<rparr>))"
proof (cases po)
  case None
  with assms show ?thesis by (simp add: adopt_mark_def)
next
  case (Some p)
  let ?adopt = "cr_key_epoch p = cl_key_epoch l \<and> cl_end l < cr_high_water_exclusive p"
  let ?bad = "cr_crc p \<noteq> counter_record_crc p \<or> cr_layout p \<noteq> kCounterRecordLayout \<or> cl_key_epoch l < cr_key_epoch p"
  show ?thesis
  proof (cases "?bad \<or> \<not> ?adopt \<and> cr_key_epoch p = cl_key_epoch l \<and> cr_high_water_exclusive p < cl_end l")
    case True
    then have "\<exists>e. adopt_mark po (l, s) = (Inl e, l, s)"
      unfolding Some adopt_mark_def
      by (cases "cr_crc p = counter_record_crc p"; cases "cr_layout p = kCounterRecordLayout"; cases "cl_key_epoch l < cr_key_epoch p")
        simp_all
    with assms show ?thesis by auto
  next
    case False
    then have ok: "cr_crc p = counter_record_crc p" "cr_layout p = kCounterRecordLayout" "\<not> cl_key_epoch l < cr_key_epoch p"
      "\<not> ?adopt \<Longrightarrow> \<not> (cr_key_epoch p = cl_key_epoch l \<and> cr_high_water_exclusive p < cl_end l)" by blast+
    show ?thesis
    proof (cases ?adopt)
      case True
      with ok assms Some show ?thesis by (simp add: adopt_mark_def)
    next
      case no: False
      with ok(4) have eq: "cr_key_epoch p = cl_key_epoch l \<Longrightarrow> cr_high_water_exclusive p = cl_end l"
        by (meson linorder_neqE)
      have "adopt_mark po (l, s) = (Inr (), l, s)"
        unfolding Some adopt_mark_def prod.case option.case if_not_P [OF no] if_not_P [OF ok(4) [OF no]]
        using ok(1-3) by simp
      with assms Some ok(3) eq show ?thesis by auto
    qed
  qed
qed

lemma adopt_mark_effect:
  assumes "adopt_mark (P (cl_slot l)) (l, s) = (r, l', s')" "idle P l"
  shows "s' = s \<and> same_lease l l' \<and> cl_initialized l' = cl_initialized l \<and> idle P l' \<and> (r = Inr () \<longrightarrow> mark P l' (cl_end l'))"
proof -
  from adopt_mark_cases [OF assms(1)] consider
      "s' = s" "l' = l" "r = Inr () \<longrightarrow> mark P l (cl_end l)"
    | p where "P (cl_slot l) = Some p" "s' = s" "cr_key_epoch p = cl_key_epoch l"
      "l' = l\<lparr>cl_cursor := cr_high_water_exclusive p, cl_end := cr_high_water_exclusive p, cl_generation := cr_generation p\<rparr>"
    unfolding mark_def by blast
  then show ?thesis
  proof cases
    case 1
    then show ?thesis using assms(2) by (simp add: same_lease_def)
  next
    case (2 p)
    then show ?thesis by (simp add: same_lease_def mark_def idle_def covered_def)
  qed
qed

context counter_store
begin

lemma lease_load_effect:
  "lease_load st (l, s) = (r, l', s') \<Longrightarrow>
   l' = l \<and> stored s' = stored s \<and> barred s' = barred s \<and> (\<forall>x. r = Inr x \<longrightarrow> stored s (cl_slot l) = x)"
  using load [of "cl_slot l" s] by (auto simp: lease_load_def split: prod.splits)

lemma lease_initialize_effect:
  assumes "lease_initialize st (l, s) = (r, l', s')" "cl_cursor l = 0" "cl_end l = 0"
  shows "stored s' = stored s \<and> barred s' = barred s \<and>
    (r = Inr () \<longrightarrow> same_lease l l' \<and> cl_initialized l' \<and> cl_block_size l' \<noteq> 0 \<and> idle (stored s) l')"
proof (cases "cl_block_size l = 0")
  case True
  with assms(1) show ?thesis by (auto simp: lease_initialize_def)
next
  case False
  obtain r1 l1 s1 where ld: "lease_load st (l, s) = (r1, l1, s1)" by (metis prod_cases3)
  note eff = lease_load_effect [OF ld]
  show ?thesis
  proof (cases r1)
    case (Inl e)
    with assms(1) False ld eff show ?thesis by (auto simp: lease_initialize_def seq_def)
  next
    case (Inr found)
    then have stored: "stored s (cl_slot l) = found" using eff by simp
    have "s' = s1 \<and> (r = Inr () \<longrightarrow> same_lease l l' \<and> cl_initialized l' \<and> cl_block_size l' \<noteq> 0 \<and> cl_cursor l' = cl_end l' \<and>
        (cl_end l' = 0 \<or> (\<exists>p. found = Some p \<and> cr_key_epoch p = cl_key_epoch l \<and> cl_end l' = cr_high_water_exclusive p)))"
      using assms False ld eff Inr
      by (cases found) (auto simp: lease_initialize_def seq_def same_lease_def Let_def split: if_splits)
    with eff stored show ?thesis by (auto simp: idle_def covered_def same_lease_def)
  qed
qed

lemma lease_resume_effect:
  assumes "lease_resume st cp (l, s) = (r, l', s')" "cl_cursor l = 0" "cl_end l = 0"
  shows "stored s' = stored s \<and> barred s' = barred s \<and>
    (r = Inr () \<longrightarrow> same_lease l l' \<and> cl_initialized l' \<and> cl_block_size l' \<noteq> 0 \<and>
       (idle (stored s) l' \<or> same_lease_identity (lease_checkpoint l') cp \<and> cl_cursor l' = cp_cursor cp \<and> cl_end l' = cp_end cp))"
proof -
  obtain r1 l1 s1 where ini: "lease_initialize st (l, s) = (r1, l1, s1)" by (metis prod_cases3)
  note eff = lease_initialize_effect [OF ini assms(2,3)]
  have "s' = s1 \<and> (r = Inr () \<longrightarrow> r1 = Inr () \<and> (l' = l1 \<or> l' = l1\<lparr>cl_cursor := cp_cursor cp\<rparr> \<and> cl_end l1 = cp_end cp \<and>
      same_lease_identity (lease_checkpoint l1) cp))"
    using assms(1) ini by (cases r1) (auto simp: lease_resume_def seq_def split: if_splits)
  with eff show ?thesis by (auto simp: same_lease_def same_lease_identity_def lease_checkpoint_def)
qed

text \<open>A reservation commits a block that starts at the mark, or leaves the lease idle.\<close>

definition block_step :: "CounterLease \<Rightarrow> 's \<Rightarrow> 's \<Rightarrow> bool" where
  "block_step l s s' \<longleftrightarrow> \<not> barred s (cl_key_epoch l) \<and> mark (stored s) l (cl_end l) \<and>
     cl_end l < cl_end l + ucast (cl_block_size l) \<and> stored s' = (stored s)(cl_slot l \<mapsto> block_record l)"

lemma block_step_cong:
  "stored s1 = stored s \<Longrightarrow> barred s1 = barred s \<Longrightarrow> block_step l s1 s' = block_step l s s'"
  by (simp add: block_step_def)

lemma commit_block_effect:
  assumes "commit_block st (l, s) = (r, l', s')" "mark (stored s) l (cl_end l)" "cl_block_size l \<noteq> 0"
  shows "barred s' = barred s \<and> (stored s' = stored s \<or> block_step l s s') \<and>
    (case r of Inl _ \<Rightarrow> l' = l
     | Inr _ \<Rightarrow> block_step l s s' \<and> same_lease l l' \<and> cl_initialized l' = cl_initialized l \<and> cl_cursor l' = cl_end l \<and>
         cl_end l' = cl_end l + ucast (cl_block_size l))"
proof (cases "kMaxCryptoCounter + 1 - ucast (cl_block_size l) < cl_end l")
  case True
  with assms(1) show ?thesis by (auto simp: commit_block_def)
next
  case False
  obtain u s1 where com: "cs_commit st (cl_slot l) (block_record l) s = (u, s1)" by fastforce
  note eff = commit [OF com] block_end [OF False assms(3)]
  show ?thesis
    using assms False com eff by (cases u) (auto simp: commit_block_def block_step_def same_lease_def)
qed

lemma reserve_block_effect:
  assumes "reserve_block st (l, s) = (r, l', s')" "idle (stored s) l" "cl_block_size l \<noteq> 0"
  obtains l1 where "same_lease l l1" "same_lease l l'" "cl_initialized l' = cl_initialized l" "idle (stored s) l1"
    "barred s' = barred s" "stored s' = stored s \<or> block_step l1 s s'"
    "\<And>e. r = Inl e \<Longrightarrow> l' = l1"
    "r = Inr () \<Longrightarrow> block_step l1 s s' \<and> cl_cursor l' = cl_end l1 \<and> cl_end l' = cl_end l1 + ucast (cl_block_size l)"
proof (cases "cl_initialized l")
  case False
  with assms show ?thesis by (intro that [of l]) (auto simp: reserve_block_def same_lease_def)
next
  case init: True
  obtain r1 l1 s1 where ld: "lease_load st (l, s) = (r1, l1, s1)" by (metis prod_cases3)
  note eff1 = lease_load_effect [OF ld]
  show ?thesis
  proof (cases r1)
    case (Inl e)
    with assms init ld eff1 show ?thesis
      by (intro that [of l]) (auto simp: reserve_block_def seq_def same_lease_def)
  next
    case r1: (Inr found)
    obtain r2 l2 s2 where ad: "adopt_mark found (l, s1) = (r2, l2, s2)" by (metis prod_cases3)
    with eff1 r1 have "adopt_mark (stored s (cl_slot l)) (l, s1) = (r2, l2, s2)" by simp
    note eff2 = adopt_mark_effect [OF this assms(2)]
    show ?thesis
    proof (cases r2)
      case (Inl e)
      with assms init ld eff1 r1 ad eff2 show ?thesis
        by (intro that [of l2]) (auto simp: reserve_block_def seq_def)
    next
      case r2: (Inr u)
      have com: "commit_block st (l2, s1) = (r, l', s')"
        using assms(1) init ld eff1 r1 ad eff2 r2 by (auto simp: reserve_block_def seq_def)
      have "mark (stored s1) l2 (cl_end l2)" using eff1 eff2 r2 by simp
      moreover have bs: "cl_block_size l2 = cl_block_size l" using eff2 by (simp add: same_lease_def)
      ultimately have eff3: "barred s' = barred s \<and> (stored s' = stored s \<or> block_step l2 s s') \<and>
        (case r of Inl _ \<Rightarrow> l' = l2
         | Inr _ \<Rightarrow> block_step l2 s s' \<and> same_lease l2 l' \<and> cl_initialized l' = cl_initialized l2 \<and> cl_cursor l' = cl_end l2 \<and>
             cl_end l' = cl_end l2 + ucast (cl_block_size l))"
        using commit_block_effect [OF com] assms(3) eff1 block_step_cong [of s1 s l2 s'] by (cases r) simp_all
      have sl: "same_lease l l'" "cl_initialized l' = cl_initialized l"
        using eff2 eff3 by (cases r; simp add: same_lease_def)+
      show ?thesis
        by (rule that [of l2]) (use eff2 eff3 sl in \<open>auto split: sum.splits\<close>)
    qed
  qed
qed

text \<open>What a reservation does to the ranges.\<close>

lemma block_step_ranges:
  assumes "range_inv (stored s) (barred s) own L" "own k = Some (lease_checkpoint l)" "block_step l1 s s'" "same_lease l l1"
    and "same_lease l l'" "cl_cursor l' = cl_end l1" "cl_end l' = cl_end l1 + ucast (cl_block_size l)"
  shows "range_inv (stored s') (barred s) (own(k \<mapsto> lease_checkpoint l')) L" "cl_cursor l' < cl_end l'"
proof -
  note step = assms(3) [unfolded block_step_def mark_def]
  note same = assms(4,5) [unfolded same_lease_def]
  let ?c = "lease_checkpoint l'"
  have c: "cp_slot ?c = cl_slot l1" "cp_key_epoch ?c = cl_key_epoch l1" "cp_cursor ?c = cl_end l1"
    "cp_end ?c = cr_high_water_exclusive (block_record l1)"
    using same assms(6,7) by (simp_all add: lease_checkpoint_def)
  show grown: "cl_cursor l' < cl_end l'" using step same assms(6,7) by simp
  have above: "cl_end l1 \<le> v \<Longrightarrow> (cl_slot l1, cl_key_epoch l1, v) \<notin> L"
    "cl_end l1 \<le> v \<Longrightarrow> own j = Some d \<Longrightarrow> cp_slot d = cl_slot l1 \<Longrightarrow> cp_key_epoch d = cl_key_epoch l1 \<Longrightarrow> \<not> within d v" for v j d
    using range_inv_above [OF assms(1), where e = "cl_key_epoch l1" and s = "cl_slot l1" and n = "cl_end l1" and v = v] step
    by auto
  have "range_inv (stored s) (barred s) (own(k := None)) L"
    by (rule range_inv_drop [OF assms(1)]) (simp add: map_le_def)
  then have "range_inv (stored s') (barred s) (own(k := None)) L"
    using step by (auto intro!: range_inv_commit)
  then have "range_inv (stored s') (barred s) ((own(k := None))(k \<mapsto> ?c)) L"
  proof (rule range_inv_add, goal_cases)
    case 1
    then show ?case by simp
  next
    case 2
    then show ?case using grown by (simp add: lease_checkpoint_def)
  next
    case 3
    then show ?case using step c by (simp add: covered_def)
  next
    case (4 j d v)
    then show ?case using above(2) [of v j d] c by (auto simp: within_def split: if_splits)
  next
    case (5 v)
    then show ?case using above(1) [of v] c by (simp add: within_def)
  qed
  then show "range_inv (stored s') (barred s) (own(k \<mapsto> ?c)) L" by simp
qed

lemma range_inv_idle:
  assumes "range_inv P B own L" "idle P l"
  shows "range_inv P B (own(k \<mapsto> lease_checkpoint l)) L"
proof -
  have "range_inv P B (own(k := None)) L"
    by (rule range_inv_drop [OF assms(1)]) (simp add: map_le_def)
  then have "range_inv P B ((own(k := None))(k \<mapsto> lease_checkpoint l)) L"
    by (rule range_inv_add) (use assms(2) in \<open>auto simp: idle_def within_def lease_checkpoint_def\<close>)
  then show ?thesis by simp
qed

lemma lease_next_ranges:
  assumes "lease_next st (l, s) = (r, l', s')" "range_inv (stored s) (barred s) own L" "own k = Some (lease_checkpoint l)"
    and "cl_initialized l" "cl_block_size l \<noteq> 0"
  shows "same_lease l l' \<and> cl_initialized l' \<and> barred s' = barred s \<and>
    (case r of
       Inl _ \<Rightarrow> range_inv (stored s') (barred s') (own(k \<mapsto> lease_checkpoint l')) L
     | Inr v \<Rightarrow> (cl_slot l, cl_key_epoch l, v) \<notin> L \<and>
         range_inv (stored s') (barred s') (own(k \<mapsto> lease_checkpoint l')) (insert (cl_slot l, cl_key_epoch l, v) L))"
proof -
  have issue: ?thesis
    if "range_inv (stored s1) (barred s) (own(k \<mapsto> lease_checkpoint l1)) L" "cl_cursor l1 < cl_end l1" "same_lease l l1"
      "cl_initialized l1" "barred s1 = barred s" "r = Inr (cl_cursor l1)" "l' = l1\<lparr>cl_cursor := cl_cursor l1 + 1\<rparr>" "s' = s1" for l1 s1
  proof -
    have "cp_cursor (lease_checkpoint l1) < cp_end (lease_checkpoint l1)" using that(2) by (simp add: lease_checkpoint_def)
    from range_inv_issue [OF that(1) _ this, of k] that(3-8) show ?thesis
      by (auto simp: lease_checkpoint_def same_lease_def)
  qed
  show ?thesis
  proof (cases "cl_cursor l = cl_end l")
    case False
    with range_order [OF assms(2,3)] have lt: "cl_cursor l < cl_end l" by (simp add: lease_checkpoint_def)
    from assms(2,3) have "range_inv (stored s) (barred s) (own(k \<mapsto> lease_checkpoint l)) L" by (simp add: fun_upd_idem)
    from this lt show ?thesis
      by (rule issue) (use assms(1,4) False in \<open>auto simp: lease_next_def seq_def ret_def same_lease_def\<close>)
  next
    case True
    with range_covered [OF assms(2,3)] have idle: "idle (stored s) l" by (auto simp: idle_def lease_checkpoint_def)
    obtain r1 l1 s1 where res: "reserve_block st (l, s) = (r1, l1, s1)" by (metis prod_cases3)
    from reserve_block_effect [OF res idle assms(5)] obtain l2 where eff: "same_lease l l2" "same_lease l l1"
      "cl_initialized l1 = cl_initialized l" "idle (stored s) l2" "barred s1 = barred s" "stored s1 = stored s \<or> block_step l2 s s1"
      "\<And>e. r1 = Inl e \<Longrightarrow> l1 = l2"
      "r1 = Inr () \<Longrightarrow> block_step l2 s s1 \<and> cl_cursor l1 = cl_end l2 \<and> cl_end l1 = cl_end l2 + ucast (cl_block_size l)" by metis
    show ?thesis
    proof (cases r1)
      case (Inl e)
      have "range_inv (stored s1) (barred s) (own(k \<mapsto> lease_checkpoint l2)) L"
        using range_inv_idle [OF assms(2) eff(4)] eff(6)
        by (auto simp: block_step_def mark_def intro!: range_inv_commit)
      with Inl res assms(1,4) True eff show ?thesis by (auto simp: lease_next_def seq_def)
    next
      case (Inr u)
      with eff(8) have "block_step l2 s s1" "cl_cursor l1 = cl_end l2" "cl_end l1 = cl_end l2 + ucast (cl_block_size l)" by simp_all
      from block_step_ranges [OF assms(2,3) this(1) eff(1,2) this(2,3)] show ?thesis
        by (rule issue) (use Inr res assms(1,4) True eff in \<open>auto simp: lease_next_def seq_def\<close>)
    qed
  qed
qed

end

subsection \<open>The checkpoint cache\<close>

definition parked :: "CounterCheckpointCache \<Rightarrow> nat \<Rightarrow> CounterLeaseCheckpoint option" where
  "parked c j = map_option ce_checkpoint (FixedPool_at j (cpc_entries c))"

lemma map_le_map_option:
  "f \<subseteq>\<^sub>m g \<Longrightarrow> (\<lambda>j. map_option h (f j)) \<subseteq>\<^sub>m (\<lambda>j. map_option h (g j))"
  unfolding map_le_def by (metis domIff option.map_disc_iff)

lemma park_slot_effect:
  assumes "pool_inv p" "park_slot cp p = (r, p')"
  shows "pool_inv p' \<and> (case r of
      None \<Rightarrow> (\<lambda>j. FixedPool_at j p') \<subseteq>\<^sub>m (\<lambda>j. FixedPool_at j p)
    | Some i \<Rightarrow> (\<exists>x. FixedPool_at i p' = Some x) \<and> (\<lambda>j. FixedPool_at j p')(i := None) \<subseteq>\<^sub>m (\<lambda>j. FixedPool_at j p))"
proof (cases "FixedPool_find (\<lambda>e. same_lease_identity (ce_checkpoint e) cp) p")
  case (Some i)
  with assms(2) have "r = Some i" "p' = p" by (simp_all add: park_slot_def)
  with assms(1) fp.find_Some [OF Some] show ?thesis by (auto simp: map_le_def simp del: FixedPool_at_Some)
next
  case find: None
  obtain r1 p1 where al: "FixedPool_allocate CheckpointEntry_new p = (r1, p1)" by fastforce
  have alloc: "pool_inv p' \<and> (\<exists>x. FixedPool_at i p' = Some x) \<and> (\<lambda>j. FixedPool_at j p')(i := None) \<subseteq>\<^sub>m (\<lambda>j. FixedPool_at j q)"
    if "pool_inv q" "FixedPool_allocate CheckpointEntry_new q = (Some i, p')" for i p' q
  proof -
    note new = fp.alloc_Some [OF that]
    then have "FixedPool_at j p' = (if j = i then Some CheckpointEntry_new else FixedPool_at j q)" for j
      by (metis fun_upd_apply)
    with new show ?thesis by (simp add: map_le_def del: FixedPool_at_Some)
  qed
  show ?thesis
  proof (cases r1)
    case (Some i)
    with find al assms(2) have "r = Some i" "p' = p1" by (simp_all add: park_slot_def)
    with alloc [of p i p1] al Some assms(1) show ?thesis by simp
  next
    case None
    with al fp.alloc_None [of CheckpointEntry_new p p1] have p1: "p1 = p" by simp
    obtain b p2 where rel: "FixedPool_release CheckpointEntry_new (oldest_entry p) p = (b, p2)" by fastforce
    have gone: "pool_inv p2 \<and> (\<lambda>j. FixedPool_at j p2) \<subseteq>\<^sub>m (\<lambda>j. FixedPool_at j p)"
    proof (cases "\<exists>j x. oldest_entry p = Some j \<and> FixedPool_at j p = Some x")
      case True
      then obtain j x where "oldest_entry p = Some j" "FixedPool_at j p = Some x" by blast
      with fp.release_Some [OF assms(1), of j x CheckpointEntry_new b p2] rel
      have rest: "pool_inv p2" "(\<lambda>i. FixedPool_at i p2) = (\<lambda>i. FixedPool_at i p)(j := None)" by simp_all
      then show ?thesis by (simp add: map_le_def)
    next
      case False
      with rel assms(1) show ?thesis by (auto simp: FixedPool_release_def split: option.splits if_splits)
    qed
    show ?thesis
    proof (cases b)
      case False
      with find al None p1 rel assms(2) gone show ?thesis by (simp add: park_slot_def)
    next
      case True
      with find al None p1 rel assms(2) have al2: "FixedPool_allocate CheckpointEntry_new p2 = (r, p')"
        by (simp add: park_slot_def)
      show ?thesis
      proof (cases r)
        case r: None
        with al2 gone fp.alloc_None [of CheckpointEntry_new p2 p'] show ?thesis by simp
      next
        case (Some i)
        with alloc [of p2 i p'] al2 gone show ?thesis by (auto intro: map_le_trans)
      qed
    qed
  qed
qed

lemma cache_park_effect:
  assumes "pool_inv (cpc_entries c)"
  shows "pool_inv (cpc_entries (cache_park cp c)) \<and>
    (parked (cache_park cp c) \<subseteq>\<^sub>m parked c \<or>
     (\<exists>i. (parked (cache_park cp c))(i := None) \<subseteq>\<^sub>m parked c \<and> parked (cache_park cp c) i = Some cp))"
proof -
  have le: "parked (cpc_entries_update (\<lambda>_. q) c) \<subseteq>\<^sub>m parked c" if "(\<lambda>j. FixedPool_at j q) \<subseteq>\<^sub>m (\<lambda>j. FixedPool_at j (cpc_entries c))" for q
    using map_le_map_option [OF that] by (simp add: parked_def [abs_def])
  obtain r p where sl: "park_slot cp (cpc_entries c) = (r, p)" by fastforce
  note eff = park_slot_effect [OF assms sl]
  consider "cp_end cp \<le> cp_cursor cp" | "\<not> cp_end cp \<le> cp_cursor cp" "r = None" | i where "\<not> cp_end cp \<le> cp_cursor cp" "r = Some i"
    by fastforce
  then show ?thesis
  proof cases
    case 1
    with assms show ?thesis by (simp add: cache_park_def)
  next
    case 2
    with sl eff le show ?thesis by (simp add: cache_park_def)
  next
    case (3 i)
    with eff obtain x where x: "FixedPool_at i p = Some x" "pool_inv p"
      and old: "(\<lambda>j. FixedPool_at j p)(i := None) \<subseteq>\<^sub>m (\<lambda>j. FixedPool_at j (cpc_entries c))" by auto
    let ?e = "\<lparr>ce_checkpoint = cp, ce_stamp = cpc_stamp c + 1\<rparr>"
    have st: "(\<lambda>j. FixedPool_at j (FixedPool_store i ?e p)) = (\<lambda>j. FixedPool_at j p)(i := Some ?e)" "pool_inv (FixedPool_store i ?e p)"
      using fp.store_slot [OF x(2,1), of ?e] by auto
    have new: "cpc_entries (cache_park cp c) = FixedPool_store i ?e p" using 3 sl by (simp add: cache_park_def)
    have at: "parked (cache_park cp c) j = (if j = i then Some cp else map_option ce_checkpoint (FixedPool_at j p))" for j
      using fun_cong [OF st(1), of j] by (simp add: parked_def new)
    then have upd: "(parked (cache_park cp c))(i := None) = (\<lambda>j. map_option ce_checkpoint (((\<lambda>j. FixedPool_at j p)(i := None)) j))"
      by (auto simp: fun_eq_iff)
    have "(parked (cache_park cp c))(i := None) \<subseteq>\<^sub>m parked c"
      unfolding upd using map_le_map_option [OF old] by (simp add: parked_def [abs_def] cong del: if_weak_cong)
    with at st(2) new show ?thesis by auto
  qed
qed

lemma cache_take_effect:
  assumes "pool_inv (cpc_entries c)" "cache_take w c = (r, c')"
  shows "pool_inv (cpc_entries c') \<and> (case r of None \<Rightarrow> c' = c
    | Some cp \<Rightarrow> same_lease_identity cp w \<and> (\<exists>j. parked c j = Some cp \<and> parked c' = (parked c)(j := None)))"
proof (cases "FixedPool_find (\<lambda>e. same_lease_identity (ce_checkpoint e) w) (cpc_entries c)")
  case None
  with assms show ?thesis by (simp add: cache_take_def)
next
  case (Some i)
  from fp.find_Some [OF this] obtain x where x: "FixedPool_at i (cpc_entries c) = Some x" "same_lease_identity (ce_checkpoint x) w" by blast
  obtain b p where rel: "FixedPool_release CheckpointEntry_new (Some i) (cpc_entries c) = (b, p)" by fastforce
  note eff = fp.release_Some [OF assms(1) x(1) rel]
  have "r = Some (ce_checkpoint x)" "c' = c\<lparr>cpc_entries := p\<rparr>"
    using assms(2) Some rel x(1) by (auto simp: cache_take_def)
  moreover have "parked (c\<lparr>cpc_entries := p\<rparr>) = (parked c)(i := None)"
    by (rule ext) (simp add: parked_def, metis eff fun_upd_apply option.map_disc_iff)
  ultimately show ?thesis using eff x by (auto simp: parked_def)
qed

subsection \<open>Histories\<close>

record 's counter_world =
  cw_store :: 's
  cw_leases :: "nat \<Rightarrow> CounterLease option"
  cw_cache :: CounterCheckpointCache
  cw_issued :: "(u32 \<times> u32 \<times> u64) list"

definition fresh_world :: "'s \<Rightarrow> nat \<Rightarrow> 's counter_world" where
  "fresh_world s n = \<lparr>cw_store = s, cw_leases = (\<lambda>i. None), cw_cache = CounterCheckpointCache_new n, cw_issued = []\<rparr>"

text \<open>
  A lease is created from the checkpoint parked for its identity, if there is one; counters are
  drawn from leases; an evicted lease is parked. A restart of the device empties the RAM.
\<close>

inductive lease_step :: "'s CounterStore \<Rightarrow> ('s \<Rightarrow> 's \<Rightarrow> bool) \<Rightarrow> 's counter_world \<Rightarrow> 's counter_world \<Rightarrow> bool"
  for st restarts where
  create: "cw_leases w i = None \<Longrightarrow> l0 = CounterLease_new slot ctx epoch direction block_size \<Longrightarrow>
    cache_take (lease_checkpoint l0) (cw_cache w) = (found, c) \<Longrightarrow>
    (case found of None \<Rightarrow> lease_initialize st | Some cp \<Rightarrow> lease_resume st cp) (l0, cw_store w) = (r, l, s) \<Longrightarrow>
    lease_step st restarts w (w\<lparr>cw_store := s, cw_leases := if r = Inr () then (cw_leases w)(i \<mapsto> l) else cw_leases w, cw_cache := c\<rparr>)"
| refuse: "cw_leases w i = Some l \<Longrightarrow> lease_next st (l, cw_store w) = (Inl e, l', s) \<Longrightarrow>
    lease_step st restarts w (w\<lparr>cw_store := s, cw_leases := (cw_leases w)(i \<mapsto> l')\<rparr>)"
| issue: "cw_leases w i = Some l \<Longrightarrow> lease_next st (l, cw_store w) = (Inr v, l', s) \<Longrightarrow>
    lease_step st restarts w (w\<lparr>cw_store := s, cw_leases := (cw_leases w)(i \<mapsto> l'),
      cw_issued := (cl_slot l, cl_key_epoch l, v) # cw_issued w\<rparr>)"
| evict: "cw_leases w i = Some l \<Longrightarrow>
    lease_step st restarts w (w\<lparr>cw_leases := (cw_leases w)(i := None), cw_cache := cache_park (lease_checkpoint l) (cw_cache w)\<rparr>)"
| restart: "restarts (cw_store w) s \<Longrightarrow>
    lease_step st restarts w (w\<lparr>cw_store := s, cw_leases := (\<lambda>i. None), cw_cache := CounterCheckpointCache_new n\<rparr>)"

definition owners_of :: "'s counter_world \<Rightarrow> owners" where
  "owners_of w k = (case k of Inl i \<Rightarrow> map_option lease_checkpoint (cw_leases w i) | Inr j \<Rightarrow> parked (cw_cache w) j)"

lemma owners_of_simps [simp]:
  "owners_of w (Inl i) = map_option lease_checkpoint (cw_leases w i)" "owners_of w (Inr j) = parked (cw_cache w) j"
  by (simp_all add: owners_of_def)

lemma owners_of_cong:
  "cw_leases w = cw_leases w' \<Longrightarrow> cw_cache w = cw_cache w' \<Longrightarrow> owners_of w = owners_of w'"
  by (auto simp: owners_of_def fun_eq_iff split: sum.splits)

lemma owners_of_lease: "owners_of (w\<lparr>cw_leases := (cw_leases w)(i \<mapsto> l)\<rparr>) = (owners_of w)(Inl i \<mapsto> lease_checkpoint l)"
  by (auto simp: fun_eq_iff owners_of_def split: sum.splits)

lemma parked_new [simp]: "parked (CounterCheckpointCache_new n) j = None"
  by (cases "j < n") (simp_all add: parked_def CounterCheckpointCache_new_def FixedPool_at_def FixedPool_new_def FixedPool_capacity_def)

lemma pool_inv_cache_new [simp]: "pool_inv (cpc_entries (CounterCheckpointCache_new n))"
  by (simp add: CounterCheckpointCache_new_def)

text \<open>Restarts: a record may be lost only when its epoch is refused from then on.\<close>

locale counter_restart = counter_store st stored barred
  for st :: "'s CounterStore" and stored :: "'s \<Rightarrow> u32 \<Rightarrow> CounterRecord option" and barred :: "'s \<Rightarrow> u32 \<Rightarrow> bool" +
  fixes restarts :: "'s \<Rightarrow> 's \<Rightarrow> bool"
  assumes restart_barred: "restarts s s' \<Longrightarrow> barred s e \<Longrightarrow> barred s' e"
    and restart_stored: "restarts s s' \<Longrightarrow> stored s slot = Some p \<Longrightarrow> stored s' slot = Some p \<or> barred s' (cr_key_epoch p)"
begin

definition world_inv :: "'s counter_world \<Rightarrow> bool" where
  "world_inv w \<longleftrightarrow> range_inv (stored (cw_store w)) (barred (cw_store w)) (owners_of w) (set (cw_issued w)) \<and>
     distinct (cw_issued w) \<and> pool_inv (cpc_entries (cw_cache w)) \<and>
     (\<forall>i l. cw_leases w i = Some l \<longrightarrow> cl_initialized l \<and> cl_block_size l \<noteq> 0)"

lemma world_inv_fresh: "world_inv (fresh_world s n)"
proof -
  have "owners_of (fresh_world s n) k = None" for k by (cases k) (simp_all add: fresh_world_def)
  then show ?thesis by (simp add: world_inv_def fresh_world_def range_inv_def)
qed

lemma covered_restart:
  assumes "restarts s s'" "covered (stored s) slot e n"
  shows "covered (stored s') slot e n \<or> barred s' e"
proof -
  from assms(2) obtain p where p: "stored s slot = Some p" "e \<le> cr_key_epoch p"
    "e < cr_key_epoch p \<or> e = cr_key_epoch p \<and> n \<le> cr_high_water_exclusive p"
    by (auto simp: covered_def)
  from restart_stored [OF assms(1) p(1)] barred_down [OF _ p(2)] p(3) show ?thesis by (auto simp: covered_def)
qed

lemma world_inv_restart:
  assumes "world_inv w" "restarts (cw_store w) s"
  shows "world_inv (w\<lparr>cw_store := s, cw_leases := (\<lambda>i. None), cw_cache := CounterCheckpointCache_new n\<rparr>)"
proof -
  let ?w = "w\<lparr>cw_store := s, cw_leases := (\<lambda>i. None), cw_cache := CounterCheckpointCache_new n\<rparr>"
  have none: "owners_of ?w k = None" for k by (cases k) simp_all
  from assms(1) have inv: "range_inv (stored (cw_store w)) (barred (cw_store w)) (owners_of w) (set (cw_issued w))"
    by (simp add: world_inv_def)
  have "range_inv (stored s) (barred s) (owners_of ?w) (set (cw_issued w))"
  proof (rule range_invI, goal_cases)
    case (3 t e v)
    with restart_barred [OF assms(2)] have "\<not> barred (cw_store w) e" by blast
    with log_covered [OF inv 3(1)] covered_restart [OF assms(2)] 3(2) show ?case by blast
  qed (simp_all add: none)
  with assms(1) show ?thesis by (simp add: world_inv_def)
qed

lemma world_invI:
  assumes "world_inv w" "range_inv (stored (cw_store w')) (barred (cw_store w')) (owners_of w') (set (cw_issued w'))"
    and "distinct (cw_issued w')" "pool_inv (cpc_entries (cw_cache w'))"
    and "\<And>i l. cw_leases w' i = Some l \<Longrightarrow> cw_leases w i = Some l \<or> cl_initialized l \<and> cl_block_size l \<noteq> 0"
  shows "world_inv w'"
  using assms unfolding world_inv_def by blast

lemma world_inv_create:
  assumes "world_inv w" "cw_leases w i = None" "l0 = CounterLease_new slot ctx epoch direction block_size"
    and take: "cache_take (lease_checkpoint l0) (cw_cache w) = (found, c)"
    and run: "(case found of None \<Rightarrow> lease_initialize st | Some cp \<Rightarrow> lease_resume st cp) (l0, cw_store w) = (r, l, s)"
  shows "world_inv (w\<lparr>cw_store := s, cw_leases := if r = Inr () then (cw_leases w)(i \<mapsto> l) else cw_leases w, cw_cache := c\<rparr>)"
    (is "world_inv ?w")
proof -
  from assms(1) have inv: "range_inv (stored (cw_store w)) (barred (cw_store w)) (owners_of w) (set (cw_issued w))"
    and pool: "pool_inv (cpc_entries (cw_cache w))" "distinct (cw_issued w)" by (simp_all add: world_inv_def)
  note eff = cache_take_effect [OF pool(1) take]
  have new: "cl_cursor l0 = 0" "cl_end l0 = 0" by (simp_all add: assms(3) CounterLease_new_def)
  let ?taken = "w\<lparr>cw_cache := c\<rparr>"
  have w: "owners_of ?w = (if r = Inr () then (owners_of ?taken)(Inl i \<mapsto> lease_checkpoint l) else owners_of ?taken)"
  proof
    fix k
    show "owners_of ?w k = (if r = Inr () then (owners_of ?taken)(Inl i \<mapsto> lease_checkpoint l) else owners_of ?taken) k" by (cases k) auto
  qed
  have "range_inv (stored (cw_store w)) (barred (cw_store w)) (owners_of ?w) (set (cw_issued w)) \<and>
    stored s = stored (cw_store w) \<and> barred s = barred (cw_store w) \<and> (r = Inr () \<longrightarrow> cl_initialized l \<and> cl_block_size l \<noteq> 0)"
  proof (cases found)
    case None
    with eff have "owners_of ?taken = owners_of w" by (simp cong: owners_of_cong)
    with inv lease_initialize_effect [OF _ new, of "cw_store w" r l s] run None range_inv_idle [OF inv, of l "Inl i"] show ?thesis
      by (auto simp: w)
  next
    case (Some cp)
    with eff obtain j where j: "parked (cw_cache w) j = Some cp" "parked c = (parked (cw_cache w))(j := None)" by auto
    have own: "owners_of ?taken = (owners_of w)(Inr j := None)"
    proof
      fix k
      show "owners_of ?taken k = ((owners_of w)(Inr j := None)) k" by (cases k) (auto simp: j(2))
    qed
    have drop: "range_inv (stored (cw_store w)) (barred (cw_store w)) (owners_of ?taken) (set (cw_issued w))"
      unfolding own by (rule range_inv_drop [OF inv]) (simp add: map_le_def)
    note ran = lease_resume_effect [OF _ new, of cp "cw_store w" r l s]
    show ?thesis
    proof (cases "r = Inr () \<and> \<not> idle (stored (cw_store w)) l")
      case False
      with ran run Some drop range_inv_idle [OF drop, of l "Inl i"] show ?thesis by (auto simp: w)
    next
      case True
      with ran run Some have "same_lease_identity (lease_checkpoint l) cp" "cl_cursor l = cp_cursor cp" "cl_end l = cp_end cp" by auto
      then have "range_inv (stored (cw_store w)) (barred (cw_store w)) ((owners_of ?taken)(Inl i \<mapsto> lease_checkpoint l)) (set (cw_issued w))"
        by (intro range_inv_move [OF inv, of "Inr j" cp])
          (auto simp: j own assms(2) lease_checkpoint_def same_lease_identity_def)
      with ran run Some True show ?thesis unfolding w by auto
    qed
  qed
  with eff pool assms(1) show ?thesis
    by (intro world_invI [OF assms(1)]) (auto split: if_splits)
qed

lemma world_inv_evict:
  assumes "world_inv w" "cw_leases w i = Some l"
  shows "world_inv (w\<lparr>cw_leases := (cw_leases w)(i := None), cw_cache := cache_park (lease_checkpoint l) (cw_cache w)\<rparr>)"
    (is "world_inv ?w")
proof -
  from assms(1) have inv: "range_inv (stored (cw_store w)) (barred (cw_store w)) (owners_of w) (set (cw_issued w))"
    and pool: "pool_inv (cpc_entries (cw_cache w))" "distinct (cw_issued w)" by (simp_all add: world_inv_def)
  let ?c = "cache_park (lease_checkpoint l) (cw_cache w)"
  note eff = cache_park_effect [OF pool(1), of "lease_checkpoint l"]
  have le: "f \<subseteq>\<^sub>m (owners_of w)(Inl i := None)"
    if "\<And>j. f (Inl j) = (if j = i then None else owners_of w (Inl j))" "(\<lambda>j. f (Inr j)) \<subseteq>\<^sub>m parked (cw_cache w)" for f
    unfolding map_le_def
  proof
    fix k assume "k \<in> dom f"
    with that show "f k = ((owners_of w)(Inl i := None)) k" by (cases k) (auto simp: map_le_def)
  qed
  from eff consider "parked ?c \<subseteq>\<^sub>m parked (cw_cache w)"
    | j where "(parked ?c)(j := None) \<subseteq>\<^sub>m parked (cw_cache w)" "parked ?c j = Some (lease_checkpoint l)" by blast
  then have "range_inv (stored (cw_store w)) (barred (cw_store w)) (owners_of ?w) (set (cw_issued w))"
  proof cases
    case 1
    have "owners_of ?w \<subseteq>\<^sub>m (owners_of w)(Inl i := None)" by (rule le) (use 1 in auto)
    then have "owners_of ?w \<subseteq>\<^sub>m owners_of w" by (rule map_le_trans) (simp add: map_le_def)
    then show ?thesis by (rule range_inv_drop [OF inv])
  next
    case (2 j)
    let ?f = "(owners_of ?w)(Inr j := None)"
    have "(\<lambda>k. ?f (Inr k)) = (parked ?c)(j := None)" by (rule ext) simp
    with 2(1) have "(\<lambda>k. ?f (Inr k)) \<subseteq>\<^sub>m parked (cw_cache w)" by (simp only:)
    then have "?f \<subseteq>\<^sub>m (owners_of w)(Inl i := None)" by (rule le [rotated]) simp
    from range_inv_move [OF inv, of "Inl i" "lease_checkpoint l" ?f "Inr j" "lease_checkpoint l"] this assms(2)
    have "range_inv (stored (cw_store w)) (barred (cw_store w)) (?f(Inr j \<mapsto> lease_checkpoint l)) (set (cw_issued w))" by simp
    moreover have "?f(Inr j \<mapsto> lease_checkpoint l) = owners_of ?w" using 2(2) by (auto simp: fun_eq_iff)
    ultimately show ?thesis by simp
  qed
  with eff pool show ?thesis by (intro world_invI [OF assms(1)]) (auto split: if_splits)
qed

lemma world_inv_next:
  assumes "world_inv w" "cw_leases w i = Some l" "lease_next st (l, cw_store w) = (r, l', s)"
  shows "world_inv (w\<lparr>cw_store := s, cw_leases := (cw_leases w)(i \<mapsto> l'),
    cw_issued := (case r of Inl _ \<Rightarrow> [] | Inr v \<Rightarrow> [(cl_slot l, cl_key_epoch l, v)]) @ cw_issued w\<rparr>)" (is "world_inv ?w")
proof -
  from assms(1) have inv: "range_inv (stored (cw_store w)) (barred (cw_store w)) (owners_of w) (set (cw_issued w))"
    and pool: "pool_inv (cpc_entries (cw_cache w))" "distinct (cw_issued w)"
    and l: "cl_initialized l" "cl_block_size l \<noteq> 0" using assms(2) by (auto simp: world_inv_def)
  have "owners_of w (Inl i) = Some (lease_checkpoint l)" using assms(2) by simp
  note eff = lease_next_ranges [OF assms(3) inv this l]
  have own: "owners_of ?w = (owners_of w)(Inl i \<mapsto> lease_checkpoint l')"
    by (rule trans [OF owners_of_cong owners_of_lease]) simp_all
  show ?thesis
    using eff pool l by (intro world_invI [OF assms(1)]) (auto simp: own same_lease_def split: if_splits sum.splits)
qed

lemma lease_step_inv: "lease_step st restarts w w' \<Longrightarrow> world_inv w \<Longrightarrow> world_inv w'"
proof (induction rule: lease_step.induct)
  case (create w i l0 slot ctx epoch direction block_size found c r l s)
  then show ?case by (intro world_inv_create)
next
  case (refuse w i l e l' s)
  from world_inv_next [OF refuse(3,1,2)] show ?case by simp
next
  case (issue w i l v l' s)
  from world_inv_next [OF issue(3,1,2)] show ?case by simp
next
  case (evict w i l)
  then show ?case by (intro world_inv_evict)
next
  case (restart w s n)
  then show ?case by (intro world_inv_restart)
qed

lemma issued_once:
  assumes "(lease_step st restarts)\<^sup>*\<^sup>* (fresh_world s n) w"
  shows "distinct (cw_issued w)"
proof -
  from assms have "world_inv w" by (induction rule: rtranclp_induct) (auto intro: world_inv_fresh lease_step_inv)
  then show ?thesis by (simp add: world_inv_def)
qed

end

end
