(* ===== verification/Peer_State.thy ===== *)
theory Peer_State
  imports Counter_Lease Replay_Guard
begin

text \<open>
  Bounded persistent peer state: \<^verbatim>\<open>src/peer_state.cpp\<close> and \<^verbatim>\<open>include/routeloom/peer_state.hpp\<close>. The
  counter store decorator sweeps dead records behind a durable witness and caps the number of
  records; the replay store decorator caps the number of floors. The inventories are records of
  their virtual functions.
\<close>

subsection \<open>The entry budget\<close>

abbreviation kNvsEntryBytes :: u32 where "kNvsEntryBytes \<equiv> 32"
abbreviation kNvsEntriesPerPage :: u32 where "kNvsEntriesPerPage \<equiv> 126"
abbreviation kPeerStateFixedEntries :: u32 where "kPeerStateFixedEntries \<equiv> 3"
abbreviation kPeerStateBudgetPercent :: u32 where "kPeerStateBudgetPercent \<equiv> 80"

definition nvs_blob_entries :: "u64 \<Rightarrow> u32" where
  "nvs_blob_entries bytes = 2 + ucast ((bytes + ucast kNvsEntryBytes - 1) div ucast kNvsEntryBytes)"

text \<open>The sizes are those the source asserts of \<^verbatim>\<open>CounterRecord\<close>, \<^verbatim>\<open>ReplayFloorRecord\<close> and \<^verbatim>\<open>ReplayWindowRecord\<close>.\<close>

definition kPeerStateEntriesPerPeer :: u32 where
  "kPeerStateEntriesPerPeer = 2 * (nvs_blob_entries 32 + nvs_blob_entries 24 + nvs_blob_entries 40)"

definition max_persisted_peers_for_entries :: "u32 \<Rightarrow> u32" where
  "max_persisted_peers_for_entries total_entries =
     (let usable = (ucast (if kNvsEntriesPerPage < total_entries then total_entries - kNvsEntriesPerPage else 0) :: u64);
          budget = usable * ucast kPeerStateBudgetPercent div 100
      in if ucast kPeerStateFixedEntries < budget
         then ucast ((budget - ucast kPeerStateFixedEntries) div ucast kPeerStateEntriesPerPeer)
         else 0)"

record PeerStateLimits =
  max_counter_records :: u32
  max_replay_peers :: u32

definition peer_state_limits :: "u32 \<Rightarrow> PeerStateLimits" where
  "peer_state_limits max_persisted_peers =
     (let slots = if 0x7FFFFFFF < max_persisted_peers then 0xFFFFFFFF else 2 * max_persisted_peers
      in \<lparr>max_counter_records = slots, max_replay_peers = slots\<rparr>)"

subsection \<open>Inventories\<close>

abbreviation kSweepBatch :: nat where "kSweepBatch \<equiv> 16"
abbreviation kMaxSweepPasses :: nat where "kMaxSweepPasses \<equiv> 4096"

text \<open>The collector's array is the list of its used elements.\<close>

record SweepCollector =
  sw_batch :: "u32 list"
  sw_batch_max_epoch :: u32
  sw_more :: bool
  sw_current :: u32
  sw_future :: u32
  sw_unreadable :: u32
  sw_status :: "unit result"

definition SweepCollector_new :: SweepCollector where
  "SweepCollector_new = \<lparr>sw_batch = [], sw_batch_max_epoch = 0, sw_more = False, sw_current = 0, sw_future = 0,
     sw_unreadable = 0, sw_status = Inr ()\<rparr>"

text \<open>
  A visitor takes a slot and answers whether the enumeration goes on; it carries its own state and
  may use the store.
\<close>

type_synonym ('v, 's) visitor = "u32 \<Rightarrow> 'v \<times> 's \<Rightarrow> bool \<times> 'v \<times> 's"

record 's CounterInventory =
  ci_store :: "'s CounterStore"
  ci_for_each_slot :: "(SweepCollector, 's) visitor \<Rightarrow> (SweepCollector \<times> 's, unit) prog"
  ci_erase :: "u32 \<Rightarrow> ('s, unit) prog"
  ci_load_witness :: "('s, u32 option) prog"
  ci_commit_witness :: "u32 \<Rightarrow> ('s, unit) prog"

record 's ReplayInventory =
  ri_store :: "'s ReplayStore"
  ri_for_each_floor_slot :: "(u32, 's) visitor \<Rightarrow> (u32 \<times> 's, unit) prog"

definition sweep_visit :: "'s CounterStore \<Rightarrow> u32 \<Rightarrow> (SweepCollector, 's) visitor" where
  "sweep_visit st tx_epoch slot = (\<lambda>(c, s).
     case cs_load st slot s of
       (Inl e, s) \<Rightarrow>
         if status_code e = IntegrityError then (True, c\<lparr>sw_unreadable := sw_unreadable c + 1\<rparr>, s)
         else (False, c\<lparr>sw_status := Inl e\<rparr>, s)
     | (Inr None, s) \<Rightarrow> (True, c, s)
     | (Inr (Some rec), s) \<Rightarrow>
         if \<not> counter_record_intact rec then (True, c\<lparr>sw_unreadable := sw_unreadable c + 1\<rparr>, s)
         else if cr_key_epoch rec < tx_epoch
         then (True, if length (sw_batch c) < kSweepBatch
                     then c\<lparr>sw_batch := sw_batch c @ [slot],
                            sw_batch_max_epoch := if sw_batch_max_epoch c < cr_key_epoch rec then cr_key_epoch rec
                                                  else sw_batch_max_epoch c\<rparr>
                     else c\<lparr>sw_more := True\<rparr>, s)
         else if cr_key_epoch rec = tx_epoch then (True, c\<lparr>sw_current := sw_current c + 1\<rparr>, s)
         else (True, c\<lparr>sw_future := sw_future c + 1\<rparr>, s))"

definition slot_counter_visit :: "(u32, 's) visitor" where
  "slot_counter_visit slot = (\<lambda>(n, s). (True, n + 1, s))"

subsection \<open>The bounded counter store\<close>

record CounterSweepReport =
  sr_erased :: u32
  sr_retained_current :: u32
  sr_retained_future :: u32
  sr_retained_unreadable :: u32
  sr_passes :: u32

definition CounterSweepReport_new :: CounterSweepReport where
  "CounterSweepReport_new = \<lparr>sr_erased = 0, sr_retained_current = 0, sr_retained_future = 0, sr_retained_unreadable = 0,
     sr_passes = 0\<rparr>"

text \<open>\<^verbatim>\<open>inner_ != nullptr\<close> is \<open>bc_open\<close>; the inventory itself is an argument, its state the second component.\<close>

record BoundedCounterStore =
  bc_open :: bool
  bc_max_records :: u32
  bc_tx_epoch :: u32
  bc_witness :: u32
  bc_witness_found :: bool
  bc_records :: u32
  bc_records_known :: bool
  bc_capacity_rejects :: u32
  bc_witness_rejects :: u32
  bc_report :: CounterSweepReport
  bc_sweep_status :: "unit result"

definition BoundedCounterStore_new :: BoundedCounterStore where
  "BoundedCounterStore_new = \<lparr>bc_open = False, bc_max_records = 0, bc_tx_epoch = 0, bc_witness = 0, bc_witness_found = False,
     bc_records = 0, bc_records_known = False, bc_capacity_rejects = 0, bc_witness_rejects = 0,
     bc_report = CounterSweepReport_new, bc_sweep_status = Inr ()\<rparr>"

type_synonym ('s, 'a) bounded_prog = "(BoundedCounterStore \<times> 's, 'a) prog"

definition bounded_close :: "BoundedCounterStore \<Rightarrow> BoundedCounterStore" where
  "bounded_close b = b\<lparr>bc_open := False, bc_max_records := 0, bc_tx_epoch := 0, bc_witness := 0, bc_witness_found := False,
     bc_records := 0, bc_records_known := False, bc_report := CounterSweepReport_new, bc_sweep_status := Inr ()\<rparr>"

definition raise_witness :: "'s CounterInventory \<Rightarrow> u32 \<Rightarrow> ('s, unit) bounded_prog" where
  "raise_witness inner batch_max_epoch = (\<lambda>(b, s).
     if \<not> bc_witness_found b \<or> bc_witness b < batch_max_epoch
     then case ci_commit_witness inner batch_max_epoch s of
            (Inl e, s) \<Rightarrow> (Inl e, b, s)
          | (Inr _, s) \<Rightarrow> (Inr (), b\<lparr>bc_witness := batch_max_epoch, bc_witness_found := True\<rparr>, s)
     else (Inr (), b, s))"

primrec erase_batch :: "'s CounterInventory \<Rightarrow> u32 list \<Rightarrow> ('s, unit) bounded_prog" where
  "erase_batch inner [] x = (Inr (), x)"
| "erase_batch inner (slot # slots) x =
     (case ci_erase inner slot (snd x) of
        (Inl e, s) \<Rightarrow> (Inl e, fst x, s)
      | (Inr _, s) \<Rightarrow> erase_batch inner slots
          ((fst x)\<lparr>bc_report := (bc_report (fst x))\<lparr>sr_erased := sr_erased (bc_report (fst x)) + 1\<rparr>\<rparr>, s))"

definition sweep_census :: "SweepCollector \<Rightarrow> BoundedCounterStore \<Rightarrow> BoundedCounterStore" where
  "sweep_census c b = b\<lparr>
     bc_report := (bc_report b)\<lparr>sr_retained_current := sw_current c, sr_retained_future := sw_future c,
                                sr_retained_unreadable := sw_unreadable c\<rparr>,
     bc_records := sw_current c + sw_future c + sw_unreadable c, bc_records_known := True\<rparr>"

definition sweep_enumerate :: "'s CounterInventory \<Rightarrow> ('s, SweepCollector) bounded_prog" where
  "sweep_enumerate inner = (\<lambda>(b, s).
     case ci_for_each_slot inner (sweep_visit (ci_store inner) (bc_tx_epoch b)) (SweepCollector_new, s) of
       (Inl e, c, s) \<Rightarrow> (Inl e, b, s)
     | (Inr _, c, s) \<Rightarrow> (case sw_status c of Inl e \<Rightarrow> (Inl e, b, s) | Inr _ \<Rightarrow> (Inr c, b, s)))"

text \<open>One pass answers whether it was the last.\<close>

definition sweep_pass :: "'s CounterInventory \<Rightarrow> u32 \<Rightarrow> ('s, bool) bounded_prog" where
  "sweep_pass inner pass = (\<lambda>(b, s).
     seq (sweep_enumerate inner) (\<lambda>c.
     seq (if sw_batch c \<noteq> [] then seq (raise_witness inner (sw_batch_max_epoch c)) (\<lambda>_. erase_batch inner (sw_batch c)) else ret ()) (\<lambda>_ (b, s).
     if sw_batch c = [] \<or> \<not> sw_more c then (Inr True, sweep_census c b, s) else (Inr False, b, s)))
     (b\<lparr>bc_report := (bc_report b)\<lparr>sr_passes := pass + 1\<rparr>\<rparr>, s))"

primrec sweep_passes :: "'s CounterInventory \<Rightarrow> nat \<Rightarrow> u32 \<Rightarrow> ('s, unit) bounded_prog" where
  "sweep_passes inner 0 pass x = (Inl (Error InternalError ''counter sweep did not converge''), x)"
| "sweep_passes inner (Suc n) pass x =
     seq (sweep_pass inner pass) (\<lambda>last. if last then ret () else sweep_passes inner n (pass + 1)) x"

definition bounded_sweep :: "'s CounterInventory \<Rightarrow> ('s, unit) bounded_prog" where
  "bounded_sweep inner = (\<lambda>(b, s). sweep_passes inner kMaxSweepPasses 0 (b\<lparr>bc_records_known := False\<rparr>, s))"

abbreviation kTxEpochWitness :: status where
  "kTxEpochWitness \<equiv> Error Conflict ''TX_EPOCH_AT_OR_BELOW_SWEEP_WITNESS''"

abbreviation kPeerStateCapacity :: status where
  "kPeerStateCapacity \<equiv> Error NoCapacity ''PEER_STATE_CAPACITY''"

definition bounded_open :: "'s CounterInventory \<Rightarrow> u32 \<Rightarrow> u32 \<Rightarrow> ('s, unit) bounded_prog" where
  "bounded_open inner max_records tx_epoch = (\<lambda>(b, s).
     let b = bounded_close b in
     if tx_epoch = 0 then (Inl (Error InvalidArgument ''TX epoch unset''), b, s)
     else case ci_load_witness inner s of
       (Inl e, s) \<Rightarrow> (Inl e, b, s)
     | (Inr found, s) \<Rightarrow>
         if (case found of Some w \<Rightarrow> tx_epoch \<le> w | None \<Rightarrow> False)
         then (Inl kTxEpochWitness, b\<lparr>bc_witness_rejects := bc_witness_rejects b + 1\<rparr>, s)
         else (case bounded_sweep inner (b\<lparr>bc_open := True, bc_max_records := max_records, bc_tx_epoch := tx_epoch,
                 bc_witness := (case found of Some w \<Rightarrow> w | None \<Rightarrow> 0), bc_witness_found := (found \<noteq> None)\<rparr>, s) of
                 (r, b, s) \<Rightarrow> (Inr (), b\<lparr>bc_sweep_status := r\<rparr>, s)))"

definition bounded_load :: "'s CounterInventory \<Rightarrow> u32 \<Rightarrow> ('s, CounterRecord option) bounded_prog" where
  "bounded_load inner slot = (\<lambda>(b, s).
     if \<not> bc_open b then (Inl (Error InvalidState ''counter store not open''), b, s)
     else case cs_load (ci_store inner) slot s of (r, s) \<Rightarrow> (r, b, s))"

text \<open>A record for a new slot, after a failed commit counted when it is found there.\<close>

definition commit_new :: "'s CounterInventory \<Rightarrow> u32 \<Rightarrow> CounterRecord \<Rightarrow> ('s, unit) bounded_prog" where
  "commit_new inner slot rec = (\<lambda>(b, s).
     if \<not> bc_records_known b \<or> bc_max_records b \<le> bc_records b
     then (Inl kPeerStateCapacity, b\<lparr>bc_capacity_rejects := bc_capacity_rejects b + 1\<rparr>, s)
     else case cs_commit (ci_store inner) slot rec s of
       (Inr _, s) \<Rightarrow> (Inr (), b\<lparr>bc_records := bc_records b + 1\<rparr>, s)
     | (Inl e, s) \<Rightarrow>
         (case cs_load (ci_store inner) slot s of
            (Inr (Some _), s) \<Rightarrow> (Inl e, b\<lparr>bc_records := bc_records b + 1\<rparr>, s)
          | (_, s) \<Rightarrow> (Inl e, b, s)))"

definition bounded_commit :: "'s CounterInventory \<Rightarrow> u32 \<Rightarrow> CounterRecord \<Rightarrow> ('s, unit) bounded_prog" where
  "bounded_commit inner slot rec = (\<lambda>(b, s).
     if \<not> bc_open b then (Inl (Error InvalidState ''counter store not open''), b, s)
     else if bc_witness_found b \<and> cr_key_epoch rec \<le> bc_witness b
     then (Inl kTxEpochWitness, b\<lparr>bc_witness_rejects := bc_witness_rejects b + 1\<rparr>, s)
     else case cs_load (ci_store inner) slot s of
       (Inl e, s) \<Rightarrow> (Inl e, b, s)
     | (Inr (Some _), s) \<Rightarrow> (case cs_commit (ci_store inner) slot rec s of (r, s) \<Rightarrow> (r, b, s))
     | (Inr None, s) \<Rightarrow> commit_new inner slot rec (b, s))"

definition bounded_counter :: "'s CounterInventory \<Rightarrow> (BoundedCounterStore \<times> 's) CounterStore" where
  "bounded_counter inner = \<lparr>cs_load = bounded_load inner, cs_commit = bounded_commit inner\<rparr>"

subsection \<open>The bounded replay store\<close>

record BoundedReplayStore =
  br_open :: bool
  br_max_peers :: u32
  br_peers :: u32
  br_peers_known :: bool
  br_capacity_rejects :: u32
  br_count_status :: "unit result"

definition BoundedReplayStore_new :: BoundedReplayStore where
  "BoundedReplayStore_new = \<lparr>br_open = False, br_max_peers = 0, br_peers = 0, br_peers_known = False,
     br_capacity_rejects = 0, br_count_status = Inr ()\<rparr>"

definition replay_close :: "BoundedReplayStore \<Rightarrow> BoundedReplayStore" where
  "replay_close b = b\<lparr>br_open := False, br_max_peers := 0, br_peers := 0, br_peers_known := False, br_count_status := Inr ()\<rparr>"

definition replay_open :: "'s ReplayInventory \<Rightarrow> u32 \<Rightarrow> (BoundedReplayStore \<times> 's, unit) prog" where
  "replay_open inner max_peers = (\<lambda>(b, s).
     case ri_for_each_floor_slot inner slot_counter_visit (0, s) of
       (r, count, s) \<Rightarrow>
         (Inr (), (replay_close b)\<lparr>br_open := True, br_max_peers := max_peers, br_count_status := r,
            br_peers_known := (r = Inr ()), br_peers := if r = Inr () then count else 0\<rparr>, s))"

abbreviation not_open :: status where "not_open \<equiv> Error InvalidState ''replay store not open''"

definition replay_load_window :: "'s ReplayInventory \<Rightarrow> u32 \<Rightarrow> (BoundedReplayStore \<times> 's, ReplayWindowRecord option) prog" where
  "replay_load_window inner slot = (\<lambda>(b, s).
     if \<not> br_open b then (Inl not_open, b, s)
     else case rs_load_window (ri_store inner) slot s of (r, s) \<Rightarrow> (r, b, s))"

definition replay_load_floor :: "'s ReplayInventory \<Rightarrow> u32 \<Rightarrow> (BoundedReplayStore \<times> 's, ReplayFloorRecord option) prog" where
  "replay_load_floor inner slot = (\<lambda>(b, s).
     if \<not> br_open b then (Inl not_open, b, s)
     else case rs_load_floor (ri_store inner) slot s of (r, s) \<Rightarrow> (r, b, s))"

definition replay_commit_window ::
  "'s ReplayInventory \<Rightarrow> u32 \<Rightarrow> ReplayWindowRecord \<Rightarrow> (BoundedReplayStore \<times> 's, unit) prog" where
  "replay_commit_window inner slot rec = (\<lambda>(b, s).
     if \<not> br_open b then (Inl not_open, b, s)
     else case rs_load_floor (ri_store inner) slot s of
       (Inl e, s) \<Rightarrow> (Inl e, b, s)
     | (Inr None, s) \<Rightarrow> (Inl (Error IntegrityError ''replay window without floor''), b, s)
     | (Inr (Some _), s) \<Rightarrow> (case rs_commit_window (ri_store inner) slot rec s of (r, s) \<Rightarrow> (r, b, s)))"

definition replay_commit_floor ::
  "'s ReplayInventory \<Rightarrow> u32 \<Rightarrow> ReplayFloorRecord \<Rightarrow> (BoundedReplayStore \<times> 's, unit) prog" where
  "replay_commit_floor inner slot rec = (\<lambda>(b, s).
     if \<not> br_open b then (Inl not_open, b, s)
     else case rs_load_floor (ri_store inner) slot s of
       (Inl e, s) \<Rightarrow> (Inl e, b, s)
     | (Inr (Some _), s) \<Rightarrow> (case rs_commit_floor (ri_store inner) slot rec s of (r, s) \<Rightarrow> (r, b, s))
     | (Inr None, s) \<Rightarrow>
         if \<not> br_peers_known b \<or> br_max_peers b \<le> br_peers b
         then (Inl kPeerStateCapacity, b\<lparr>br_capacity_rejects := br_capacity_rejects b + 1\<rparr>, s)
         else (case rs_commit_floor (ri_store inner) slot rec s of
                 (Inr _, s) \<Rightarrow> (Inr (), b\<lparr>br_peers := br_peers b + 1\<rparr>, s)
               | (Inl e, s) \<Rightarrow>
                   (case rs_load_floor (ri_store inner) slot s of
                      (Inr (Some _), s) \<Rightarrow> (Inl e, b\<lparr>br_peers := br_peers b + 1\<rparr>, s)
                    | (_, s) \<Rightarrow> (Inl e, b, s))))"

definition bounded_replay :: "'s ReplayInventory \<Rightarrow> (BoundedReplayStore \<times> 's) ReplayStore" where
  "bounded_replay inner = \<lparr>rs_load_window = replay_load_window inner, rs_commit_window = replay_commit_window inner,
     rs_load_floor = replay_load_floor inner, rs_commit_floor = replay_commit_floor inner\<rparr>"

end
