(* ===== verification/Peer_Safety.thy ===== *)
theory Peer_Safety
  imports Peer_State Counter_Safety Replay_Safety "HOL-Library.AList"
begin

text \<open>
  The bounded stores. The locale \<open>counter_inventory\<close> is the documented contract of \<^verbatim>\<open>CounterInventory\<close>; a
  bounded counter store over it is a store whose restarts, sweeps and power cuts included, lose a
  record only behind the witness, so that leases over it never issue a counter twice. Over an
  inventory that works, the sweep converges and the record count is exact, and the cap holds.
  A bounded replay store keeps the contract of the replay guard's store.
\<close>

subsection \<open>Enumerations\<close>

text \<open>A visitor sees the slots in order until it declines.\<close>

primrec visit_slots :: "('v, 's) visitor \<Rightarrow> u32 list \<Rightarrow> 'v \<times> 's \<Rightarrow> bool \<times> 'v \<times> 's" where
  "visit_slots visit [] x = (True, x)"
| "visit_slots visit (slot # slots) x =
     (case visit slot x of (go_on, y) \<Rightarrow> if go_on then visit_slots visit slots y else (False, y))"

locale counter_inventory =
  fixes inner :: "'s CounterInventory"
    and stored :: "'s \<Rightarrow> u32 \<Rightarrow> CounterRecord option"
    and witness :: "'s \<Rightarrow> u32 option"
  assumes load: "cs_load (ci_store inner) slot s = (r, s') \<Longrightarrow>
      stored s' = stored s \<and> witness s' = witness s \<and> (\<forall>x. r = Inr x \<longrightarrow> stored s slot = x)"
    and commit: "cs_commit (ci_store inner) slot rec s = (u, s') \<Longrightarrow> witness s' = witness s \<and>
      (stored s' = stored s \<and> u \<noteq> Inr () \<or> stored s' = (stored s)(slot \<mapsto> rec))"
    and erase: "ci_erase inner slot s = (u, s') \<Longrightarrow> witness s' = witness s \<and>
      (stored s' = stored s \<and> u \<noteq> Inr () \<or> stored s' = (stored s)(slot := None))"
    and load_witness: "ci_load_witness inner s = (q, s') \<Longrightarrow>
      stored s' = stored s \<and> witness s' = witness s \<and> (\<forall>x. q = Inr x \<longrightarrow> witness s = x)"
    and commit_witness: "ci_commit_witness inner w s = (u, s') \<Longrightarrow> stored s' = stored s \<and>
      (witness s' = witness s \<and> u \<noteq> Inr () \<or> witness s' = Some w)"
    and for_each_slot: "ci_for_each_slot inner visit (c, s) = (u, c', s') \<Longrightarrow>
      \<exists>slots go_on s1 s2. distinct slots \<and> set slots \<subseteq> dom (stored s) \<and> (u = Inr () \<longrightarrow> set slots = dom (stored s)) \<and>
        stored s1 = stored s \<and> witness s1 = witness s \<and> visit_slots visit slots (c, s1) = (go_on, c', s2) \<and>
        stored s' = stored s2 \<and> witness s' = witness s2"

text \<open>The epochs the bounded store refuses, in RAM while it is open and after every restart.\<close>

definition bounded_barred :: "('s \<Rightarrow> u32 option) \<Rightarrow> BoundedCounterStore \<times> 's \<Rightarrow> u32 \<Rightarrow> bool" where
  "bounded_barred witness x e \<longleftrightarrow> (\<exists>w. witness (snd x) = Some w \<and> e \<le> w) \<and>
     (bc_open (fst x) \<longrightarrow> bc_witness_found (fst x) \<and> e \<le> bc_witness (fst x))"

text \<open>A restart opens the store again, for any boot session and cap, over what the medium holds.\<close>

definition bounded_restarts :: "'s CounterInventory \<Rightarrow> BoundedCounterStore \<times> 's \<Rightarrow> BoundedCounterStore \<times> 's \<Rightarrow> bool" where
  "bounded_restarts inner x y \<longleftrightarrow> (\<exists>b max_records tx_epoch r. bounded_open inner max_records tx_epoch (b, snd x) = (r, y))"

text \<open>The witness in RAM is the durable one.\<close>

definition witness_agrees :: "('s \<Rightarrow> u32 option) \<Rightarrow> BoundedCounterStore \<times> 's \<Rightarrow> bool" where
  "witness_agrees witness x \<longleftrightarrow> witness (snd x) = (if bc_witness_found (fst x) then Some (bc_witness (fst x)) else None)"

context counter_inventory
begin

abbreviation bstored :: "BoundedCounterStore \<times> 's \<Rightarrow> u32 \<Rightarrow> CounterRecord option" where
  "bstored x \<equiv> stored (snd x)"

abbreviation barred :: "BoundedCounterStore \<times> 's \<Rightarrow> u32 \<Rightarrow> bool" where
  "barred \<equiv> bounded_barred witness"

text \<open>What a step of the sweep may lose.\<close>

definition keeps :: "BoundedCounterStore \<times> 's \<Rightarrow> BoundedCounterStore \<times> 's \<Rightarrow> bool" where
  "keeps x y \<longleftrightarrow> bc_open (fst y) = bc_open (fst x) \<and> bc_tx_epoch (fst y) = bc_tx_epoch (fst x) \<and>
     bc_max_records (fst y) = bc_max_records (fst x) \<and>
     (\<forall>e. barred x e \<longrightarrow> barred y e) \<and> (\<forall>slot p. bstored x slot = Some p \<longrightarrow> bstored y slot = Some p \<or> barred y (cr_key_epoch p))"

lemma keeps_trans: "keeps x y \<Longrightarrow> keeps y z \<Longrightarrow> keeps x z"
  unfolding keeps_def by metis

lemma keeps_same:
  "stored s' = stored s \<Longrightarrow> witness s' = witness s \<Longrightarrow> bc_open b' = bc_open b \<Longrightarrow> bc_tx_epoch b' = bc_tx_epoch b \<Longrightarrow>
   bc_max_records b' = bc_max_records b \<Longrightarrow> bc_witness_found b' = bc_witness_found b \<Longrightarrow> bc_witness b' = bc_witness b \<Longrightarrow>
   keeps (b, s) (b', s')"
  by (simp add: keeps_def bounded_barred_def)

lemma raise_witness_effect:
  assumes "raise_witness inner m (b, s) = (r, b', s')" "witness_agrees witness (b, s)" "bc_open b"
  shows "keeps (b, s) (b', s') \<and> stored s' = stored s \<and> (r = Inr () \<longrightarrow> witness_agrees witness (b', s') \<and> bc_witness_found b' \<and> m \<le> bc_witness b')"
proof (cases "\<not> bc_witness_found b \<or> bc_witness b < m")
  case False
  with assms(1) have "r = Inr ()" "b' = b" "s' = s" by (simp_all add: raise_witness_def)
  with assms False show ?thesis by (simp add: keeps_same not_less)
next
  case True
  obtain u s1 where com: "ci_commit_witness inner m s = (u, s1)" by fastforce
  note eff = commit_witness [OF com]
  show ?thesis
    using assms True com eff
    by (cases u) (auto simp: raise_witness_def keeps_def bounded_barred_def witness_agrees_def split: if_splits)
qed

lemma erase_batch_effect:
  assumes "erase_batch inner slots (b, s) = (r, b', s')" "witness_agrees witness (b, s)" "bc_witness_found b"
    and "\<And>slot p. slot \<in> set slots \<Longrightarrow> stored s slot = Some p \<Longrightarrow> cr_key_epoch p \<le> bc_witness b"
  shows "keeps (b, s) (b', s') \<and> witness_agrees witness (b', s') \<and>
    bc_witness_found b' \<and> (\<exists>S \<subseteq> set slots. stored s' = stored s |` (- S) \<and> (r = Inr () \<longrightarrow> S = set slots))"
  using assms
proof (induction slots arbitrary: b s)
  case Nil
  then show ?case by (auto simp: keeps_same)
next
  case (Cons slot slots)
  obtain u s1 where er: "ci_erase inner slot s = (u, s1)" by fastforce
  note eff = erase [OF er]
  let ?b = "b\<lparr>bc_report := (bc_report b)\<lparr>sr_erased := sr_erased (bc_report b) + 1\<rparr>\<rparr>"
  have dead: "stored s slot = Some p \<Longrightarrow> cr_key_epoch p \<le> bc_witness b" for p
    using Cons.prems(4) [of slot p] by simp
  have step: "keeps (b, s) (d, s1) \<and> witness_agrees witness (d, s1)"
    if "bc_open d = bc_open b" "bc_tx_epoch d = bc_tx_epoch b" "bc_max_records d = bc_max_records b"
      "bc_witness_found d = bc_witness_found b" "bc_witness d = bc_witness b" for d
    using eff that Cons.prems(2,3) dead by (auto simp: keeps_def bounded_barred_def witness_agrees_def split: if_splits)
  show ?case
  proof (cases u)
    case (Inl e)
    with Cons.prems(1) er have res: "b' = b" "s' = s1" "r = Inl e" by simp_all
    from eff Inl have "stored s1 = stored s |` (- {}) \<or> stored s1 = stored s |` (- {slot})"
      by (auto simp: restrict_map_def fun_eq_iff)
    with step [of b] res Cons.prems(3) show ?thesis by (metis empty_subsetI insert_subset list.set_intros(1) sum.distinct(1))
  next
    case (Inr v)
    with eff have s1: "stored s1 = (stored s)(slot := None)" by simp
    have "erase_batch inner slots (?b, s1) = (r, b', s')" using Cons.prems(1) er Inr by simp
    then have "keeps (?b, s1) (b', s') \<and> witness_agrees witness (b', s') \<and> bc_witness_found b' \<and>
      (\<exists>S \<subseteq> set slots. stored s' = stored s1 |` (- S) \<and> (r = Inr () \<longrightarrow> S = set slots))"
    proof (rule Cons.IH)
      fix t p assume "t \<in> set slots" "stored s1 t = Some p"
      then show "cr_key_epoch p \<le> bc_witness ?b" using Cons.prems(4) [of t p] by (simp add: s1 split: if_splits)
    qed (use step [of ?b] Cons.prems(3) in simp_all)
    moreover have "stored s1 |` (- S) = stored s |` (- insert slot S)" for S
      by (auto simp: s1 restrict_map_def fun_eq_iff)
    ultimately obtain S where S: "S \<subseteq> set slots" "stored s' = stored s |` (- insert slot S)" "r = Inr () \<longrightarrow> S = set slots"
      and rest: "keeps (?b, s1) (b', s')" "witness_agrees witness (b', s')" "bc_witness_found b'" by auto
    have "keeps (b, s) (b', s')" by (rule keeps_trans [OF _ rest(1)]) (use step [of ?b] in simp)
    moreover have "insert slot S \<subseteq> set (slot # slots)" "r = Inr () \<longrightarrow> insert slot S = set (slot # slots)" using S by auto
    ultimately show ?thesis using rest S(2) by blast
  qed
qed

text \<open>The batch of an enumeration: its records are not newer than the collector's maximum.\<close>

definition batch_dead :: "'s \<Rightarrow> SweepCollector \<Rightarrow> bool" where
  "batch_dead s c \<longleftrightarrow> (\<forall>slot \<in> set (sw_batch c). \<forall>p. stored s slot = Some p \<longrightarrow> cr_key_epoch p \<le> sw_batch_max_epoch c)"

lemma sweep_visit_effect:
  assumes "sweep_visit (ci_store inner) tx slot (c, s) = (go_on, c', s')" "batch_dead s c"
  shows "stored s' = stored s \<and> witness s' = witness s \<and> batch_dead s' c'"
proof -
  obtain r s1 where ld: "cs_load (ci_store inner) slot s = (r, s1)" by fastforce
  note eff = load [OF ld]
  have keep: "batch_dead s1 d" if "sw_batch d = sw_batch c" "sw_batch_max_epoch d = sw_batch_max_epoch c" for d
    using assms(2) that eff by (simp add: batch_dead_def)
  consider e where "r = Inl e" | "r = Inr None" | rec where "r = Inr (Some rec)" by (metis option.exhaust sum.exhaust)
  then show ?thesis
  proof cases
    case (3 rec)
    have new: "batch_dead s1 (c\<lparr>sw_batch := sw_batch c @ [slot],
        sw_batch_max_epoch := if sw_batch_max_epoch c < cr_key_epoch rec then cr_key_epoch rec else sw_batch_max_epoch c\<rparr>)"
      using assms(2) eff 3 by (fastforce simp: batch_dead_def)
    with assms(1) ld 3 eff keep show ?thesis by (auto simp: sweep_visit_def split: if_splits)
  qed (use assms(1) ld eff keep in \<open>auto simp: sweep_visit_def split: if_splits\<close>)
qed

lemma visit_slots_effect:
  "visit_slots (sweep_visit (ci_store inner) tx) slots (c, s) = (go_on, c', s') \<Longrightarrow> batch_dead s c \<Longrightarrow>
   stored s' = stored s \<and> witness s' = witness s \<and> batch_dead s' c'"
proof (induction slots arbitrary: c s)
  case Nil
  then show ?case by simp
next
  case (Cons slot slots)
  obtain g c1 s1 where v: "sweep_visit (ci_store inner) tx slot (c, s) = (g, c1, s1)" by (metis prod_cases3)
  note eff = sweep_visit_effect [OF v Cons.prems(2)]
  with Cons.prems(1) v Cons.IH [of c1 s1] show ?case by (auto split: if_splits)
qed

lemma sweep_enumerate_effect:
  assumes "sweep_enumerate inner (b, s) = (r, b', s')"
  shows "b' = b \<and> stored s' = stored s \<and> witness s' = witness s \<and> (\<forall>c. r = Inr c \<longrightarrow> batch_dead s' c)"
proof -
  obtain u c1 s1 where en: "ci_for_each_slot inner (sweep_visit (ci_store inner) (bc_tx_epoch b)) (SweepCollector_new, s) = (u, c1, s1)"
    by (metis prod_cases3)
  from for_each_slot [OF en] obtain slots g s2 s3 where
    v: "visit_slots (sweep_visit (ci_store inner) (bc_tx_epoch b)) slots (SweepCollector_new, s2) = (g, c1, s3)"
    and same: "stored s2 = stored s" "witness s2 = witness s" "stored s1 = stored s3" "witness s1 = witness s3" by blast
  have "batch_dead s2 SweepCollector_new" by (simp add: batch_dead_def SweepCollector_new_def)
  with visit_slots_effect [OF v] same have "stored s1 = stored s" "witness s1 = witness s" "batch_dead s1 c1"
    by (simp_all add: batch_dead_def)
  with assms en show ?thesis by (auto simp: sweep_enumerate_def split: sum.splits)
qed

lemma sweep_pass_effect:
  assumes "sweep_pass inner pass (b, s) = (r, b', s')" "witness_agrees witness (b, s)" "bc_open b"
  shows "keeps (b, s) (b', s') \<and> (\<forall>d. r = Inr d \<longrightarrow> witness_agrees witness (b', s'))"
proof -
  let ?b = "b\<lparr>bc_report := (bc_report b)\<lparr>sr_passes := pass + 1\<rparr>\<rparr>"
  obtain r1 b1 s1 where en: "sweep_enumerate inner (?b, s) = (r1, b1, s1)" by (metis prod_cases3)
  note eff1 = sweep_enumerate_effect [OF en]
  have k1: "keeps (b, s) (b1, s1)" "witness_agrees witness (b1, s1)" "bc_open b1"
    using eff1 assms(2,3) by (auto simp: witness_agrees_def intro!: keeps_same)
  show ?thesis
  proof (cases r1)
    case (Inl e)
    with assms(1) en k1 show ?thesis by (simp add: sweep_pass_def seq_def)
  next
    case r1: (Inr c)
    define m where "m = (if sw_batch c \<noteq> [] then seq (raise_witness inner (sw_batch_max_epoch c)) (\<lambda>_. erase_batch inner (sw_batch c)) else ret ())"
    obtain r2 b2 s2 where er: "m (b1, s1) = (r2, b2, s2)" by (metis prod_cases3)
    have k2: "keeps (b1, s1) (b2, s2) \<and> (r2 = Inr () \<longrightarrow> witness_agrees witness (b2, s2))"
    proof (cases "sw_batch c = []")
      case True
      with er k1 show ?thesis by (auto simp: m_def intro: keeps_same)
    next
      case False
      obtain r3 b3 s3 where ra: "raise_witness inner (sw_batch_max_epoch c) (b1, s1) = (r3, b3, s3)" by (metis prod_cases3)
      note eff3 = raise_witness_effect [OF ra k1(2,3)]
      show ?thesis
      proof (cases r3)
        case (Inl e)
        with er False ra eff3 show ?thesis by (simp add: m_def seq_def)
      next
        case (Inr u)
        with er False ra have "erase_batch inner (sw_batch c) (b3, s3) = (r2, b2, s2)" by (simp add: m_def seq_def)
        moreover have "cr_key_epoch p \<le> bc_witness b3" if "slot \<in> set (sw_batch c)" "stored s3 slot = Some p" for slot p
          using eff1 r1 eff3 Inr that by (auto simp: batch_dead_def intro: order_trans)
        ultimately have "keeps (b3, s3) (b2, s2) \<and> witness_agrees witness (b2, s2)"
          using erase_batch_effect [of "sw_batch c" b3 s3 r2 b2 s2] eff3 Inr by simp
        with eff3 keeps_trans show ?thesis by blast
      qed
    qed
    have k3: "keeps (b2, s2) (sweep_census c b2, s2)" "witness_agrees witness (sweep_census c b2, s2) = witness_agrees witness (b2, s2)"
      by (auto simp: sweep_census_def witness_agrees_def intro: keeps_same)
    have "r2 = Inr () \<and> s' = s2 \<and> b' \<in> {b2, sweep_census c b2} \<or> r2 \<noteq> Inr () \<and> (\<forall>d. r \<noteq> Inr d) \<and> b' = b2 \<and> s' = s2"
      using assms(1) en r1 er by (cases r2) (auto simp: sweep_pass_def seq_def m_def [symmetric] split: if_splits)
    with k1(1) k2 k3 keeps_trans show ?thesis by blast
  qed
qed

lemma sweep_passes_effect:
  "sweep_passes inner n pass (b, s) = (r, b', s') \<Longrightarrow> witness_agrees witness (b, s) \<Longrightarrow> bc_open b \<Longrightarrow> keeps (b, s) (b', s')"
proof (induction n arbitrary: pass b s)
  case 0
  then show ?case by (simp add: keeps_same)
next
  case (Suc n)
  obtain r1 b1 s1 where p: "sweep_pass inner pass (b, s) = (r1, b1, s1)" by (metis prod_cases3)
  note eff = sweep_pass_effect [OF p Suc.prems(2,3)]
  from eff Suc.prems(3) have "bc_open b1" by (simp add: keeps_def)
  show ?case
  proof (cases "r1 = Inr False")
    case True
    with Suc.prems(1) p have "sweep_passes inner n (pass + 1) (b1, s1) = (r, b', s')" by (simp add: seq_def)
    from Suc.IH [OF this] eff True \<open>bc_open b1\<close> keeps_trans show ?thesis by blast
  next
    case False
    with Suc.prems(1) p have "b' = b1" "s' = s1" by (auto simp: seq_def split: sum.splits)
    with eff show ?thesis by simp
  qed
qed

lemma bounded_open_effect:
  assumes "bounded_open inner max_records tx (b0, s) = (r, b', s')"
  shows "(witness s = Some w \<longrightarrow> e \<le> w \<longrightarrow> barred (b', s') e) \<and>
    (stored s slot = Some p \<longrightarrow> stored s' slot = Some p \<or> barred (b', s') (cr_key_epoch p))"
proof -
  have closed: ?thesis if "\<not> bc_open b'" "stored s' = stored s" "witness s' = witness s"
    using that by (auto simp: bounded_barred_def)
  show ?thesis
  proof (cases "tx = 0")
    case True
    with assms show ?thesis by (intro closed) (auto simp: bounded_open_def bounded_close_def Let_def)
  next
    case tx: False
    obtain q s1 where ld: "ci_load_witness inner s = (q, s1)" by fastforce
    note eff = load_witness [OF ld]
    show ?thesis
    proof (cases "\<exists>found. q = Inr found \<and> \<not> (case found of Some w \<Rightarrow> tx \<le> w | None \<Rightarrow> False)")
      case False
      with assms tx ld eff show ?thesis
        by (intro closed) (auto simp: bounded_open_def bounded_close_def Let_def split: sum.splits option.splits if_splits)
    next
      case True
      then obtain found where q: "q = Inr found" and ok: "\<not> (case found of Some w \<Rightarrow> tx \<le> w | None \<Rightarrow> False)" by blast
      define b where "b = (bounded_close b0)\<lparr>bc_open := True, bc_max_records := max_records, bc_tx_epoch := tx,
        bc_witness := (case found of Some w \<Rightarrow> w | None \<Rightarrow> 0), bc_witness_found := (found \<noteq> None), bc_records_known := False\<rparr>"
      obtain r1 b1 s2 where sw: "sweep_passes inner kMaxSweepPasses 0 (b, s1) = (r1, b1, s2)" by (metis prod_cases3)
      have found: "witness s1 = found" "bc_open b" "witness_agrees witness (b, s1)"
        using eff q by (auto simp: b_def witness_agrees_def split: option.splits)
      note k = sweep_passes_effect [OF sw found(3,2)]
      have fin: "b' = b1\<lparr>bc_sweep_status := r1\<rparr>" "s' = s2"
        using assms tx ld q ok sw by (simp_all add: bounded_open_def bounded_sweep_def Let_def b_def)
      then have "keeps (b, s1) (b', s')" using keeps_trans [OF k, of "(b', s')"] by (simp add: keeps_same)
      moreover have "witness s = Some w \<Longrightarrow> e \<le> w \<Longrightarrow> barred (b, s1) e"
        using found(1) conjunct1 [OF conjunct2 [OF eff]] by (cases found) (simp_all add: bounded_barred_def b_def)
      ultimately show ?thesis using eff by (auto simp: keeps_def)
    qed
  qed
qed

lemma commit_new_effect:
  assumes "commit_new inner slot rec (b, s) = (u, b', s')"
  shows "bc_open b' = bc_open b \<and> bc_witness_found b' = bc_witness_found b \<and> bc_witness b' = bc_witness b \<and> witness s' = witness s \<and>
    (stored s' = stored s \<and> u \<noteq> Inr () \<or> stored s' = (stored s)(slot \<mapsto> rec))"
proof -
  obtain u1 s1 where com: "cs_commit (ci_store inner) slot rec s = (u1, s1)" by fastforce
  obtain r2 s2 where ld: "cs_load (ci_store inner) slot s1 = (r2, s2)" by fastforce
  show ?thesis
    using assms com ld commit [OF com] load [OF ld]
    by (auto simp: commit_new_def split: if_splits sum.splits option.splits)
qed

lemma bounded_commit_effect:
  assumes "bounded_commit inner slot rec (b, s) = (u, b', s')"
  shows "barred (b', s') = barred (b, s) \<and>
    (stored s' = stored s \<and> u \<noteq> Inr () \<or> stored s' = (stored s)(slot \<mapsto> rec) \<and> \<not> barred (b, s) (cr_key_epoch rec))"
proof -
  obtain r1 s1 where ld: "cs_load (ci_store inner) slot s = (r1, s1)" by fastforce
  obtain u1 s2 where com: "cs_commit (ci_store inner) slot rec s1 = (u1, s2)" by fastforce
  obtain u2 b3 s3 where new: "commit_new inner slot rec (b, s1) = (u2, b3, s3)" by (metis prod_cases3)
  show ?thesis
    using assms ld com new load [OF ld] commit [OF com] commit_new_effect [OF new]
    by (auto simp: bounded_commit_def bounded_barred_def fun_eq_iff split: if_splits sum.splits option.splits)
qed

end

sublocale counter_inventory \<subseteq> bounded: counter_restart "bounded_counter inner" "\<lambda>x. stored (snd x)" "bounded_barred witness"
  "bounded_restarts inner"
proof (unfold_locales, goal_cases)
  case (1 slot x r x')
  obtain b s b' s' where x: "x = (b, s)" "x' = (b', s')" by (metis surj_pair)
  obtain r1 s1 where ld: "cs_load (ci_store inner) slot s = (r1, s1)" by fastforce
  from 1 load [OF ld] show ?case
    by (auto simp: x bounded_counter_def bounded_load_def ld bounded_barred_def fun_eq_iff split: if_splits)
next
  case (2 slot rec x u x')
  obtain b s b' s' where x: "x = (b, s)" "x' = (b', s')" by (metis surj_pair)
  from 2 bounded_commit_effect [of slot rec b s u b' s'] show ?case by (simp add: x bounded_counter_def)
next
  case (3 x e e')
  then show ?case by (auto simp: bounded_barred_def intro: order_trans)
next
  case (4 x x' e)
  obtain b s b' s' where x: "x = (b, s)" "x' = (b', s')" by (metis surj_pair)
  from 4 bounded_open_effect show ?case by (fastforce simp: x bounded_restarts_def bounded_barred_def)
next
  case (5 x x' slot p)
  obtain b s b' s' where x: "x = (b, s)" "x' = (b', s')" by (metis surj_pair)
  from 5 bounded_open_effect show ?case by (fastforce simp: x bounded_restarts_def)
qed

context counter_inventory
begin

lemmas bounded_contract = bounded.counter_restart_axioms

end

subsection \<open>Inventories that work\<close>

locale loading_inventory = counter_inventory inner stored witness
  for inner :: "'s CounterInventory" and stored :: "'s \<Rightarrow> u32 \<Rightarrow> CounterRecord option" and witness :: "'s \<Rightarrow> u32 option" +
  fixes up :: "'s \<Rightarrow> bool"
  assumes up_load: "up s \<Longrightarrow> \<exists>s'. cs_load (ci_store inner) slot s = (Inr (stored s slot), s') \<and> up s'"
    and up_commit: "up s \<Longrightarrow> cs_commit (ci_store inner) slot rec s = (u, s') \<Longrightarrow> up s'"

locale reliable_inventory = loading_inventory inner stored witness up
  for inner :: "'s CounterInventory" and stored :: "'s \<Rightarrow> u32 \<Rightarrow> CounterRecord option" and witness :: "'s \<Rightarrow> u32 option"
    and up :: "'s \<Rightarrow> bool" +
  assumes up_erase: "up s \<Longrightarrow> \<exists>s'. ci_erase inner slot s = (Inr (), s') \<and> up s'"
    and up_load_witness: "up s \<Longrightarrow> \<exists>s'. ci_load_witness inner s = (Inr (witness s), s') \<and> up s'"
    and up_commit_witness: "up s \<Longrightarrow> \<exists>s'. ci_commit_witness inner w s = (Inr (), s') \<and> up s'"
    and up_for_each: "up s \<Longrightarrow> (\<And>slot c s g c' s'. up s \<Longrightarrow> visit slot (c, s) = (g, c', s') \<Longrightarrow> up s') \<Longrightarrow>
      \<exists>slots g c' s1 s2 s'. distinct slots \<and> set slots = dom (stored s) \<and> up s1 \<and> stored s1 = stored s \<and>
        visit_slots visit slots (c, s1) = (g, c', s2) \<and> stored s' = stored s2 \<and> up s' \<and>
        ci_for_each_slot inner visit (c, s) = (Inr (), c', s')"

text \<open>The records a sweep removes.\<close>

definition dead :: "(u32 \<Rightarrow> CounterRecord option) \<Rightarrow> u32 \<Rightarrow> u32 \<Rightarrow> bool" where
  "dead P tx_epoch slot \<longleftrightarrow> (\<exists>p. P slot = Some p \<and> counter_record_intact p \<and> cr_key_epoch p < tx_epoch)"

definition kept_count :: "SweepCollector \<Rightarrow> u32" where
  "kept_count c = sw_current c + sw_future c + sw_unreadable c"

context reliable_inventory
begin

lemma sweep_visit_up:
  assumes "up s"
  obtains c' s' where "sweep_visit (ci_store inner) tx slot (c, s) = (True, c', s')" "up s'" "stored s' = stored s"
    "sw_status c' = sw_status c"
    "sw_batch c' = (if dead (stored s) tx slot \<and> length (sw_batch c) < kSweepBatch then sw_batch c @ [slot] else sw_batch c)"
    "sw_more c' \<longleftrightarrow> sw_more c \<or> dead (stored s) tx slot \<and> \<not> length (sw_batch c) < kSweepBatch"
    "kept_count c' = kept_count c + (if stored s slot \<noteq> None \<and> \<not> dead (stored s) tx slot then 1 else 0)"
proof -
  from up_load [OF assms, of slot] obtain s1 where ld: "cs_load (ci_store inner) slot s = (Inr (stored s slot), s1)" "up s1" by blast
  from load [OF ld(1)] have same: "stored s1 = stored s" by simp
  obtain g c' s' where v: "sweep_visit (ci_store inner) tx slot (c, s) = (g, c', s')" by (metis prod_cases3)
  show ?thesis
  proof (cases "stored s slot")
    case None
    with v ld have "g" "c' = c" "s' = s1" by (simp_all add: sweep_visit_def)
    with None v ld same show ?thesis by (intro that [of c' s']) (simp_all add: dead_def)
  next
    case (Some p)
    have d: "dead (stored s) tx slot \<longleftrightarrow> counter_record_intact p \<and> cr_key_epoch p < tx" by (simp add: dead_def Some)
    show ?thesis
      by (rule that [of c' s'])
        (use v ld same Some in \<open>auto simp: sweep_visit_def d kept_count_def split: if_splits\<close>)
  qed
qed

lemma visit_slots_up:
  assumes "up s" "length (sw_batch c) \<le> kSweepBatch"
  shows "\<exists>c' s'. visit_slots (sweep_visit (ci_store inner) tx) slots (c, s) = (True, c', s') \<and> up s' \<and> stored s' = stored s \<and>
    sw_status c' = sw_status c \<and> sw_batch c' = take kSweepBatch (sw_batch c @ filter (dead (stored s) tx) slots) \<and>
    (sw_more c' \<longleftrightarrow> sw_more c \<or> kSweepBatch < length (sw_batch c) + length (filter (dead (stored s) tx) slots)) \<and>
    kept_count c' = kept_count c + of_nat (length (filter (\<lambda>t. stored s t \<noteq> None \<and> \<not> dead (stored s) tx t) slots))"
  using assms
proof (induction slots arbitrary: c s)
  case Nil
  then show ?case by auto
next
  case (Cons slot slots)
  from sweep_visit_up [OF Cons.prems(1), of tx slot c] obtain c1 s1 where
    v: "sweep_visit (ci_store inner) tx slot (c, s) = (True, c1, s1)" "up s1" "stored s1 = stored s" and
    c1: "sw_status c1 = sw_status c"
    "sw_batch c1 = (if dead (stored s) tx slot \<and> length (sw_batch c) < kSweepBatch then sw_batch c @ [slot] else sw_batch c)"
    "sw_more c1 \<longleftrightarrow> sw_more c \<or> dead (stored s) tx slot \<and> \<not> length (sw_batch c) < kSweepBatch"
    "kept_count c1 = kept_count c + (if stored s slot \<noteq> None \<and> \<not> dead (stored s) tx slot then 1 else 0)" by metis
  have "length (sw_batch c1) \<le> kSweepBatch" using c1(2) Cons.prems(2) by simp
  from Cons.IH [OF v(2) this] v(3) obtain c2 s2 where
    w: "visit_slots (sweep_visit (ci_store inner) tx) slots (c1, s1) = (True, c2, s2)" "up s2" "stored s2 = stored s" and
    c2: "sw_status c2 = sw_status c1" "sw_batch c2 = take kSweepBatch (sw_batch c1 @ filter (dead (stored s) tx) slots)"
    "sw_more c2 \<longleftrightarrow> sw_more c1 \<or> kSweepBatch < length (sw_batch c1) + length (filter (dead (stored s) tx) slots)"
    "kept_count c2 = kept_count c1 + of_nat (length (filter (\<lambda>t. stored s t \<noteq> None \<and> \<not> dead (stored s) tx t) slots))" by auto
  have "sw_batch c2 = take kSweepBatch (sw_batch c @ filter (dead (stored s) tx) (slot # slots))"
    using c1(2) c2(2) Cons.prems(2) by (auto simp: take_Cons')
  moreover have "sw_more c2 \<longleftrightarrow> sw_more c \<or> kSweepBatch < length (sw_batch c) + length (filter (dead (stored s) tx) (slot # slots))"
    using c1(2,3) c2(3) Cons.prems(2) by auto
  moreover have "kept_count c2 = kept_count c +
      of_nat (length (filter (\<lambda>t. stored s t \<noteq> None \<and> \<not> dead (stored s) tx t) (slot # slots)))"
    using c1(4) c2(4) by (simp add: ac_simps del: not_None_eq)
  ultimately show ?case using v(1) w c1(1) c2(1) by auto
qed

lemma raise_witness_up:
  assumes "up s"
  obtains b' s' where "raise_witness inner m (b, s) = (Inr (), b', s')" "up s'" "stored s' = stored s"
    "bc_open b' = bc_open b" "bc_tx_epoch b' = bc_tx_epoch b" "bc_max_records b' = bc_max_records b"
proof -
  from up_commit_witness [OF assms, of m] obtain s1 where com: "ci_commit_witness inner m s = (Inr (), s1)" "up s1" by blast
  show ?thesis
  proof (cases "\<not> bc_witness_found b \<or> bc_witness b < m")
    case True
    with com commit_witness [OF com(1)] show ?thesis
      by (intro that [of "b\<lparr>bc_witness := m, bc_witness_found := True\<rparr>" s1]) (auto simp: raise_witness_def)
  next
    case False
    with assms show ?thesis by (intro that [of b s]) (simp_all add: raise_witness_def)
  qed
qed

lemma erase_batch_up:
  assumes "up s"
  shows "\<exists>b' s'. erase_batch inner slots (b, s) = (Inr (), b', s') \<and> up s' \<and> stored s' = stored s |` (- set slots) \<and>
    bc_open b' = bc_open b \<and> bc_tx_epoch b' = bc_tx_epoch b \<and> bc_max_records b' = bc_max_records b"
  using assms
proof (induction slots arbitrary: b s)
  case Nil
  then show ?case by simp
next
  case (Cons slot slots)
  from up_erase [OF Cons.prems, of slot] obtain s1 where er: "ci_erase inner slot s = (Inr (), s1)" "up s1" by blast
  let ?b = "b\<lparr>bc_report := (bc_report b)\<lparr>sr_erased := sr_erased (bc_report b) + 1\<rparr>\<rparr>"
  from erase [OF er(1)] have "stored s1 = (stored s)(slot := None)" by simp
  then have "stored s1 |` (- set slots) = stored s |` (- set (slot # slots))" by (auto simp: restrict_map_def fun_eq_iff)
  with Cons.IH [OF er(2), of ?b] er(1) show ?case by auto
qed

text \<open>A pass removes up to a batch of dead records and is the last when none are left.\<close>

lemma sweep_pass_up:
  assumes "up s"
  obtains batch b' s' where "sweep_pass inner pass (b, s) = (Inr (card {t. dead (stored s) (bc_tx_epoch b) t} \<le> kSweepBatch), b', s')"
    "up s'" "batch \<subseteq> {t. dead (stored s) (bc_tx_epoch b) t}" "stored s' = stored s |` (- batch)"
    "card batch = min kSweepBatch (card {t. dead (stored s) (bc_tx_epoch b) t})"
    "bc_open b' = bc_open b" "bc_tx_epoch b' = bc_tx_epoch b" "bc_max_records b' = bc_max_records b"
    "card {t. dead (stored s) (bc_tx_epoch b) t} \<le> kSweepBatch \<Longrightarrow>
      bc_records_known b' \<and> bc_records b' = of_nat (card (dom (stored s')))"
proof -
  let ?D = "{t. dead (stored s) (bc_tx_epoch b) t}" and ?b = "b\<lparr>bc_report := (bc_report b)\<lparr>sr_passes := pass + 1\<rparr>\<rparr>"
  let ?visit = "sweep_visit (ci_store inner) (bc_tx_epoch b)"
  have vis: "up s' \<Longrightarrow> ?visit slot (c, s') = (g, c', s'') \<Longrightarrow> up s''" for slot c s' g c' s''
    by (metis Pair_inject sweep_visit_up)
  have "\<exists>slots g c' s1 s2 s'. distinct slots \<and> set slots = dom (stored s) \<and> up s1 \<and> stored s1 = stored s \<and>
      visit_slots ?visit slots (SweepCollector_new, s1) = (g, c', s2) \<and> stored s' = stored s2 \<and> up s' \<and>
      ci_for_each_slot inner ?visit (SweepCollector_new, s) = (Inr (), c', s')"
    by (rule up_for_each [OF assms]) (erule vis)
  then obtain slots g c s1 s2 s3 where
    en: "distinct slots" "set slots = dom (stored s)" "up s1" "stored s1 = stored s" "stored s3 = stored s2" "up s3"
    and v: "visit_slots ?visit slots (SweepCollector_new, s1) = (g, c, s2)"
    and each: "ci_for_each_slot inner ?visit (SweepCollector_new, s) = (Inr (), c, s3)" by blast
  let ?L = "filter (dead (stored s) (bc_tx_epoch b)) slots"
  have D: "set ?L = ?D" "distinct ?L" using en(1,2) by (auto simp: dead_def)
  then have len: "length ?L = card ?D" by (metis distinct_card)
  from visit_slots_up [OF en(3), of SweepCollector_new "bc_tx_epoch b" slots] v en(4)
  have c: "stored s2 = stored s" "sw_status c = Inr ()" "sw_batch c = take kSweepBatch ?L" "sw_more c \<longleftrightarrow> kSweepBatch < card ?D"
    "kept_count c = of_nat (length (filter (\<lambda>t. stored s t \<noteq> None \<and> \<not> dead (stored s) (bc_tx_epoch b) t) slots))"
    by (auto simp: SweepCollector_new_def kept_count_def len)
  have s3: "stored s3 = stored s" using en(5) c(1) by simp
  have enu: "sweep_enumerate inner (?b, s) = (Inr c, ?b, s3)" using each c(2) by (simp add: sweep_enumerate_def)
  define m where "m = (if sw_batch c \<noteq> [] then seq (raise_witness inner (sw_batch_max_epoch c)) (\<lambda>_. erase_batch inner (sw_batch c)) else ret ())"
  obtain b1 s4 where er: "m (?b, s3) = (Inr (), b1, s4)" "up s4" "stored s4 = stored s |` (- set (sw_batch c))"
    "bc_open b1 = bc_open b" "bc_tx_epoch b1 = bc_tx_epoch b" "bc_max_records b1 = bc_max_records b"
  proof (cases "sw_batch c = []")
    case True
    with en(6) s3 show ?thesis by (intro that [of ?b s3]) (simp_all add: m_def restrict_map_def)
  next
    case False
    from raise_witness_up [OF en(6), of "sw_batch_max_epoch c" ?b] obtain b2 s5 where
      ra: "raise_witness inner (sw_batch_max_epoch c) (?b, s3) = (Inr (), b2, s5)" "up s5" "stored s5 = stored s3"
      "bc_open b2 = bc_open ?b" "bc_tx_epoch b2 = bc_tx_epoch ?b" "bc_max_records b2 = bc_max_records ?b" by metis
    from erase_batch_up [OF ra(2), of "sw_batch c" b2] obtain b3 s6 where
      "erase_batch inner (sw_batch c) (b2, s5) = (Inr (), b3, s6)" "up s6" "stored s6 = stored s5 |` (- set (sw_batch c))"
      "bc_open b3 = bc_open b2" "bc_tx_epoch b3 = bc_tx_epoch b2" "bc_max_records b3 = bc_max_records b2" by metis
    with ra False s3 show ?thesis by (intro that [of b3 s6]) (simp_all add: m_def seq_def)
  qed
  let ?b' = "if card ?D \<le> kSweepBatch then sweep_census c b1 else b1"
  have last: "sw_batch c = [] \<or> \<not> sw_more c \<longleftrightarrow> card ?D \<le> kSweepBatch" using c(3,4) len by auto
  have run: "sweep_pass inner pass (b, s) = (Inr (card ?D \<le> kSweepBatch), ?b', s4)"
    using enu er(1) last by (auto simp: sweep_pass_def seq_def m_def [symmetric])
  have "set (sw_batch c) \<subseteq> set ?L" unfolding c(3) by (rule set_take_subset)
  then have batch: "set (sw_batch c) \<subseteq> ?D" unfolding D(1) .
  have "card (set (sw_batch c)) = length (take kSweepBatch ?L)" unfolding c(3) by (rule distinct_card [OF distinct_take [OF D(2)]])
  then have size: "card (set (sw_batch c)) = min kSweepBatch (card ?D)" by (simp add: len min.commute)
  show ?thesis
  proof (rule that [OF run er(2) batch er(3) size], goal_cases)
    case 4
    then have "length ?L \<le> kSweepBatch" by (simp add: len)
    then have "set (sw_batch c) = ?D" unfolding c(3) D(1) [symmetric] by simp
    then have "dom (stored s4) = {t \<in> set slots. stored s t \<noteq> None \<and> \<not> dead (stored s) (bc_tx_epoch b) t}"
      using er(3) en(2) by (auto simp: restrict_map_def split: if_splits)
    also have "\<dots> = set (filter (\<lambda>t. stored s t \<noteq> None \<and> \<not> dead (stored s) (bc_tx_epoch b) t) slots)" by simp
    finally have "card (dom (stored s4)) = length (filter (\<lambda>t. stored s t \<noteq> None \<and> \<not> dead (stored s) (bc_tx_epoch b) t) slots)"
      by (simp only: distinct_card [OF distinct_filter [OF en(1)]])
    with 4 c(5) show ?case by (simp add: sweep_census_def kept_count_def)
  qed (simp_all add: er sweep_census_def)
qed

lemma dead_restrict: "{t. dead (P |` (- B)) tx t} = {t. dead P tx t} - B"
  by (auto simp: dead_def restrict_map_def split: if_splits)

lemma sweep_passes_up:
  "up s \<Longrightarrow> card {t. dead (stored s) (bc_tx_epoch b) t} \<le> kSweepBatch * n \<Longrightarrow> n \<noteq> 0 \<Longrightarrow>
   \<exists>b' s'. sweep_passes inner n pass (b, s) = (Inr (), b', s') \<and> up s' \<and>
     stored s' = stored s |` (- {t. dead (stored s) (bc_tx_epoch b) t}) \<and> bc_open b' = bc_open b \<and>
     bc_max_records b' = bc_max_records b \<and> bc_records_known b' \<and> bc_records b' = of_nat (card (dom (stored s')))"
proof (induction n arbitrary: pass b s)
  case 0
  then show ?case by simp
next
  case (Suc n)
  let ?D = "{t. dead (stored s) (bc_tx_epoch b) t}"
  from sweep_pass_up [OF Suc.prems(1), of pass b] obtain batch b1 s1 where
    p: "sweep_pass inner pass (b, s) = (Inr (card ?D \<le> kSweepBatch), b1, s1)" "up s1" and
    batch: "batch \<subseteq> ?D" "stored s1 = stored s |` (- batch)" "card batch = min kSweepBatch (card ?D)" and
    b1: "bc_open b1 = bc_open b" "bc_tx_epoch b1 = bc_tx_epoch b" "bc_max_records b1 = bc_max_records b"
      "card ?D \<le> kSweepBatch \<Longrightarrow> bc_records_known b1 \<and> bc_records b1 = of_nat (card (dom (stored s1)))" by metis
  show ?case
  proof (cases "card ?D \<le> kSweepBatch")
    case True
    then have "batch = ?D" by (intro card_subset_eq) (use batch in \<open>simp_all add: min_def\<close>)
    with p True batch(2) b1 show ?thesis by (simp add: seq_def)
  next
    case False
    let ?D' = "{t. dead (stored s1) (bc_tx_epoch b1) t}"
    have D': "?D' = ?D - batch" using batch(2) b1(2) by (simp add: dead_restrict)
    have "card ?D' = card ?D - kSweepBatch" using batch(1,3) False by (simp add: D' card_Diff_subset finite_subset)
    then have "card ?D' \<le> kSweepBatch * n" "n \<noteq> 0" using Suc.prems(2) False by auto
    from Suc.IH [OF p(2) this, of "pass + 1"] obtain b2 s2 where
      r: "sweep_passes inner n (pass + 1) (b1, s1) = (Inr (), b2, s2)" "up s2" "stored s2 = stored s1 |` (- ?D')"
      "bc_open b2 = bc_open b1" "bc_max_records b2 = bc_max_records b1" "bc_records_known b2"
      "bc_records b2 = of_nat (card (dom (stored s2)))" by blast
    have all: "- batch \<inter> - (?D - batch) = - ?D" using batch(1) by auto
    have "stored s2 = stored s1 |` (- (?D - batch))" using r(3) unfolding D' .
    then have "stored s2 = stored s |` (- ?D)" unfolding batch(2) restrict_restrict all .
    with p(1) False r b1 show ?thesis by (simp add: seq_def)
  qed
qed

lemma bounded_open_up:
  assumes "up s" "tx \<noteq> 0" "\<And>w. witness s = Some w \<Longrightarrow> w < tx" "card {t. dead (stored s) tx t} \<le> kSweepBatch * kMaxSweepPasses"
  shows "\<exists>b' s'. bounded_open inner max_records tx (b, s) = (Inr (), b', s') \<and> bc_open b' \<and> bc_sweep_status b' = Inr () \<and>
     stored s' = stored s |` (- {t. dead (stored s) tx t}) \<and> bc_max_records b' = max_records \<and>
     bc_records_known b' \<and> bc_records b' = of_nat (card (dom (stored s')))"
proof -
  from up_load_witness [OF assms(1)] obtain s1 where ld: "ci_load_witness inner s = (Inr (witness s), s1)" "up s1" by blast
  from load_witness [OF ld(1)] have same: "stored s1 = stored s" by simp
  define b1 where "b1 = (bounded_close b)\<lparr>bc_open := True, bc_max_records := max_records, bc_tx_epoch := tx,
    bc_witness := (case witness s of Some w \<Rightarrow> w | None \<Rightarrow> 0), bc_witness_found := (witness s \<noteq> None), bc_records_known := False\<rparr>"
  have "card {t. dead (stored s1) (bc_tx_epoch b1) t} \<le> kSweepBatch * kMaxSweepPasses" using assms(4) same by (simp add: b1_def)
  from sweep_passes_up [OF ld(2) this, of 0] obtain b2 s2 where
    sw: "sweep_passes inner kMaxSweepPasses 0 (b1, s1) = (Inr (), b2, s2)" and
    fin: "stored s2 = stored s1 |` (- {t. dead (stored s1) (bc_tx_epoch b1) t})" "bc_open b2 = bc_open b1"
      "bc_max_records b2 = bc_max_records b1" "bc_records_known b2" "bc_records b2 = of_nat (card (dom (stored s2)))" by auto
  have ok: "\<not> (case witness s of Some w \<Rightarrow> tx \<le> w | None \<Rightarrow> False)" using assms(3) by (auto split: option.splits)
  have "bounded_open inner max_records tx (b, s) = (Inr (), b2\<lparr>bc_sweep_status := Inr ()\<rparr>, s2)"
    using assms(2) ld(1) ok sw by (simp add: bounded_open_def bounded_sweep_def Let_def b1_def)
  with fin same show ?thesis by (simp add: b1_def)
qed

end

text \<open>The count of an open store is exact, and within the cap after a commit.\<close>

definition counted :: "('s \<Rightarrow> u32 \<Rightarrow> CounterRecord option) \<Rightarrow> BoundedCounterStore \<times> 's \<Rightarrow> bool" where
  "counted stored x \<longleftrightarrow> bc_records_known (fst x) \<and> unat (bc_records (fst x)) = card (dom (stored (snd x)))"

definition commit_all :: "'s CounterInventory \<Rightarrow> (u32 \<times> CounterRecord) list \<Rightarrow> BoundedCounterStore \<times> 's \<Rightarrow> BoundedCounterStore \<times> 's" where
  "commit_all inner calls x = foldr (\<lambda>(slot, rec) x. snd (bounded_commit inner slot rec x)) calls x"

context loading_inventory
begin

lemma counted_new:
  assumes "counted stored (b, s)" "stored s slot = None" "bc_records b < bc_max_records b"
    and "stored s' = stored s \<and> n = bc_records b \<or> stored s' = (stored s)(slot \<mapsto> rec) \<and> n = bc_records b + 1"
  shows "counted stored (b\<lparr>bc_records := n\<rparr>, s') \<and> card (dom (stored s')) \<le> max (card (dom (stored s))) (unat (bc_max_records b))"
  using assms(4)
proof
  assume "stored s' = stored s \<and> n = bc_records b"
  with assms(1) show ?thesis by (simp add: counted_def)
next
  assume upd: "stored s' = (stored s)(slot \<mapsto> rec) \<and> n = bc_records b + 1"
  from assms(3) have below: "unat (bc_records b) < unat (bc_max_records b)" by (simp add: word_less_nat_alt)
  then have lt: "unat (bc_records b + 1) = unat (bc_records b) + 1"
    using unat_add_lem [of "bc_records b" 1] unsigned_less [of "bc_max_records b", where ?'a = nat] by simp
  have "slot \<notin> dom (stored s)" using assms(2) by (simp add: domIff)
  then have "card (dom (stored s')) = card (dom (stored s)) + 1" using upd by simp
  with upd assms(1) lt below show ?thesis by (simp add: counted_def)
qed

lemma commit_new_counted:
  assumes "commit_new inner slot rec (b, s) = (u, b', s')" "up s" "counted stored (b, s)" "stored s slot = None"
  shows "up s' \<and> counted stored (b', s') \<and> bc_max_records b' = bc_max_records b \<and>
    card (dom (stored s')) \<le> max (card (dom (stored s))) (unat (bc_max_records b))"
proof (cases "\<not> bc_records_known b \<or> bc_max_records b \<le> bc_records b")
  case True
  with assms(1) have "b' = b\<lparr>bc_capacity_rejects := bc_capacity_rejects b + 1\<rparr>" "s' = s" by (simp_all add: commit_new_def)
  with assms(2,3) show ?thesis by (simp add: counted_def)
next
  case False
  then have room: "bc_records b < bc_max_records b" by (simp add: not_le)
  obtain u1 s2 where com: "cs_commit (ci_store inner) slot rec s = (u1, s2)" by fastforce
  note eff = commit [OF com] and up2 = up_commit [OF assms(2) com]
  from up_load [OF up2, of slot] obtain s3 where ld: "cs_load (ci_store inner) slot s2 = (Inr (stored s2 slot), s3)" "up s3" by blast
  from load [OF ld(1)] have same: "stored s3 = stored s2" by simp
  have "\<exists>n. b' = b\<lparr>bc_records := n\<rparr> \<and> up s' \<and>
    (stored s' = stored s \<and> n = bc_records b \<or> stored s' = (stored s)(slot \<mapsto> rec) \<and> n = bc_records b + 1)"
  proof (cases u1)
    case (Inr v)
    with assms(1) False com have "b' = b\<lparr>bc_records := bc_records b + 1\<rparr>" "s' = s2" by (simp_all add: commit_new_def)
    with eff Inr up2 show ?thesis by (intro exI [of _ "bc_records b + 1"]) simp
  next
    case (Inl e)
    have "s' = s3 \<and> b' = (if stored s2 slot = None then b else b\<lparr>bc_records := bc_records b + 1\<rparr>)"
      using assms(1) False com ld(1) Inl by (cases "stored s2 slot") (simp_all add: commit_new_def)
    moreover have "stored s2 slot = None \<longleftrightarrow> stored s2 = stored s" using eff assms(4) by auto
    ultimately show ?thesis
      using eff ld(2) same by (cases "stored s2 slot = None") (auto intro: exI [of _ "bc_records b"])
  qed
  with counted_new [OF assms(3,4) room] show ?thesis by auto
qed

lemma bounded_commit_counted:
  assumes "bounded_commit inner slot rec (b, s) = (u, b', s')" "up s" "counted stored (b, s)"
  shows "up s' \<and> counted stored (b', s') \<and> bc_max_records b' = bc_max_records b \<and>
    card (dom (stored s')) \<le> max (card (dom (stored s))) (unat (bc_max_records b))"
proof -
  from up_load [OF assms(2), of slot] obtain s1 where ld: "cs_load (ci_store inner) slot s = (Inr (stored s slot), s1)" "up s1" by blast
  from load [OF ld(1)] have same: "stored s1 = stored s" by simp
  have cnt: "counted stored (b, s1)" using assms(3) same by (simp add: counted_def)
  consider "\<not> bc_open b" | "bc_open b" "bc_witness_found b \<and> cr_key_epoch rec \<le> bc_witness b"
    | "bc_open b" "\<not> (bc_witness_found b \<and> cr_key_epoch rec \<le> bc_witness b)" by blast
  then show ?thesis
  proof cases
    case 1
    with assms show ?thesis by (simp add: bounded_commit_def)
  next
    case 2
    with assms show ?thesis by (auto simp: bounded_commit_def counted_def)
  next
    case 3
    note run = assms(1) [unfolded bounded_commit_def prod.case if_not_P [OF 3(2)]]
    show ?thesis
    proof (cases "stored s slot")
      case None
      with 3(1) run ld(1) have "commit_new inner slot rec (b, s1) = (u, b', s')" by simp
      from commit_new_counted [OF this ld(2) cnt] None same show ?thesis by simp
    next
      case (Some p)
      obtain u1 s2 where com: "cs_commit (ci_store inner) slot rec s1 = (u1, s2)" by fastforce
      with 3(1) run ld(1) Some have "b' = b" "s' = s2" by simp_all
      moreover have "dom (stored s2) = dom (stored s)" using commit [OF com] same Some by (auto split: if_splits)
      ultimately show ?thesis using up_commit [OF ld(2) com] assms(3) by (simp add: counted_def)
    qed
  qed
qed

lemma commit_all_counted:
  assumes "up s" "counted stored (b, s)" "commit_all inner calls (b, s) = (b', s')"
  shows "up s' \<and> counted stored (b', s') \<and> bc_max_records b' = bc_max_records b \<and>
    card (dom (stored s')) \<le> max (card (dom (stored s))) (unat (bc_max_records b))"
  using assms(3)
proof (induction calls arbitrary: b' s')
  case Nil
  with assms show ?case by (simp add: commit_all_def)
next
  case (Cons call calls)
  obtain slot rec where call: "call = (slot, rec)" by (cases call)
  obtain b1 s1 where one: "commit_all inner calls (b, s) = (b1, s1)" by fastforce
  obtain u b2 s2 where two: "bounded_commit inner slot rec (b1, s1) = (u, b2, s2)" by (metis prod_cases3)
  have "b' = b2" "s' = s2" using Cons.prems one two by (simp_all add: commit_all_def call)
  with Cons.IH [OF one] bounded_commit_counted [OF two] show ?case by fastforce
qed

end

subsection \<open>A medium with scripted faults\<close>

text \<open>
  An inventory that keeps the contract, over an association list: each reading call takes the
  next entry of one script and each writing call of another; \<open>Some (e, landed)\<close> makes the call fail
  with \<open>e\<close>, what it writes being written or not.
\<close>

record counter_medium =
  cm_records :: "(u32 \<times> CounterRecord) list"
  cm_witness :: "u32 option"
  cm_read_faults :: "status option list"
  cm_write_faults :: "(status \<times> bool) option list"

definition cm_read :: "(counter_medium \<Rightarrow> 'a) \<Rightarrow> (counter_medium, 'a) prog" where
  "cm_read get m =
     (case cm_read_faults m of
        [] \<Rightarrow> (Inr (get m), m)
      | f # fs \<Rightarrow> ((case f of Some e \<Rightarrow> Inl e | None \<Rightarrow> Inr (get m)), m\<lparr>cm_read_faults := fs\<rparr>))"

definition cm_write :: "(counter_medium \<Rightarrow> counter_medium) \<Rightarrow> (counter_medium, unit) prog" where
  "cm_write put m =
     (case cm_write_faults m of
        [] \<Rightarrow> (Inr (), put m)
      | Some (e, landed) # fs \<Rightarrow> (Inl e, (if landed then put m else m)\<lparr>cm_write_faults := fs\<rparr>)
      | None # fs \<Rightarrow> (Inr (), (put m)\<lparr>cm_write_faults := fs\<rparr>))"

definition cm_for_each :: "('v, counter_medium) visitor \<Rightarrow> ('v \<times> counter_medium, unit) prog" where
  "cm_for_each visit = (\<lambda>(c, m).
     case cm_read (\<lambda>m. remdups (map fst (cm_records m))) m of
       (Inl e, m) \<Rightarrow> (Inl e, c, m)
     | (Inr slots, m) \<Rightarrow> (Inr (), snd (visit_slots visit slots (c, m))))"

definition counter_medium_inventory :: "counter_medium CounterInventory" where
  "counter_medium_inventory = \<lparr>
     ci_store = \<lparr>cs_load = (\<lambda>slot. cm_read (\<lambda>m. map_of (cm_records m) slot)),
                 cs_commit = (\<lambda>slot rec. cm_write (\<lambda>m. m\<lparr>cm_records := AList.update slot rec (cm_records m)\<rparr>))\<rparr>,
     ci_for_each_slot = cm_for_each,
     ci_erase = (\<lambda>slot. cm_write (\<lambda>m. m\<lparr>cm_records := AList.delete slot (cm_records m)\<rparr>)),
     ci_load_witness = cm_read cm_witness,
     ci_commit_witness = (\<lambda>w. cm_write (\<lambda>m. m\<lparr>cm_witness := Some w\<rparr>))\<rparr>"

lemma cm_read_effect:
  assumes "cm_read get m = (r, m')"
  shows "cm_records m' = cm_records m" "cm_witness m' = cm_witness m" "cm_write_faults m' = cm_write_faults m"
    "r = Inr x \<Longrightarrow> x = get m" "cm_read_faults m = [] \<Longrightarrow> r = Inr (get m) \<and> m' = m"
  using assms by (auto simp: cm_read_def split: list.splits option.splits)

lemma cm_write_effect:
  assumes "cm_write put m = (r, m')"
  shows "cm_records m' = cm_records (put m) \<and> cm_witness m' = cm_witness (put m) \<or>
      cm_records m' = cm_records m \<and> cm_witness m' = cm_witness m \<and> r \<noteq> Inr ()"
    "cm_read_faults m' \<in> {cm_read_faults m, cm_read_faults (put m)}"
    "cm_write_faults m = [] \<Longrightarrow> r = Inr () \<and> m' = put m"
  using assms by (auto simp: cm_write_def split: list.splits option.splits prod.splits if_splits)

lemmas medium_sel = counter_medium_inventory_def update_conv' delete_conv'

interpretation cmed: counter_inventory counter_medium_inventory "\<lambda>m. map_of (cm_records m)" cm_witness
proof (unfold_locales, goal_cases)
  case (1 slot s r s')
  then have "cm_read (\<lambda>m. map_of (cm_records m) slot) s = (r, s')" by (simp add: medium_sel)
  note eff = cm_read_effect [OF this]
  then show ?case by simp
next
  case (2 slot rec s u s')
  then have "cm_write (\<lambda>m. m\<lparr>cm_records := AList.update slot rec (cm_records m)\<rparr>) s = (u, s')" by (simp add: medium_sel)
  from cm_write_effect(1) [OF this] show ?case by (auto simp: medium_sel)
next
  case (3 slot s u s')
  then have "cm_write (\<lambda>m. m\<lparr>cm_records := AList.delete slot (cm_records m)\<rparr>) s = (u, s')" by (simp add: medium_sel)
  from cm_write_effect(1) [OF this] show ?case by (auto simp: medium_sel)
next
  case (4 s q s')
  then have "cm_read cm_witness s = (q, s')" by (simp add: medium_sel)
  note eff = cm_read_effect [OF this]
  then show ?case by simp
next
  case (5 w s u s')
  then have "cm_write (\<lambda>m. m\<lparr>cm_witness := Some w\<rparr>) s = (u, s')" by (simp add: medium_sel)
  from cm_write_effect(1) [OF this] show ?case by (auto simp: medium_sel)
next
  case (6 visit c s u c' s')
  obtain r m where rd: "cm_read (\<lambda>m. remdups (map fst (cm_records m))) s = (r, m)" by fastforce
  note eff = cm_read_effect [OF rd]
  have dom: "dom (map_of (cm_records s)) = set (map fst (cm_records s))" by (simp add: dom_map_of_conv_image_fst)
  show ?case
  proof (cases r)
    case (Inl e)
    with 6 rd eff have "visit_slots visit [] (c, s) = (True, c', s)" "cm_records s' = cm_records s" "cm_witness s' = cm_witness s" "u \<noteq> Inr ()"
      by (auto simp: medium_sel cm_for_each_def)
    then show ?thesis by (intro exI [of _ "[]"] exI [of _ True] exI [of _ s]) auto
  next
    case (Inr slots)
    then have slots: "slots = remdups (map fst (cm_records s))" using eff(4) by blast
    obtain g where "visit_slots visit slots (c, m) = (g, c', s')" using 6 rd Inr by (cases "visit_slots visit slots (c, m)") (simp add: medium_sel cm_for_each_def)
    with slots dom eff show ?thesis by (intro exI [of _ slots] exI [of _ g] exI [of _ m] exI [of _ s']) auto
  qed
qed

interpretation cloads: loading_inventory counter_medium_inventory "\<lambda>m. map_of (cm_records m)" cm_witness "\<lambda>m. cm_read_faults m = []"
proof (unfold_locales, goal_cases)
  case (1 s slot)
  then show ?case by (simp add: medium_sel cm_read_def)
next
  case (2 s slot rec u s')
  then have "cm_write (\<lambda>m. m\<lparr>cm_records := AList.update slot rec (cm_records m)\<rparr>) s = (u, s')" by (simp add: medium_sel)
  from cm_write_effect(2) [OF this] 2(1) show ?case by simp
qed

lemma visit_slots_inv:
  assumes "\<And>slot c s g c' s'. I s \<Longrightarrow> visit slot (c, s) = (g, c', s') \<Longrightarrow> I s'"
  shows "I s \<Longrightarrow> visit_slots visit slots (c, s) = (g, c', s') \<Longrightarrow> I s'"
proof (induction slots arbitrary: c s)
  case (Cons slot slots)
  obtain g1 c1 s1 where v: "visit slot (c, s) = (g1, c1, s1)" by (metis prod_cases3)
  with Cons assms [OF Cons.prems(1) v] show ?case by (auto split: if_splits)
qed simp

interpretation cworks: reliable_inventory counter_medium_inventory "\<lambda>m. map_of (cm_records m)" cm_witness
  "\<lambda>m. cm_read_faults m = [] \<and> cm_write_faults m = []"
proof (unfold_locales, goal_cases)
  case (1 s slot)
  then show ?case by (simp add: medium_sel cm_read_def)
next
  case (2 s slot rec u s')
  then show ?case by (auto simp: medium_sel cm_write_def)
next
  case (3 s slot)
  then show ?case by (simp add: medium_sel cm_write_def)
next
  case (4 s)
  then show ?case by (simp add: medium_sel cm_read_def)
next
  case (5 s w)
  then show ?case by (simp add: medium_sel cm_write_def)
next
  case (6 s visit c)
  let ?slots = "remdups (map fst (cm_records s))"
  obtain g c' s' where v: "visit_slots visit ?slots (c, s) = (g, c', s')" by (metis prod_cases3)
  have "cm_read_faults s' = [] \<and> cm_write_faults s' = []"
    by (rule visit_slots_inv [where I = "\<lambda>m. cm_read_faults m = [] \<and> cm_write_faults m = []", OF _ 6(1) v]) (rule 6(2))
  moreover have "cm_for_each visit (c, s) = (Inr (), c', s')" using 6(1) v by (simp add: cm_for_each_def cm_read_def)
  moreover have "set ?slots = dom (map_of (cm_records s))" by (simp add: dom_map_of_conv_image_fst)
  ultimately show ?case using v 6(1)
    by (intro exI [of _ ?slots] exI [of _ g] exI [of _ c'] exI [of _ s] exI [of _ s']) (simp add: medium_sel)
qed

subsection \<open>The bounded replay store\<close>

locale replay_inventory = replay_store "ri_store inner" stored floors
  for inner :: "'s ReplayInventory" and stored :: "'s \<Rightarrow> u32 \<Rightarrow> ReplayWindowRecord option"
    and floors :: "'s \<Rightarrow> u32 \<Rightarrow> ReplayFloorRecord option" +
  assumes for_each_floor_slot: "ri_for_each_floor_slot inner visit (n, s) = (u, n', s') \<Longrightarrow>
      \<exists>slots go_on s1 s2. distinct slots \<and> set slots \<subseteq> dom (floors s) \<and> (u = Inr () \<longrightarrow> set slots = dom (floors s)) \<and>
        stored s1 = stored s \<and> floors s1 = floors s \<and> visit_slots visit slots (n, s1) = (go_on, n', s2) \<and>
        stored s' = stored s2 \<and> floors s' = floors s2"

text \<open>The number of floors is known and exact.\<close>

definition peers_counted :: "('s \<Rightarrow> u32 \<Rightarrow> ReplayFloorRecord option) \<Rightarrow> BoundedReplayStore \<times> 's \<Rightarrow> bool" where
  "peers_counted floors x \<longleftrightarrow> br_peers_known (fst x) \<and> unat (br_peers (fst x)) = card (dom (floors (snd x)))"

context replay_inventory
begin

lemma replay_commit_floor_effect:
  assumes "replay_commit_floor inner slot f (b, s) = (u, b', s')"
  shows "stored s' = stored s \<and> floors s' \<in> {floors s, (floors s)(slot \<mapsto> f)} \<and> (u = Inr () \<longrightarrow> floors s' = (floors s)(slot \<mapsto> f))"
proof -
  obtain q s1 where ld: "rs_load_floor (ri_store inner) slot s = (q, s1)" by fastforce
  obtain u1 s2 where com: "rs_commit_floor (ri_store inner) slot f s1 = (u1, s2)" by fastforce
  obtain q2 s3 where ld2: "rs_load_floor (ri_store inner) slot s2 = (q2, s3)" by fastforce
  note eff = load_floor [OF ld] commit_floor [OF com] load_floor [OF ld2]
  consider "\<not> br_open b" | e where "br_open b" "q = Inl e" | x where "q = Inr x" "br_open b" by (cases q) auto
  then show ?thesis
  proof cases
    case 1
    with assms show ?thesis by (auto simp: replay_commit_floor_def)
  next
    case (2 e)
    with assms ld eff show ?thesis by (auto simp: replay_commit_floor_def)
  next
    case x: (3 x)
    show ?thesis
    proof (cases "x = None \<and> (\<not> br_peers_known b \<or> br_max_peers b \<le> br_peers b)")
      case True
      with assms ld x eff show ?thesis by (auto simp: replay_commit_floor_def)
    next
      case False
      have "s' = s2 \<and> u = u1 \<or> s' = s3 \<and> u = u1 \<and> u1 \<noteq> Inr ()"
        using assms ld x com ld2 False
        by (cases x; cases u1) (auto simp: replay_commit_floor_def split: sum.splits option.splits if_splits)
      with eff show ?thesis by auto
    qed
  qed
qed

end

sublocale replay_inventory \<subseteq> breplay: replay_store "bounded_replay inner" "\<lambda>x. stored (snd x)" "\<lambda>x. floors (snd x)"
proof (unfold_locales, goal_cases)
  case (1 slot x r x')
  obtain b s b' s' where x: "x = (b, s)" "x' = (b', s')" by (metis surj_pair)
  obtain q s1 where ld: "rs_load_window (ri_store inner) slot s = (q, s1)" by fastforce
  from 1 load_window [OF ld] show ?case by (auto simp: x bounded_replay_def replay_load_window_def ld split: if_splits)
next
  case (2 slot rec x u x')
  obtain b s b' s' where x: "x = (b, s)" "x' = (b', s')" by (metis surj_pair)
  obtain q s1 where ld: "rs_load_floor (ri_store inner) slot s = (q, s1)" by fastforce
  obtain u1 s2 where com: "rs_commit_window (ri_store inner) slot rec s1 = (u1, s2)" by fastforce
  from 2 ld com load_floor [OF ld] commit_window [OF com] show ?case
    by (auto simp: x bounded_replay_def replay_commit_window_def split: if_splits sum.splits option.splits)
next
  case (3 slot x q x')
  obtain b s b' s' where x: "x = (b, s)" "x' = (b', s')" by (metis surj_pair)
  obtain r s1 where ld: "rs_load_floor (ri_store inner) slot s = (r, s1)" by fastforce
  from 3 load_floor [OF ld] show ?case by (auto simp: x bounded_replay_def replay_load_floor_def ld split: if_splits)
next
  case (4 slot f x u x')
  obtain b s b' s' where x: "x = (b, s)" "x' = (b', s')" by (metis surj_pair)
  from 4 replay_commit_floor_effect [of slot f b s u b' s'] show ?case by (simp add: x bounded_replay_def)
qed

context replay_inventory
begin

lemmas bounded_contract = breplay.replay_store_axioms

end

text \<open>Floor records that can always be read.\<close>

locale loading_floors = replay_inventory inner stored floors
  for inner :: "'s ReplayInventory" and stored :: "'s \<Rightarrow> u32 \<Rightarrow> ReplayWindowRecord option"
    and floors :: "'s \<Rightarrow> u32 \<Rightarrow> ReplayFloorRecord option" +
  fixes up :: "'s \<Rightarrow> bool"
  assumes up_load_floor: "up s \<Longrightarrow> \<exists>s'. rs_load_floor (ri_store inner) slot s = (Inr (floors s slot), s') \<and> up s'"
    and up_commit_floor: "up s \<Longrightarrow> rs_commit_floor (ri_store inner) slot f s = (u, s') \<Longrightarrow> up s'"
    and up_commit_window: "up s \<Longrightarrow> rs_commit_window (ri_store inner) slot rec s = (u, s') \<Longrightarrow> up s'"

datatype replay_write = Write_window u32 ReplayWindowRecord | Write_floor u32 ReplayFloorRecord

primrec run_write :: "'s ReplayStore \<Rightarrow> replay_write \<Rightarrow> ('s, unit) prog" where
  "run_write st (Write_window slot rec) = rs_commit_window st slot rec"
| "run_write st (Write_floor slot f) = rs_commit_floor st slot f"

definition replay_writes :: "'s ReplayStore \<Rightarrow> replay_write list \<Rightarrow> 's \<Rightarrow> 's" where
  "replay_writes st calls x = foldr (\<lambda>call x. snd (run_write st call x)) calls x"

context loading_floors
begin

definition capped :: "BoundedReplayStore \<times> 's \<Rightarrow> BoundedReplayStore \<times> 's \<Rightarrow> bool" where
  "capped x y \<longleftrightarrow> br_max_peers (fst y) = br_max_peers (fst x) \<and>
     card (dom (floors (snd y))) \<le> max (card (dom (floors (snd x)))) (unat (br_max_peers (fst x))) \<and>
     (dom (stored (snd x)) \<subseteq> dom (floors (snd x)) \<longrightarrow> dom (stored (snd y)) \<subseteq> dom (floors (snd y)))"

lemma capped_trans: "capped x y \<Longrightarrow> capped y z \<Longrightarrow> capped x z"
  by (auto simp: capped_def)

lemma capped_same: "stored s' = stored s \<Longrightarrow> floors s' = floors s \<Longrightarrow> br_max_peers b' = br_max_peers b \<Longrightarrow> capped (b, s) (b', s')"
  by (simp add: capped_def)

lemma capped_new:
  assumes "peers_counted floors (b, s)" "floors s slot = None" "br_peers b < br_max_peers b" "stored s' = stored s"
    and "floors s' = floors s \<and> n = br_peers b \<or> floors s' = (floors s)(slot \<mapsto> f) \<and> n = br_peers b + 1"
  shows "peers_counted floors (b\<lparr>br_peers := n\<rparr>, s') \<and> capped (b, s) (b\<lparr>br_peers := n\<rparr>, s')"
  using assms(5)
proof
  assume "floors s' = floors s \<and> n = br_peers b"
  with assms(1,4) show ?thesis by (simp add: peers_counted_def capped_def)
next
  assume upd: "floors s' = (floors s)(slot \<mapsto> f) \<and> n = br_peers b + 1"
  from assms(3) have below: "unat (br_peers b) < unat (br_max_peers b)" by (simp add: word_less_nat_alt)
  then have lt: "unat (br_peers b + 1) = unat (br_peers b) + 1"
    using unat_add_lem [of "br_peers b" 1] unsigned_less [of "br_max_peers b", where ?'a = nat] by simp
  have "slot \<notin> dom (floors s)" using assms(2) by (simp add: domIff)
  then have "card (dom (floors s')) = card (dom (floors s)) + 1" using upd by simp
  with upd assms(1,4) lt below show ?thesis by (auto simp: peers_counted_def capped_def)
qed

lemma new_floor_counted:
  assumes "up s" "floors s slot = None" "rs_commit_floor (ri_store inner) slot f s = (u1, s2)"
    and "rs_load_floor (ri_store inner) slot s2 = (q, s3)" and "s' = (if u1 = Inr () then s2 else s3)"
    and "n = (if u1 = Inr () \<or> (\<exists>x. q = Inr (Some x)) then br_peers b + 1 else br_peers b)"
  shows "up s' \<and> stored s' = stored s \<and>
    (floors s' = floors s \<and> n = br_peers b \<or> floors s' = (floors s)(slot \<mapsto> f) \<and> n = br_peers b + 1)"
proof -
  from up_commit_floor [OF assms(1,3)] up_load_floor [of s2 slot] assms(4) have q: "up s2" "q = Inr (floors s2 slot)" "up s3" by auto
  note eff = commit_floor [OF assms(3)] load_floor [OF assms(4)]
  show ?thesis
  proof (cases "u1 = Inr ()")
    case True
    with eff q assms(5,6) show ?thesis by simp
  next
    case False
    with eff q assms(2,5,6) show ?thesis by (cases "floors s2 = floors s") auto
  qed
qed

lemma replay_commit_floor_counted:
  assumes "replay_commit_floor inner slot f (b, s) = (u, b', s')" "up s" "peers_counted floors (b, s)"
  shows "up s' \<and> peers_counted floors (b', s') \<and> capped (b, s) (b', s')"
proof (cases "br_open b")
  case False
  with assms show ?thesis by (simp add: replay_commit_floor_def capped_same)
next
  case open_: True
  from up_load_floor [OF assms(2), of slot] obtain s1 where ld: "rs_load_floor (ri_store inner) slot s = (Inr (floors s slot), s1)" "up s1" by blast
  from load_floor [OF ld(1)] have same: "stored s1 = stored s" "floors s1 = floors s" by simp_all
  obtain u1 s2 where com: "rs_commit_floor (ri_store inner) slot f s1 = (u1, s2)" by fastforce
  obtain q s3 where ld3: "rs_load_floor (ri_store inner) slot s2 = (q, s3)" by fastforce
  have cnt: "peers_counted floors (b, s1)" using assms(3) same by (simp add: peers_counted_def)
  have thin: "capped (b, s) x" if "capped (b, s1) x" for x using that same by (simp add: capped_def)
  show ?thesis
  proof (cases "floors s slot")
    case (Some p)
    with assms(1) open_ ld com have "b' = b" "s' = s2" by (simp_all add: replay_commit_floor_def)
    moreover have "dom (floors s2) = dom (floors s)" "stored s2 = stored s"
      using commit_floor [OF com] same Some by (auto split: if_splits)
    ultimately show ?thesis using up_commit_floor [OF ld(2) com] assms(3) by (simp add: peers_counted_def capped_def)
  next
    case None
    show ?thesis
    proof (cases "\<not> br_peers_known b \<or> br_max_peers b \<le> br_peers b")
      case True
      with assms(1) open_ ld None have "b' = b\<lparr>br_capacity_rejects := br_capacity_rejects b + 1\<rparr>" "s' = s1"
        by (simp_all add: replay_commit_floor_def)
      with assms(3) ld(2) same show ?thesis by (simp add: peers_counted_def capped_same)
    next
      case False
      then have room: "br_peers b < br_max_peers b" by (simp add: not_le)
      define n where "n = (if u1 = Inr () \<or> (\<exists>x. q = Inr (Some x)) then br_peers b + 1 else br_peers b)"
      have b': "b' = b\<lparr>br_peers := n\<rparr>" and s': "s' = (if u1 = Inr () then s2 else s3)"
        using assms(1) open_ ld(1) None False com ld3 unfolding replay_commit_floor_def n_def
        by (auto split: sum.splits option.splits)
      have none: "floors s1 slot = None" using same None by simp
      note eff = new_floor_counted [OF ld(2) none com ld3 s' n_def]
      have "stored s' = stored s1" "floors s' = floors s1 \<and> n = br_peers b \<or> floors s' = (floors s1)(slot \<mapsto> f) \<and> n = br_peers b + 1"
        using eff by simp_all
      from capped_new [OF cnt none room this] eff b' thin show ?thesis by simp
    qed
  qed
qed

lemma replay_commit_window_counted:
  assumes "replay_commit_window inner slot rec (b, s) = (u, b', s')" "up s" "peers_counted floors (b, s)"
  shows "up s' \<and> peers_counted floors (b', s') \<and> capped (b, s) (b', s')"
proof (cases "br_open b")
  case False
  with assms show ?thesis by (simp add: replay_commit_window_def capped_same)
next
  case True
  from up_load_floor [OF assms(2), of slot] obtain s1 where ld: "rs_load_floor (ri_store inner) slot s = (Inr (floors s slot), s1)" "up s1" by blast
  from load_floor [OF ld(1)] have same: "stored s1 = stored s" "floors s1 = floors s" by simp_all
  obtain u1 s2 where com: "rs_commit_window (ri_store inner) slot rec s1 = (u1, s2)" by fastforce
  show ?thesis
  proof (cases "floors s slot")
    case None
    with assms(1) True ld have "b' = b" "s' = s1" by (simp_all add: replay_commit_window_def)
    with ld same assms(3) show ?thesis by (simp add: peers_counted_def capped_same)
  next
    case (Some p)
    with assms(1) True ld com have "b' = b" "s' = s2" by (simp_all add: replay_commit_window_def)
    moreover have "floors s2 = floors s" "dom (stored s2) \<subseteq> insert slot (dom (stored s))" "slot \<in> dom (floors s)"
      using commit_window [OF com] same Some by (auto split: if_splits)
    ultimately show ?thesis
      using up_commit_window [OF ld(2) com] assms(3) by (simp add: peers_counted_def capped_def, blast)
  qed
qed

lemma replay_writes_counted:
  assumes "up s" "peers_counted floors (b, s)" "replay_writes (bounded_replay inner) calls (b, s) = (b', s')"
  shows "up s' \<and> peers_counted floors (b', s') \<and> capped (b, s) (b', s')"
  using assms(3)
proof (induction calls arbitrary: b' s')
  case Nil
  with assms show ?case by (simp add: replay_writes_def capped_same)
next
  case (Cons call calls)
  obtain b1 s1 where one: "replay_writes (bounded_replay inner) calls (b, s) = (b1, s1)" by fastforce
  obtain u b2 s2 where two: "run_write (bounded_replay inner) call (b1, s1) = (u, b2, s2)" by (metis prod_cases3)
  have "b' = b2" "s' = s2" using Cons.prems one two by (simp_all add: replay_writes_def)
  moreover have "up s2 \<and> peers_counted floors (b2, s2) \<and> capped (b1, s1) (b2, s2)"
  proof (cases call)
    case (Write_window slot rec)
    with two Cons.IH [OF one] show ?thesis
      using replay_commit_window_counted [of slot rec b1 s1 u b2 s2] by (simp add: bounded_replay_def)
  next
    case (Write_floor slot f)
    with two Cons.IH [OF one] show ?thesis
      using replay_commit_floor_counted [of slot f b1 s1 u b2 s2] by (simp add: bounded_replay_def)
  qed
  ultimately show ?case using Cons.IH [OF one] capped_trans by blast
qed

lemma slot_counter_visits:
  "visit_slots slot_counter_visit slots (n, s) = (True, n + of_nat (length slots), s)"
  by (induction slots arbitrary: n) (simp_all add: slot_counter_visit_def ac_simps)

lemma replay_open_counted:
  assumes "replay_open inner max_peers (b, s) = (u, b', s')" "br_peers_known b'" "card (dom (floors s)) < 2 ^ 32"
  shows "u = Inr () \<and> br_open b' \<and> br_max_peers b' = max_peers \<and> stored s' = stored s \<and> floors s' = floors s \<and> peers_counted floors (b', s')"
proof -
  obtain r n s1 where en: "ri_for_each_floor_slot inner slot_counter_visit (0, s) = (r, n, s1)" by (metis prod_cases3)
  from for_each_floor_slot [OF en] obtain slots g s2 s3 where slots: "distinct slots" "r = Inr () \<longrightarrow> set slots = dom (floors s)"
    "stored s2 = stored s" "floors s2 = floors s" "visit_slots slot_counter_visit slots (0, s2) = (g, n, s3)"
    "stored s1 = stored s3" "floors s1 = floors s3" by blast
  then have n: "n = of_nat (length slots)" "s3 = s2" by (simp_all add: slot_counter_visits)
  have b': "u = Inr ()" "b' = (replay_close b)\<lparr>br_open := True, br_max_peers := max_peers, br_count_status := r,
      br_peers_known := (r = Inr ()), br_peers := if r = Inr () then n else 0\<rparr>" "s' = s1"
    using assms(1) en by (auto simp: replay_open_def)
  with assms(2) have r: "r = Inr ()" by simp
  with slots(1,2) have "length slots = card (dom (floors s))" by (metis distinct_card)
  with assms(3) n have "unat n = card (dom (floors s))" by (simp add: unsigned_of_nat take_bit_nat_eq_self)
  with b' r slots n show ?thesis by (simp add: peers_counted_def)
qed

end

text \<open>The medium of the replay guard as an inventory.\<close>

definition medium_inventory :: "replay_medium ReplayInventory" where
  "medium_inventory = \<lparr>ri_store = medium_store,
     ri_for_each_floor_slot = (\<lambda>visit (n, m).
       case medium_load (\<lambda>m. sorted_list_of_set (dom (md_floors m))) m of
         (Inl e, m) \<Rightarrow> (Inl e, n, m)
       | (Inr slots, m) \<Rightarrow> (Inr (), snd (visit_slots visit slots (n, m))))\<rparr>"

lemma medium_load_effect:
  assumes "medium_load get m = (r, m')"
  shows "md_windows m' = md_windows m" "md_floors m' = md_floors m" "r = Inr x \<Longrightarrow> x = get m"
  using assms by (auto simp: medium_load_def split: list.splits option.splits prod.splits)

interpretation minv: replay_inventory medium_inventory md_windows md_floors
proof -
  have st: "ri_store medium_inventory = medium_store" by (simp add: medium_inventory_def)
  have each: "\<exists>slots go_on s1 s2. distinct slots \<and> set slots \<subseteq> dom (md_floors s) \<and> (u = Inr () \<longrightarrow> set slots = dom (md_floors s)) \<and>
      md_windows s1 = md_windows s \<and> md_floors s1 = md_floors s \<and> visit_slots visit slots (n, s1) = (go_on, n', s2) \<and>
      md_windows s' = md_windows s2 \<and> md_floors s' = md_floors s2"
    if run: "ri_for_each_floor_slot medium_inventory visit (n, s) = (u, n', s')" for visit n s u n' s'
  proof -
    obtain r m where rd: "medium_load (\<lambda>m. sorted_list_of_set (dom (md_floors m))) s = (r, m)" by fastforce
    note eff = medium_load_effect [OF rd]
    show ?thesis
    proof (cases r)
      case (Inl e)
      with run rd eff have "visit_slots visit [] (n, s) = (True, n', s)" "md_windows s' = md_windows s" "md_floors s' = md_floors s" "u \<noteq> Inr ()"
        by (auto simp: medium_inventory_def)
      then show ?thesis by (intro exI [of _ "[]"] exI [of _ True] exI [of _ s]) auto
    next
      case (Inr slots)
      then have slots: "slots = sorted_list_of_set (dom (md_floors s))" using eff(3) by blast
      obtain g where "visit_slots visit slots (n, m) = (g, n', s')"
        using run rd Inr by (cases "visit_slots visit slots (n, m)") (simp add: medium_inventory_def)
      moreover have "set slots = dom (md_floors s)" "distinct slots" using slots by simp_all
      ultimately show ?thesis using eff by (intro exI [of _ slots] exI [of _ g] exI [of _ m] exI [of _ s']) auto
    qed
  qed
  show "replay_inventory medium_inventory md_windows md_floors"
    unfolding replay_inventory_def replay_inventory_axioms_def st using medium.replay_store_axioms each by blast
qed

interpretation mfloors: loading_floors medium_inventory md_windows md_floors "\<lambda>m. md_faults m = []"
  by unfold_locales (auto simp: medium_inventory_def medium_store_def medium_load_def medium_commit_def)

subsection \<open>Properties\<close>

lemma sweep_passes_numeral [simp]:
  "sweep_passes inner (numeral k) pass x =
     seq (sweep_pass inner pass) (\<lambda>last. if last then ret () else sweep_passes inner (pred_numeral k) (pass + 1)) x"
  by (simp add: numeral_eq_Suc)

lemma crc_ignores_crc [simp]: "counter_record_crc (r\<lparr>cr_crc := x\<rparr>) = counter_record_crc r"
  by (simp add: counter_record_crc_def)

lemma block_record_intact: "counter_record_intact (block_record l)"
  by (simp add: block_record_def Let_def counter_record_intact_def)

definition empty_medium :: counter_medium where
  "empty_medium = \<lparr>cm_records = [], cm_witness = None, cm_read_faults = [], cm_write_faults = []\<rparr>"

definition example_record :: "u32 \<Rightarrow> CounterRecord" where
  "example_record epoch = block_record (CounterLease_new 1 1 epoch 0 64)"

definition opened_store :: "u32 \<Rightarrow> u32 \<Rightarrow> BoundedCounterStore" where
  "opened_store cap epoch = BoundedCounterStore_new\<lparr>bc_open := True, bc_max_records := cap, bc_tx_epoch := epoch, bc_records_known := True\<rparr>"

lemma example_open:
  "bounded_open counter_medium_inventory 4 7 (BoundedCounterStore_new, empty_medium) =
     (Inr (), (opened_store 4 7)\<lparr>bc_report := CounterSweepReport_new\<lparr>sr_passes := 1\<rparr>\<rparr>, empty_medium)"
  by (simp add: bounded_open_def bounded_sweep_def bounded_close_def BoundedCounterStore_new_def empty_medium_def opened_store_def
      counter_medium_inventory_def cm_read_def sweep_pass_def sweep_enumerate_def cm_for_each_def SweepCollector_new_def seq_def
      sweep_census_def CounterSweepReport_new_def Let_def)

lemma example_take: "cache_take w (CounterCheckpointCache_new n) = (None, CounterCheckpointCache_new n)"
proof (cases "FixedPool_find (\<lambda>e. same_lease_identity (ce_checkpoint e) w) (cpc_entries (CounterCheckpointCache_new n))")
  case (Some i)
  from fp.find_Some [OF this] parked_new [of n i] show ?thesis by (auto simp: parked_def simp del: FixedPool_at_Some)
qed (simp add: cache_take_def)

lemma example_next:
  defines "x \<equiv> ((opened_store 4 7)\<lparr>bc_report := CounterSweepReport_new\<lparr>sr_passes := 1\<rparr>\<rparr>, empty_medium)"
  defines "l \<equiv> CounterLease_new 1 1 7 0 64"
  shows "lease_initialize (bounded_counter counter_medium_inventory) (l, x) = (Inr (), l\<lparr>cl_initialized := True\<rparr>, x)"
    and "fst (lease_next (bounded_counter counter_medium_inventory) (l\<lparr>cl_initialized := True\<rparr>, x)) = Inr 0"
   by (simp_all add: x_def l_def lease_initialize_def lease_load_def seq_def bounded_counter_def bounded_load_def opened_store_def
      BoundedCounterStore_new_def empty_medium_def counter_medium_inventory_def cm_read_def cm_write_def CounterLease_new_def lease_next_def reserve_block_def
      adopt_mark_def commit_block_def bounded_commit_def commit_new_def)

lemma created_step:
  assumes "cw_leases w i = None" "cache_take (lease_checkpoint l0) (cw_cache w) = (None, c)"
    and "l0 = CounterLease_new slot ctx epoch direction block_size" "lease_initialize st (l0, cw_store w) = (Inr (), l, s)"
  shows "lease_step st restarts w (w\<lparr>cw_store := s, cw_leases := (cw_leases w)(i \<mapsto> l), cw_cache := c\<rparr>)"
  using lease_step.create [OF assms(1,3,2), of st "Inr ()" l s restarts] assms(4) by simp

text \<open>C4: No counter is issued twice. Take leases over a bounded counter store over any inventory that
  keeps its documented contract, with any contents: leases are created, from a parked checkpoint
  when there is one, draw counters, are evicted into the checkpoint cache, and the device
  restarts with any boot session and any cap, sweeping dead records, with any call failing at any
  point and failed writes landing or not. Then no counter is issued twice for the same slot and
  key epoch.\<close>

theorem counter_issued_once:
  assumes "counter_inventory inner stored witness"
    and "(lease_step (bounded_counter inner) (bounded_restarts inner))\<^sup>*\<^sup>* (fresh_world x n) w"
  shows "distinct (cw_issued w)"
  by (rule counter_restart.issued_once [OF counter_inventory.bounded_contract [OF assms(1)] assms(2)])

theorem counter_issued_once_witness:
  "\<exists>w. (lease_step (bounded_counter counter_medium_inventory) (bounded_restarts counter_medium_inventory))\<^sup>*\<^sup>*
      (fresh_world (BoundedCounterStore_new, empty_medium) 2) w \<and> cw_issued w = [(1, 7, 0)] \<and> distinct (cw_issued w)"
proof -
  let ?step = "lease_step (bounded_counter counter_medium_inventory) (bounded_restarts counter_medium_inventory)"
  let ?w = "fresh_world (BoundedCounterStore_new, empty_medium) 2"
  let ?x = "((opened_store 4 7)\<lparr>bc_report := CounterSweepReport_new\<lparr>sr_passes := 1\<rparr>\<rparr>, empty_medium)"
  let ?l = "CounterLease_new 1 1 7 0 64"
  let ?opened = "?w\<lparr>cw_store := ?x, cw_leases := (\<lambda>i. None), cw_cache := CounterCheckpointCache_new 2\<rparr>"
  let ?leased = "?opened\<lparr>cw_store := ?x, cw_leases := (cw_leases ?opened)(0 \<mapsto> ?l\<lparr>cl_initialized := True\<rparr>), cw_cache := CounterCheckpointCache_new 2\<rparr>"
  have "bounded_restarts counter_medium_inventory (cw_store ?w) ?x"
    using example_open by (auto simp: bounded_restarts_def fresh_world_def)
  then have s1: "?step ?w ?opened" by (rule lease_step.restart)
  have s2: "?step ?opened ?leased"
    using created_step [of ?opened 0 ?l "CounterCheckpointCache_new 2" 1 1 7 0 64 "bounded_counter counter_medium_inventory" "?l\<lparr>cl_initialized := True\<rparr>" ?x
        "bounded_restarts counter_medium_inventory"] example_take example_next(1) by simp
  obtain l' s' where next_: "lease_next (bounded_counter counter_medium_inventory) (?l\<lparr>cl_initialized := True\<rparr>, ?x) = (Inr 0, l', s')"
    using example_next(2) by (metis prod.exhaust_sel)
  let ?issued = "?leased\<lparr>cw_store := s', cw_leases := (cw_leases ?leased)(0 \<mapsto> l'),
      cw_issued := (cl_slot (?l\<lparr>cl_initialized := True\<rparr>), cl_key_epoch (?l\<lparr>cl_initialized := True\<rparr>), 0) # cw_issued ?leased\<rparr>"
  have "?step ?leased ?issued" by (rule lease_step.issue) (use next_ in simp_all)
  with s1 s2 have run: "?step\<^sup>*\<^sup>* ?w ?issued" by (meson converse_rtranclp_into_rtranclp r_into_rtranclp)
  from counter_issued_once [OF cmed.counter_inventory_axioms run] run show ?thesis
    by (intro exI [of _ ?issued]) (simp add: fresh_world_def CounterLease_new_def)
qed

text \<open>C30: The sweep ends. Over an inventory whose calls succeed and that holds at most 65536 dead
  records, opening the bounded store for a boot session above the witness succeeds, the sweep
  finishes within its cap on passes and reports success, exactly the intact records of earlier
  epochs are gone, and the record count is known and is the number of records left.\<close>

theorem sweep_converges:
  assumes "reliable_inventory inner stored witness up" "up s" "tx_epoch \<noteq> 0"
    and "\<And>w. witness s = Some w \<Longrightarrow> w < tx_epoch" "card {t. dead (stored s) tx_epoch t} \<le> 65536"
  shows "\<exists>b' s'. bounded_open inner max_records tx_epoch (b, s) = (Inr (), b', s') \<and> bc_open b' \<and> bc_sweep_status b' = Inr () \<and>
    stored s' = stored s |` (- {t. dead (stored s) tx_epoch t}) \<and> bc_records_known b' \<and>
    bc_records b' = of_nat (card (dom (stored s')))"
  using reliable_inventory.bounded_open_up [OF assms(1-4), of max_records b] assms(5) by auto

theorem sweep_converges_witness:
  "\<exists>b' s'. bounded_open counter_medium_inventory 4 7 (BoundedCounterStore_new, empty_medium\<lparr>cm_records := [(1, example_record 3)]\<rparr>) = (Inr (), b', s') \<and>
     bc_sweep_status b' = Inr () \<and> map_of (cm_records s') 1 = None"
proof -
  let ?s = "empty_medium\<lparr>cm_records := [(1, example_record 3)]\<rparr>"
  have sub: "{t. dead (map_of (cm_records ?s)) 7 t} \<subseteq> {1}" by (auto simp: dead_def split: if_splits)
  have dead: "dead (map_of (cm_records ?s)) 7 1"
    using block_record_intact by (simp add: dead_def example_record_def CounterLease_new_def)
  have few: "card {t. dead (map_of (cm_records ?s)) 7 t} \<le> 65536" using card_mono [OF _ sub] by simp
  have up: "cm_read_faults ?s = [] \<and> cm_write_faults ?s = []" "\<And>w. cm_witness ?s = Some w \<Longrightarrow> w < 7" "(7 :: u32) \<noteq> 0"
    by (simp_all add: empty_medium_def)
  from sweep_converges [OF cworks.reliable_inventory_axioms up(1,3,2) few, of 4 BoundedCounterStore_new]
  obtain b' s' where res: "bounded_open counter_medium_inventory 4 7 (BoundedCounterStore_new, ?s) = (Inr (), b', s')" "bc_sweep_status b' = Inr ()"
    "map_of (cm_records s') = map_of (cm_records ?s) |` (- {t. dead (map_of (cm_records ?s)) 7 t})" by blast
  from res(3) dead have "map_of (cm_records s') 1 = None" by (metis ComplD mem_Collect_eq restrict_out)
  with res show ?thesis by blast
qed

text \<open>C31: The record cap. Over an inventory whose records can be read, from a state whose count is
  exact, any sequence of commits, each succeeding or failing, landed or not, leaves the count
  exact and at most as many records as the cap, or as there were to begin with.\<close>

theorem record_cap:
  assumes "loading_inventory inner stored witness up" "up s" "counted stored (b, s)" "commit_all inner calls (b, s) = (b', s')"
  shows "counted stored (b', s') \<and> card (dom (stored s')) \<le> max (card (dom (stored s))) (unat (bc_max_records b))"
  using loading_inventory.commit_all_counted [OF assms] by blast

theorem record_cap_witness:
  "card (dom (map_of (cm_records (snd (commit_all counter_medium_inventory [(2, example_record 7), (1, example_record 7)]
     (opened_store 1 7, empty_medium\<lparr>cm_write_faults := [Some (Error StorageFailure ''late'', True)]\<rparr>)))))) \<le> 1"
proof -
  let ?s = "empty_medium\<lparr>cm_write_faults := [Some (Error StorageFailure ''late'', True)]\<rparr>"
  let ?calls = "[(2, example_record 7), (1, example_record 7)] :: (u32 \<times> CounterRecord) list"
  obtain b' s' where run: "commit_all counter_medium_inventory ?calls (opened_store 1 7, ?s) = (b', s')" by fastforce
  have "cm_read_faults ?s = []" "counted (\<lambda>m. map_of (cm_records m)) (opened_store 1 7, ?s)"
    by (simp_all add: empty_medium_def opened_store_def BoundedCounterStore_new_def counted_def)
  from record_cap [OF cloads.loading_inventory_axioms this run]
  have "card (dom (map_of (cm_records s'))) \<le> max (card (dom (map_of (cm_records ?s)))) (unat (bc_max_records (opened_store 1 7)))" by blast
  then show ?thesis unfolding run by (simp add: empty_medium_def opened_store_def)
qed



text \<open>C34: The replay guard over a bounded replay store accepts no counter twice for one context, whatever
  the cap refuses, in the sense of the guard over its store.\<close>

theorem bounded_replay_once:
  assumes "replay_inventory inner stored floors" "length ops < 2 ^ 32"
  shows "distinct (rwd_log (foldr (replay_step (bounded_replay inner)) ops (replay_start x ahead)))"
proof -
  note contract = replay_inventory.bounded_contract [OF assms(1)]
  from replay_store.run_inv [OF contract assms(2), of "replay_start x ahead"] show ?thesis
    by (simp add: replay_store.world_inv_def [OF contract] replay_start_def)
qed

theorem bounded_replay_once_witness:
  "distinct (rwd_log (foldr (replay_step (bounded_replay medium_inventory)) example_calls
     (replay_start (BoundedReplayStore_new\<lparr>br_open := True, br_max_peers := 4, br_peers_known := True\<rparr>,
        \<lparr>md_windows = Map.empty, md_floors = Map.empty, md_faults = []\<rparr>) 64)))"
  by (rule bounded_replay_once [OF minv.replay_inventory_axioms]) (simp add: example_calls_def)



end
