(* ===== verification/Spec2Isabelle.thy ===== *)
theory Spec2Isabelle
  imports Fixed_Containers Fixed_Pool Wire_Frame Sha256_Hmac Route_Safety Loop_Freedom Usb_Codec Replay_Safety Counter_Safety Peer_Safety
begin

text \<open>
  RouteLoom is a mesh network for ESP-NOW radios. This development covers the portable C++ core
  under \<^verbatim>\<open>src/components/routeloom\<close>; paths below are relative to it. The parts modelled and how they
  interact: a frame is encoded by the wire codec, which writes through byte cursors and protects
  the payload and every hop under a security provider; the provider draws its outgoing counters
  from leases over a bounded counter store and checks incoming ones with the replay guard over a
  bounded replay store; relays forward along the route the distance-vector table selects; the
  table, the caches and the queues live in fixed-capacity containers; a gateway talks to its
  host in COBS-framed USB messages under cumulative credit.

  \<^bold>\<open>Conventions.\<close> Integers keep their width (\<open>u8\<close> to \<open>u64\<close>, wrapping as the source does). A fallible
  function returns \<open>status + 'a\<close> with the source's code and detail string in the error, so every
  early return is a branch; fallible code with state is a \<open>prog\<close>, which also returns the state it
  leaves when it fails. Classes are records, member functions take and return the record, out
  parameters are results. An abstract class is a record of its virtual functions over a state of
  any type, and its documented contract is a locale. Build constants that size containers are
  arguments.

  \<^item> \<open>RL_Prelude\<close>: widths, status codes, the error and state combinators, \<^verbatim>\<open>types.hpp\<close>, \<^verbatim>\<open>status.hpp\<close>.
  \<^item> \<open>Fixed_Containers\<close>, \<open>Fixed_Pool\<close>: \<^verbatim>\<open>fixed_containers.hpp\<close>. The ring buffer refines a bounded list
    (locale \<open>bounded_fifo\<close>); a pool is well formed after any operations and, read by key, a finite
    map (locale \<open>slot_pool\<close>, on which the route table, the replay table and the checkpoint cache
    rest).
  \<^item> \<open>Byte_IO\<close>: \<^verbatim>\<open>byte_io.cpp\<close>, \<^verbatim>\<open>crc32.cpp\<close>. The locale \<open>byte_field\<close> relates a writer to its reader and is
    interpreted for each width; the collection \<open>codec\<close> runs both on symbolic cursors.
  \<^item> \<open>Wire_Header\<close>, \<open>Wire_Frame\<close>: \<^verbatim>\<open>wire.cpp\<close>, \<^verbatim>\<open>wire.hpp\<close>, \<^verbatim>\<open>security.hpp\<close>. The header round trip, that
    no two encodings decode to one header, the associated data of the end layer, delivery over a
    path of relays to the payload the origin gave, group fan-out, and that relays cannot change
    the end layer. The security provider is a parameter with the AEAD contract as hypotheses.
  \<^item> \<open>Sha256_Hmac\<close>: the hash of \<^verbatim>\<open>discovery_scope.cpp\<close>; streaming agrees with the one-shot reference
    for every split of the input, HMAC with its definition, and the comparison with equality.
  \<^item> \<open>Route_Entry\<close>, \<open>Route_Table\<close>, \<open>Route_Safety\<close>, \<open>Loop_Freedom\<close>: \<^verbatim>\<open>routing.cpp\<close>, \<^verbatim>\<open>routing.hpp\<close>. Every member
    function of the table. Over any operations: the invariant, soundness, completeness and
    optimality of the selection, monotone feasible distances, permanence of withdrawals,
    hold-down and deadlines. A network of tables that exchange advertisements over lossy,
    reordering, duplicating channels never has a forwarding cycle.
  \<^item> \<open>Usb_Codec\<close>: \<^verbatim>\<open>usb_codec.cpp\<close>, \<^verbatim>\<open>usb_codec.hpp\<close>. COBS round trip, exactness of the frame decoder,
    agreement of the two encoders, resynchronisation of the stream decoder from any history, and
    the exactness of cumulative credit.
  \<^item> \<open>Replay_Window\<close>, \<open>Replay_Guard\<close>, \<open>Replay_Safety\<close>: \<^verbatim>\<open>replay.cpp\<close>, \<^verbatim>\<open>group_replay.cpp\<close>. The window
    arithmetic (locale \<open>sliding_window\<close>, interpreted for the guard and for the group table), the
    persisted guard, and that no counter is accepted twice over any history of calls, restarts
    and store faults (locale \<open>replay_store\<close>).
  \<^item> \<open>Counter_Lease\<close>, \<open>Counter_Safety\<close>: \<^verbatim>\<open>counter_store.cpp\<close>, \<^verbatim>\<open>counter_store.hpp\<close>. Leases, their checkpoints
    and the checkpoint cache; the ranges that leases and parked checkpoints own are disjoint and
    unissued (locales \<open>counter_store\<close> and \<open>counter_restart\<close>).
  \<^item> \<open>Peer_State\<close>, \<open>Peer_Safety\<close>: \<^verbatim>\<open>peer_state.cpp\<close>, \<^verbatim>\<open>peer_state.hpp\<close>. The bounded stores over inventories.
    Two sublocales show that they keep the contracts of the lease and of the replay guard, so no
    counter is issued or accepted twice over them; the sweep converges, the caps hold while
    records can be read, and the entry budget fits the partition.

  \<^bold>\<open>Bounds.\<close> The sweep has the source's own cap of 4096 passes of 16 records, enough for the 65536
  dead records of its convergence property. Following the routes in use takes a hop bound as
  fuel, and the liveness property gives one that suffices. The replay property covers fewer than
  \<open>2 ^ 32\<close> calls because the record generation is a 32-bit counter. Every other loop of the source
  is a structural recursion or a fold.

  \<^bold>\<open>Not modelled.\<close> The node's event loop and its handlers (\<^verbatim>\<open>node*.cpp\<close>) drive radio, clock and
  application callbacks, and the upper layers (discovery, configuration, groups, endpoints,
  migration, application objects, gateway, bridge, power, channel plan, telemetry) are protocols
  of their own on top of the parts modelled here. Trust, key schedule and the joining protocols
  (\<^verbatim>\<open>trust_*\<close>, \<^verbatim>\<open>authority\<close>, \<^verbatim>\<open>sdkv1_*\<close>) rest on third-party cryptography; the frame layer takes
  them as the abstract security provider. The radio, device and bench components, the firmware
  and the Rust host programs are input and output against the platform. Timing, memory and
  concurrency of the platform are outside the model: calls are sequential, as in the source.
\<close>

end
